(* ===== verification/Lightning_Prelude.thy ===== *)
theory Lightning_Prelude
  imports Main "HOL-Library.Word"
begin

text \<open>
  Shared vocabulary of the development: the machine integer types of the Rust sources, byte
  buffers with the slice operations the storage engine uses on them (\<open>&buf[a..b]\<close>,
  \<open>copy_from_slice\<close>), the little-endian codecs \<open>to_le_bytes\<close> and \<open>from_le_bytes\<close>, and the error
  values a fallible operation returns. The generic facts about them are collected in
  \<open>slice_simps\<close> and \<open>le_simps\<close>.
\<close>

unbundle bit_operations_syntax

named_theorems slice_simps \<open>reading and writing sub-slices of byte buffers\<close>
named_theorems le_simps \<open>little-endian encoding of machine words\<close>

section \<open>Machine integers and results\<close>

type_synonym byte = "8 word"
type_synonym u16 = "16 word"
type_synonym u32 = "32 word"
type_synonym u64 = "64 word"

text \<open>
  The variants of \<open>LightningError\<close> that the modelled code returns. \<open>Panic\<close> is a Rust panic: a
  slice index out of range or a failed \<open>expect\<close>.
\<close>

datatype lightning_error = Internal string | Database string | IoError | Panic

type_synonym 'a result = "lightning_error + 'a"

abbreviation Err :: "lightning_error \<Rightarrow> 'a result" where
  "Err \<equiv> Inl"

abbreviation Ok :: "'a \<Rightarrow> 'a result" where
  "Ok \<equiv> Inr"

section \<open>Slices of buffers\<close>

definition slice_at :: "nat \<Rightarrow> nat \<Rightarrow> 'a list \<Rightarrow> 'a list" where
  "slice_at off n xs = take n (drop off xs)"

definition write_at :: "nat \<Rightarrow> 'a list \<Rightarrow> 'a list \<Rightarrow> 'a list" where
  "write_at off ys xs = take off xs @ ys @ drop (off + length ys) xs"

lemma length_slice_at [simp]: "length (slice_at off n xs) = min n (length xs - off)"
  by (simp add: slice_at_def)

lemma nth_slice_at [slice_simps]:
  "i < n \<Longrightarrow> off + n \<le> length xs \<Longrightarrow> slice_at off n xs ! i = xs ! (off + i)"
  by (simp add: slice_at_def)

lemma slice_at_zero [simp]: "slice_at off 0 xs = []"
  by (simp add: slice_at_def)

lemma slice_at_append:
  "slice_at off (m + n) xs = slice_at off m xs @ slice_at (off + m) n xs"
  by (simp add: slice_at_def take_add add.commute)

lemma slice_at_split:
  assumes "slice_at off (m + n) xs = ys @ zs" "length ys = m" "off + m \<le> length xs"
  shows "slice_at off m xs = ys" and "slice_at (off + m) n xs = zs"
proof -
  have "length (slice_at off m xs) = length ys" using assms(2,3) by simp
  with assms(1) show "slice_at off m xs = ys" and "slice_at (off + m) n xs = zs"
    unfolding slice_at_append by (simp_all only: append_eq_append_conv simp_thms)
qed

lemma slice_at_slice_at [slice_simps]:
  "i + n \<le> m \<Longrightarrow> slice_at i n (slice_at off m xs) = slice_at (off + i) n xs"
  by (simp add: slice_at_def drop_take min_def add.commute)

lemma slice_at_take [slice_simps]:
  "off + n \<le> m \<Longrightarrow> slice_at off n (take m xs) = slice_at off n xs"
  by (simp add: slice_at_def drop_take min_def)

lemma slice_at_drop [slice_simps]:
  "slice_at off n (drop m xs) = slice_at (m + off) n xs"
  by (simp add: slice_at_def add.commute)

lemma slice_at_append_left [slice_simps]:
  "off + n \<le> length xs \<Longrightarrow> slice_at off n (xs @ ys) = slice_at off n xs"
  by (simp add: slice_at_def)

lemma slice_at_append_right [slice_simps]:
  "length xs \<le> off \<Longrightarrow> slice_at off n (xs @ ys) = slice_at (off - length xs) n ys"
  by (simp add: slice_at_def)

lemma slice_at_all [simp]: "slice_at 0 (length xs) xs = xs"
  by (simp add: slice_at_def)

lemma length_write_at [simp]:
  "off + length ys \<le> length xs \<Longrightarrow> length (write_at off ys xs) = length xs"
  by (simp add: write_at_def)

lemma write_at_Nil [simp]: "write_at off [] xs = xs"
  by (simp add: write_at_def)

lemma nth_write_at [slice_simps]:
  "off + length ys \<le> length xs \<Longrightarrow> i < length xs \<Longrightarrow>
   write_at off ys xs ! i = (if off \<le> i \<and> i < off + length ys then ys ! (i - off) else xs ! i)"
  by (auto simp: write_at_def nth_append min_def)

lemma write_at_append:
  "off + length ys + length zs \<le> length xs \<Longrightarrow>
   write_at (off + length ys) zs (write_at off ys xs) = write_at off (ys @ zs) xs"
  by (rule nth_equalityI) (auto simp: nth_write_at nth_append)

lemma slice_at_write_same [slice_simps]:
  "off + length ys \<le> length xs \<Longrightarrow> slice_at off (length ys) (write_at off ys xs) = ys"
  by (simp add: slice_at_def write_at_def)

lemma slice_at_write_inside:
  "off + length ys \<le> length xs \<Longrightarrow> i + n \<le> length ys \<Longrightarrow>
   slice_at (off + i) n (write_at off ys xs) = slice_at i n ys"
  by (rule nth_equalityI) (auto simp: nth_slice_at nth_write_at)

lemma slice_at_write_other [slice_simps]:
  "off + length ys \<le> length xs \<Longrightarrow> i + n \<le> length xs \<Longrightarrow> i + n \<le> off \<or> off + length ys \<le> i \<Longrightarrow>
   slice_at i n (write_at off ys xs) = slice_at i n xs"
  by (rule nth_equalityI) (auto simp: nth_slice_at nth_write_at)

section \<open>Little-endian encoding\<close>

text \<open>\<open>w.to_le_bytes()\<close> for a word of \<open>n\<close> bytes, and \<open>from_le_bytes\<close>.\<close>

definition le_bytes :: "nat \<Rightarrow> 'a::len word \<Rightarrow> byte list" where
  "le_bytes n w = map (\<lambda>i. ucast (drop_bit (8 * i) w)) [0..<n]"

fun from_le_bytes :: "byte list \<Rightarrow> 'a::len word" where
  "from_le_bytes [] = 0"
| "from_le_bytes (b # bs) = ucast b OR push_bit 8 (from_le_bytes bs)"

lemma length_le_bytes [simp]: "length (le_bytes n w) = n"
  by (simp add: le_bytes_def)

lemma bit_le_bytes [le_simps]:
  "i < n \<Longrightarrow> j < 8 \<Longrightarrow> bit (le_bytes n w ! i) j \<longleftrightarrow> bit w (8 * i + j)"
  by (auto simp: le_bytes_def bit_simps)

lemma bit_from_le_bytes [le_simps]:
  "bit (from_le_bytes bs :: 'a::len word) k \<longleftrightarrow>
     k < LENGTH('a) \<and> k div 8 < length bs \<and> bit (bs ! (k div 8)) (k mod 8)"
proof (induction bs arbitrary: k)
  case Nil
  then show ?case by simp
next
  case (Cons b bs)
  show ?case
  proof (cases "k < 8")
    case True
    then show ?thesis by (auto simp: bit_simps)
  next
    case False
    then have "k div 8 = Suc ((k - 8) div 8)" and "k mod 8 = (k - 8) mod 8"
      by (simp_all add: le_div_geq le_mod_geq)
    moreover have "\<not> bit b k"
      using False bit_imp_le_length [of b k] by auto
    ultimately show ?thesis using False by (auto simp: bit_simps Cons.IH)
  qed
qed

lemma from_le_le_bytes [simp]:
  "LENGTH('a) \<le> 8 * n \<Longrightarrow> from_le_bytes (le_bytes n (w :: 'a::len word)) = w"
proof (rule bit_word_eqI)
  fix k assume le: "LENGTH('a) \<le> 8 * n" and k: "k < LENGTH('a)"
  then have "k div 8 < n" by (simp add: less_mult_imp_div_less mult.commute)
  then show "bit (from_le_bytes (le_bytes n w) :: 'a word) k = bit w k"
    using k by (simp add: bit_from_le_bytes bit_le_bytes)
qed

lemma le_bytes_from_le [simp]:
  assumes "LENGTH('a) = 8 * n" and "length bs = n"
  shows "le_bytes n (from_le_bytes bs :: 'a::len word) = bs"
proof (rule nth_equalityI)
  show "length (le_bytes n (from_le_bytes bs :: 'a word)) = length bs"
    by (simp add: assms)
  fix i assume "i < length (le_bytes n (from_le_bytes bs :: 'a word))"
  then have i: "i < n" by simp
  show "le_bytes n (from_le_bytes bs :: 'a word) ! i = bs ! i"
  proof (rule bit_word_eqI)
    fix j :: nat assume j: "j < LENGTH(8)"
    then have "8 * i + j < LENGTH('a)" using i assms(1) by simp
    then show "bit (le_bytes n (from_le_bytes bs :: 'a word) ! i) j = bit (bs ! i) j"
      using i j assms(2) by (simp add: bit_le_bytes bit_from_le_bytes)
  qed
qed

text \<open>Little-endian encoding is injective, so two encodings can be compared bytewise.\<close>

lemma le_bytes_inject:
  "LENGTH('a) \<le> 8 * n \<Longrightarrow> le_bytes n (v :: 'a::len word) = le_bytes n w \<longleftrightarrow> v = w"
  by (metis from_le_le_bytes)

section \<open>Checked and saturating arithmetic\<close>

definition checked_add :: "'a::len word \<Rightarrow> 'a word \<Rightarrow> 'a word option" where
  "checked_add a b = (if unat a + unat b < 2 ^ LENGTH('a) then Some (a + b) else None)"

lemma checked_add_Some:
  "checked_add a b = Some c \<Longrightarrow> unat c = unat a + unat b"
  by (auto simp: checked_add_def unat_word_ariths split: if_splits)

definition saturating_add :: "'a::len word \<Rightarrow> 'a word \<Rightarrow> 'a word" where
  "saturating_add a b = (if unat a + unat b < 2 ^ LENGTH('a) then a + b else - 1)"

definition saturating_sub :: "'a::len word \<Rightarrow> 'a word \<Rightarrow> 'a word" where
  "saturating_sub a b = (if a < b then 0 else a - b)"

text \<open>\<open>64 - x.leading_zeros()\<close>: the number of significant bits.\<close>

fun bit_length :: "nat \<Rightarrow> nat" where
  "bit_length n = (if n = 0 then 0 else Suc (bit_length (n div 2)))"

declare bit_length.simps [simp del]

lemma less_exp_bit_length: "n < 2 ^ bit_length n"
proof (induction n rule: bit_length.induct)
  case (1 n)
  then show ?case by (cases "n = 0") (auto simp: bit_length.simps [of n])
qed

lemma bit_length_le: "n < 2 ^ k \<Longrightarrow> bit_length n \<le> k"
proof (induction k arbitrary: n)
  case 0
  then show ?case by (simp add: bit_length.simps)
next
  case (Suc k)
  then have "n div 2 < 2 ^ k" by auto
  with Suc.IH show ?case by (simp add: bit_length.simps [of n])
qed

lemma unat_plus_one: "w \<noteq> - 1 \<Longrightarrow> unat (w + 1 :: 'a::len word) = unat w + 1"
  using unatSuc [of w] by (simp add: add.commute add_eq_0_iff)

lemma less_plus_one: "w \<noteq> - 1 \<Longrightarrow> (w :: 'a::len word) < w + 1"
  by (simp add: unat_plus_one word_less_nat_alt)

lemma unat_plus_of_nat:
  assumes "unat (p :: 'a::len word) + k < 2 ^ LENGTH('a)"
  shows "unat (p + of_nat k) = unat p + k"
proof -
  have "unat (of_nat k :: 'a word) = k" using assms by (simp add: unat_of_nat)
  then show ?thesis using assms unat_add_lem [of p "of_nat k"] by simp
qed

end
