(* ===== verification/Page_State.thy ===== *)
theory Page_State
  imports Lightning_Prelude
begin

text \<open>
  The packed page state word of \<open>storage/page_state.rs\<close>: one atomic \<open>u64\<close> holding a dirty bit, a
  referenced bit, a six bit state and a 56 bit version. Every operation is a function of the word;
  the compare-and-swap loops of \<open>try_lock\<close> and \<open>unlock\<close> are split into their atomic steps in the
  relation \<open>ps_step\<close>, over which mutual exclusion is proved for any number of threads.
\<close>

unbundle bit_operations_syntax

section \<open>The packed word\<close>

definition UNLOCKED :: u64 where "UNLOCKED = 0"
definition LOCKED :: u64 where "LOCKED = 1"
definition MARKED :: u64 where "MARKED = 2"
definition EVICTED :: u64 where "EVICTED = 3"

definition DIRTY_MASK :: u64 where "DIRTY_MASK = 0x8000000000000000"
definition REFERENCED_MASK :: u64 where "REFERENCED_MASK = 0x4000000000000000"
definition STATE_MASK :: u64 where "STATE_MASK = 0x3F00000000000000"
definition VERSION_MASK :: u64 where "VERSION_MASK = 0x00FFFFFFFFFFFFFF"
definition STATE_SHIFT :: nat where "STATE_SHIFT = 56"

definition new_page_state :: u64 where
  "new_page_state = push_bit STATE_SHIFT EVICTED"

definition get_state :: "u64 \<Rightarrow> u64" where
  "get_state val = drop_bit STATE_SHIFT (val AND STATE_MASK)"

definition get_version :: "u64 \<Rightarrow> u64" where
  "get_version val = val AND VERSION_MASK"

definition is_dirty :: "u64 \<Rightarrow> bool" where
  "is_dirty val \<longleftrightarrow> val AND DIRTY_MASK \<noteq> 0"

definition is_referenced :: "u64 \<Rightarrow> bool" where
  "is_referenced val \<longleftrightarrow> val AND REFERENCED_MASK \<noteq> 0"

definition set_dirty :: "u64 \<Rightarrow> u64" where
  "set_dirty val = val OR DIRTY_MASK"

definition clear_dirty :: "u64 \<Rightarrow> u64" where
  "clear_dirty val = val AND NOT DIRTY_MASK"

definition set_referenced :: "u64 \<Rightarrow> u64" where
  "set_referenced val = val OR REFERENCED_MASK"

definition clear_referenced :: "u64 \<Rightarrow> u64" where
  "clear_referenced val = val AND NOT REFERENCED_MASK"

definition update_state_with_same_version :: "u64 \<Rightarrow> u64 \<Rightarrow> u64" where
  "update_state_with_same_version old_val new_state =
     (old_val AND NOT STATE_MASK) OR push_bit STATE_SHIFT new_state"

definition update_state_and_increment_version :: "u64 \<Rightarrow> u64 \<Rightarrow> u64" where
  "update_state_and_increment_version old_val new_state =
     (let new_version = ((old_val AND VERSION_MASK) + 1) AND VERSION_MASK
      in (old_val AND NOT STATE_MASK AND NOT VERSION_MASK)
           OR push_bit STATE_SHIFT new_state OR new_version)"

text \<open>
  \<open>try_lock(old)\<close> on the current word: refuse a word whose state is already LOCKED, else
  compare-and-swap. The result is the success flag and the word afterwards.
\<close>

definition try_lock :: "u64 \<Rightarrow> u64 \<Rightarrow> bool \<times> u64" where
  "try_lock cur old_state_and_version =
     (if old_state_and_version AND STATE_MASK = push_bit STATE_SHIFT LOCKED then (False, cur)
      else if cur = old_state_and_version
      then (True, update_state_with_same_version old_state_and_version LOCKED)
      else (False, cur))"

text \<open>
  \<open>unlock\<close> with no interfering thread: the first compare-and-swap of the loop succeeds.
\<close>

definition unlock :: "u64 \<Rightarrow> u64" where
  "unlock cur = update_state_and_increment_version cur UNLOCKED"

section \<open>Field facts\<close>

lemmas ps_masks = DIRTY_MASK_def REFERENCED_MASK_def STATE_MASK_def VERSION_MASK_def STATE_SHIFT_def
lemmas ps_states = UNLOCKED_def LOCKED_def MARKED_def EVICTED_def

lemma STATE_MASK_alt: "STATE_MASK = push_bit 56 (mask 6)"
  by (simp add: STATE_MASK_def mask_eq_exp_minus_1 push_bit_eq_mult)

lemma VERSION_MASK_alt: "VERSION_MASK = mask 56"
  by (simp add: VERSION_MASK_def mask_eq_exp_minus_1)

lemma DIRTY_MASK_alt: "DIRTY_MASK = push_bit 63 1"
  by (simp add: DIRTY_MASK_def push_bit_eq_mult)

lemma REFERENCED_MASK_alt: "REFERENCED_MASK = push_bit 62 1"
  by (simp add: REFERENCED_MASK_def push_bit_eq_mult)

lemma bit_masks [simp]:
  "bit STATE_MASK k \<longleftrightarrow> 56 \<le> k \<and> k < 62"
  "bit VERSION_MASK k \<longleftrightarrow> k < 56"
  "bit DIRTY_MASK k \<longleftrightarrow> k = 63"
  "bit REFERENCED_MASK k \<longleftrightarrow> k = 62"
proof -
  show "bit STATE_MASK k \<longleftrightarrow> 56 \<le> k \<and> k < 62" "bit VERSION_MASK k \<longleftrightarrow> k < 56"
    by (auto simp: STATE_MASK_alt VERSION_MASK_alt bit_simps)
  have one: "bit (push_bit n (1 :: u64)) k \<longleftrightarrow> k = n" if "n < 64" for n
    using that by (auto simp: bit_exp_iff possible_bit_def)
  show "bit DIRTY_MASK k \<longleftrightarrow> k = 63" "bit REFERENCED_MASK k \<longleftrightarrow> k = 62"
    unfolding DIRTY_MASK_alt REFERENCED_MASK_alt by (rule one, simp)+
qed

lemma bit_get_state: "bit (get_state v) k \<longleftrightarrow> k < 6 \<and> bit v (k + 56)"
  by (auto simp: get_state_def bit_simps STATE_SHIFT_def add.commute)

lemma bit_get_version: "bit (get_version v) k \<longleftrightarrow> k < 56 \<and> bit v k"
  by (auto simp: get_version_def bit_simps)

lemma single_bit_and: "(v :: 'a::len word) AND push_bit n 1 \<noteq> 0 \<longleftrightarrow> bit v n"
proof
  assume "v AND push_bit n 1 \<noteq> 0"
  then obtain k where "bit (v AND push_bit n 1) k" by (auto simp: bit_eq_iff)
  then show "bit v n" by (auto simp: bit_simps)
next
  assume "bit v n"
  then have "bit (v AND push_bit n 1) n" by (auto simp: bit_simps dest: bit_imp_le_length)
  then show "v AND push_bit n 1 \<noteq> 0" by auto
qed

lemma is_dirty_bit: "is_dirty v \<longleftrightarrow> bit v 63"
  unfolding is_dirty_def DIRTY_MASK_alt by (rule single_bit_and)

lemma is_referenced_bit: "is_referenced v \<longleftrightarrow> bit v 62"
  unfolding is_referenced_def REFERENCED_MASK_alt by (rule single_bit_and)

lemmas field_bits = bit_get_state bit_get_version is_dirty_bit is_referenced_bit

text \<open>The lock test of \<open>try_lock\<close> reads the state field.\<close>

lemma locked_test: "v AND STATE_MASK = push_bit STATE_SHIFT LOCKED \<longleftrightarrow> get_state v = LOCKED"
proof -
  have "v AND STATE_MASK = push_bit 56 (get_state v)"
    by (rule bit_word_eqI) (auto simp: bit_simps bit_get_state)
  moreover have "push_bit 56 (get_state v) = push_bit 56 LOCKED \<longleftrightarrow> get_state v = LOCKED"
  proof
    assume eq: "push_bit 56 (get_state v) = push_bit 56 LOCKED"
    show "get_state v = LOCKED"
    proof (rule bit_word_eqI)
      fix k :: nat assume "k < LENGTH(64)"
      have "bit (push_bit 56 (get_state v)) (k + 56) = bit (push_bit 56 LOCKED) (k + 56)"
        by (simp add: eq)
      then have "k < 8 \<Longrightarrow> bit (get_state v) k = bit LOCKED k"
        unfolding bit_push_bit_iff possible_bit_def by simp
      then show "bit (get_state v) k = bit LOCKED k"
        by (cases "k < 8") (auto simp: bit_get_state LOCKED_def bit_1_iff)
    qed
  qed simp
  ultimately show ?thesis by (simp add: STATE_SHIFT_def)
qed

lemma bit_small_state:
  "s \<in> {UNLOCKED, LOCKED, MARKED, EVICTED} \<Longrightarrow> bit s k \<Longrightarrow> k < 2"
proof -
  assume s: "s \<in> {UNLOCKED, LOCKED, MARKED, EVICTED}" and b: "bit s k"
  have "s = take_bit 2 s" using s by (auto simp: ps_states take_bit_eq_mod)
  then show "k < 2" using b by (metis bit_take_bit_iff)
qed

lemma get_state_update_same:
  assumes "s \<in> {UNLOCKED, LOCKED, MARKED, EVICTED}"
  shows "get_state (update_state_with_same_version v s) = s"
  using bit_small_state [OF assms]
  by (intro bit_word_eqI)
     (fastforce simp: bit_get_state update_state_with_same_version_def bit_simps STATE_SHIFT_def)

lemma get_version_update_same:
  "get_version (update_state_with_same_version v s) = get_version v"
  by (rule bit_word_eqI)
     (auto simp: bit_get_version update_state_with_same_version_def bit_simps STATE_SHIFT_def)

lemma flags_update_same:
  assumes "s \<in> {UNLOCKED, LOCKED, MARKED, EVICTED}"
  shows "is_dirty (update_state_with_same_version v s) = is_dirty v"
    and "is_referenced (update_state_with_same_version v s) = is_referenced v"
  using bit_small_state [OF assms]
  by (fastforce simp: field_bits update_state_with_same_version_def bit_simps STATE_SHIFT_def)+

lemma bit_increment:
  "bit (update_state_and_increment_version v s) k \<longleftrightarrow>
     k < 64 \<and> (if k < 56 then bit (get_version v + 1) k
                else if k < 62 then bit s (k - 56)
                else bit v k \<or> bit s (k - 56))"
  by (auto simp: update_state_and_increment_version_def Let_def bit_simps get_version_def
      STATE_SHIFT_def)

lemma unlock_fields:
  "get_state (unlock v) = UNLOCKED"
  "get_version (unlock v) = (get_version v + 1) AND VERSION_MASK"
  "is_dirty (unlock v) = is_dirty v"
  "is_referenced (unlock v) = is_referenced v"
proof -
  show "get_state (unlock v) = UNLOCKED"
    by (rule bit_word_eqI) (auto simp: unlock_def bit_get_state bit_increment UNLOCKED_def)
  show "get_version (unlock v) = (get_version v + 1) AND VERSION_MASK"
    by (rule bit_word_eqI) (auto simp: unlock_def bit_get_version bit_increment bit_simps)
qed (simp_all add: unlock_def field_bits bit_increment UNLOCKED_def)

lemma flag_ops_get_state [simp]:
  "get_state (set_dirty v) = get_state v"
  "get_state (clear_dirty v) = get_state v"
  "get_state (set_referenced v) = get_state v"
  "get_state (clear_referenced v) = get_state v"
  by (auto intro!: bit_word_eqI simp: bit_get_state set_dirty_def clear_dirty_def
      set_referenced_def clear_referenced_def bit_simps)

section \<open>Threads sharing one page state\<close>

text \<open>
  A thread that takes the lock reads the word (\<open>get_state_and_version\<close>), calls \<open>try_lock\<close> with what
  it read, and releases with \<open>unlock\<close>, whose loop is a load followed by
  \<open>compare_exchange_weak\<close>. The weak exchange may fail spuriously, so \<open>unlock_retry\<close> has no guard.
  Any thread may set or clear the two flag bits at any moment.
\<close>

datatype ps_pc = Idle | Loaded u64 | Holding | Releasing u64

record ps_sys =
  sv :: u64
  pcs :: "nat \<Rightarrow> ps_pc"

definition ps_init :: ps_sys where
  "ps_init = \<lparr>sv = new_page_state, pcs = (\<lambda>_. Idle)\<rparr>"

inductive ps_step :: "ps_sys \<Rightarrow> ps_sys \<Rightarrow> bool" where
  load: "pcs s t = Idle \<Longrightarrow> ps_step s (s\<lparr>pcs := (pcs s)(t := Loaded (sv s))\<rparr>)"
| lock_ok: "pcs s t = Loaded old \<Longrightarrow> try_lock (sv s) old = (True, v) \<Longrightarrow>
     ps_step s (s\<lparr>sv := v, pcs := (pcs s)(t := Holding)\<rparr>)"
| lock_fail: "pcs s t = Loaded old \<Longrightarrow> try_lock (sv s) old = (False, v) \<Longrightarrow>
     ps_step s (s\<lparr>sv := v, pcs := (pcs s)(t := Idle)\<rparr>)"
| unlock_load: "pcs s t = Holding \<Longrightarrow> ps_step s (s\<lparr>pcs := (pcs s)(t := Releasing (sv s))\<rparr>)"
| unlock_ok: "pcs s t = Releasing old \<Longrightarrow> sv s = old \<Longrightarrow>
     ps_step s (s\<lparr>sv := update_state_and_increment_version old UNLOCKED, pcs := (pcs s)(t := Idle)\<rparr>)"
| unlock_retry: "pcs s t = Releasing old \<Longrightarrow> ps_step s (s\<lparr>pcs := (pcs s)(t := Holding)\<rparr>)"
| flag: "f \<in> {set_dirty, clear_dirty, set_referenced, clear_referenced} \<Longrightarrow>
     ps_step s (s\<lparr>sv := f (sv s)\<rparr>)"

inductive ps_reachable :: "ps_sys \<Rightarrow> bool" where
  ps_start: "ps_reachable ps_init"
| ps_next: "ps_reachable s \<Longrightarrow> ps_step s s' \<Longrightarrow> ps_reachable s'"

definition holds_lock :: "ps_sys \<Rightarrow> nat \<Rightarrow> bool" where
  "holds_lock s t \<longleftrightarrow> (case pcs s t of Holding \<Rightarrow> True | Releasing _ \<Rightarrow> True | _ \<Rightarrow> False)"

definition ps_inv :: "ps_sys \<Rightarrow> bool" where
  "ps_inv s \<longleftrightarrow> (\<forall>t u. holds_lock s t \<longrightarrow> holds_lock s u \<longrightarrow> t = u)
     \<and> (get_state (sv s) = LOCKED \<longleftrightarrow> (\<exists>t. holds_lock s t))"

lemma try_lock_True:
  "try_lock cur old = (True, v) \<Longrightarrow> get_state cur \<noteq> LOCKED \<and> get_state v = LOCKED"
  by (auto simp: try_lock_def locked_test get_state_update_same split: if_splits)

lemma try_lock_False: "try_lock cur old = (False, v) \<Longrightarrow> v = cur"
  by (auto simp: try_lock_def split: if_splits)

lemma holds_lock_upd:
  "holds_lock (s\<lparr>sv := v, pcs := (pcs s)(t := pc)\<rparr>) u \<longleftrightarrow>
     (if u = t then (case pc of Holding \<Rightarrow> True | Releasing _ \<Rightarrow> True | _ \<Rightarrow> False) else holds_lock s u)"
  "holds_lock (s\<lparr>pcs := (pcs s)(t := pc)\<rparr>) u \<longleftrightarrow>
     (if u = t then (case pc of Holding \<Rightarrow> True | Releasing _ \<Rightarrow> True | _ \<Rightarrow> False) else holds_lock s u)"
  "holds_lock (s\<lparr>sv := v\<rparr>) u = holds_lock s u"
  by (auto simp: holds_lock_def)

lemma holds_lock_pc:
  "pcs s t = Idle \<Longrightarrow> \<not> holds_lock s t"
  "pcs s t = Loaded x \<Longrightarrow> \<not> holds_lock s t"
  "pcs s t = Holding \<Longrightarrow> holds_lock s t"
  "pcs s t = Releasing x \<Longrightarrow> holds_lock s t"
  by (simp_all add: holds_lock_def)

text \<open>A step that only moves a thread inside or outside its critical section keeps the holders.\<close>

lemma holds_lock_frame:
  "holds_lock s t = (case pc of Holding \<Rightarrow> True | Releasing _ \<Rightarrow> True | _ \<Rightarrow> False) \<Longrightarrow>
   holds_lock (s\<lparr>pcs := (pcs s)(t := pc)\<rparr>) = holds_lock s"
  by (auto simp: fun_eq_iff holds_lock_upd)

lemma ps_inv_frame:
  "holds_lock s t = (case pc of Holding \<Rightarrow> True | Releasing _ \<Rightarrow> True | _ \<Rightarrow> False) \<Longrightarrow>
   ps_inv s \<Longrightarrow> ps_inv (s\<lparr>pcs := (pcs s)(t := pc)\<rparr>)"
  by (simp add: ps_inv_def holds_lock_frame)

lemma ps_step_inv: "ps_step s s' \<Longrightarrow> ps_inv s \<Longrightarrow> ps_inv s'"
proof (induction rule: ps_step.induct)
  case (load s t)
  then show ?case by (intro ps_inv_frame) (simp_all add: holds_lock_pc)
next
  case (lock_ok s t old v)
  then have "get_state (sv s) \<noteq> LOCKED" "get_state v = LOCKED" by (auto dest: try_lock_True)
  with lock_ok.prems show ?case by (auto simp: ps_inv_def holds_lock_upd)
next
  case (lock_fail s t old v)
  then have "v = sv s" by (auto dest: try_lock_False)
  with lock_fail show ?case using ps_inv_frame [of s t Idle] by (simp add: holds_lock_pc)
next
  case (unlock_load s t)
  then show ?case by (intro ps_inv_frame) (simp_all add: holds_lock_pc)
next
  case (unlock_ok s t old)
  have "get_state (update_state_and_increment_version old UNLOCKED) = UNLOCKED"
    using unlock_fields(1) by (simp add: unlock_def)
  then have "get_state (update_state_and_increment_version old UNLOCKED) \<noteq> LOCKED"
    by (simp add: LOCKED_def UNLOCKED_def)
  moreover have "\<not> holds_lock s u" if "u \<noteq> t" for u
    using unlock_ok that holds_lock_pc(4) by (auto simp: ps_inv_def)
  ultimately show ?case by (auto simp: ps_inv_def holds_lock_upd)
next
  case (unlock_retry s t old)
  then show ?case by (intro ps_inv_frame) (simp_all add: holds_lock_pc)
next
  case (flag f s)
  then show ?case by (auto simp: ps_inv_def holds_lock_upd)
qed

lemma new_page_state_fields:
  "get_state new_page_state = EVICTED" "get_version new_page_state = 0"
  "\<not> is_dirty new_page_state" "\<not> is_referenced new_page_state"
  by (simp_all add: new_page_state_def get_state_def get_version_def is_dirty_def is_referenced_def
      ps_masks ps_states)

lemma ps_inv_init: "ps_inv ps_init"
  by (simp add: ps_inv_def ps_init_def holds_lock_def new_page_state_fields ps_states)

lemma reachable_ps_inv: "ps_reachable s \<Longrightarrow> ps_inv s"
  by (induction rule: ps_reachable.induct) (auto intro: ps_inv_init ps_step_inv)

section \<open>Properties\<close>

text \<open>
  C6 [page_lock_mutual_exclusion]. In every state reachable by any interleaving of any number of
  threads that lock, unlock and toggle the flag bits, at most one thread is between a successful
  \<open>try_lock\<close> and the end of its \<open>unlock\<close>, and the state field reads LOCKED exactly while one is.
\<close>

theorem page_lock_mutual_exclusion:
  assumes "ps_reachable s"
  shows "(holds_lock s t \<and> holds_lock s u \<longrightarrow> t = u)
    \<and> (get_state (sv s) = LOCKED \<longleftrightarrow> (\<exists>t. holds_lock s t))"
  using reachable_ps_inv [OF assms] by (auto simp: ps_inv_def)

definition ps_locked_example :: ps_sys where
  "ps_locked_example =
     \<lparr>sv = update_state_with_same_version new_page_state LOCKED, pcs = (\<lambda>_. Idle)(3 := Holding)\<rparr>"

lemma ps_locked_example_reachable: "ps_reachable ps_locked_example"
proof -
  let ?s1 = "ps_init\<lparr>pcs := (pcs ps_init)(3 := Loaded (sv ps_init))\<rparr>"
  let ?v = "update_state_with_same_version new_page_state LOCKED"
  have s1: "ps_reachable ?s1"
    by (rule ps_next [OF ps_start load]) (simp add: ps_init_def)
  have "try_lock (sv ?s1) new_page_state = (True, ?v)"
    unfolding try_lock_def locked_test by (simp add: ps_init_def new_page_state_fields ps_states)
  then have "ps_step ?s1 (?s1\<lparr>sv := ?v, pcs := (pcs ?s1)(3 := Holding)\<rparr>)"
    by (intro lock_ok) (simp_all add: ps_init_def)
  moreover have "?s1\<lparr>sv := ?v, pcs := (pcs ?s1)(3 := Holding)\<rparr> = ps_locked_example"
    by (simp add: ps_locked_example_def ps_init_def)
  ultimately show ?thesis using ps_next [OF s1] by simp
qed

theorem page_lock_mutual_exclusion_witness:
  "ps_reachable ps_locked_example \<and> holds_lock ps_locked_example 3
   \<and> get_state (sv ps_locked_example) = LOCKED"
proof -
  have "holds_lock ps_locked_example 3" by (simp add: ps_locked_example_def holds_lock_def)
  then show ?thesis
    using page_lock_mutual_exclusion [OF ps_locked_example_reachable] ps_locked_example_reachable
    by blast
qed

text \<open>
  C28 [lock_unlock_cycle]. Locking an unlocked page with a fresh snapshot succeeds and keeps version
  and flags; the following unlock returns the state to UNLOCKED, advances the 56 bit version by one
  (wrapping), keeps the dirty and referenced bits, and makes the old snapshot useless: \<open>try_lock\<close>
  with it fails and changes nothing.
\<close>

theorem lock_unlock_cycle:
  assumes "get_state v \<noteq> LOCKED"
  shows "\<exists>v'. try_lock v v = (True, v') \<and> get_state v' = LOCKED \<and> get_version v' = get_version v
    \<and> get_state (unlock v') = UNLOCKED
    \<and> get_version (unlock v') = (get_version v + 1) AND VERSION_MASK
    \<and> is_dirty (unlock v') = is_dirty v \<and> is_referenced (unlock v') = is_referenced v
    \<and> try_lock (unlock v') v = (False, unlock v')"
proof -
  let ?v = "update_state_with_same_version v LOCKED"
  have lock: "try_lock v v = (True, ?v)"
    using assms by (simp add: try_lock_def locked_test)
  have ver: "get_version (unlock ?v) = (get_version v + 1) AND VERSION_MASK"
    by (simp add: unlock_fields get_version_update_same)
  have "bit ((get_version v + 1) AND VERSION_MASK) 0 \<noteq> bit (get_version v) 0"
    unfolding bit_and_iff using bit_masks(2) [of 0] by (simp add: bit_0)
  then have "bit (get_version (unlock ?v)) 0 \<noteq> bit (get_version v) 0"
    unfolding ver .
  then have "unlock ?v \<noteq> v" by auto
  then have stale: "try_lock (unlock ?v) v = (False, unlock ?v)"
    using assms by (simp add: try_lock_def locked_test)
  show ?thesis
    by (rule exI [of _ ?v])
       (simp add: lock ver stale unlock_fields get_version_update_same get_state_update_same
         flags_update_same)
qed

theorem lock_unlock_cycle_witness:
  "get_state new_page_state \<noteq> LOCKED
   \<and> (\<exists>v'. try_lock new_page_state new_page_state = (True, v') \<and> get_state (unlock v') = UNLOCKED
        \<and> get_version (unlock v') = 1)"
proof -
  have ne: "get_state new_page_state \<noteq> LOCKED" by (simp add: new_page_state_fields ps_states)
  have "(get_version new_page_state + 1) AND VERSION_MASK = 1"
    by (simp add: new_page_state_fields VERSION_MASK_def)
  then show ?thesis using lock_unlock_cycle [OF ne] ne by auto
qed

end
