(* ===== verification/Row_Version.thy ===== *)
theory Row_Version
  imports Lightning_Prelude
begin

text \<open>
  The row version store of \<open>storage/row_version.rs\<close>: per table, sixteen shards of two hash maps, the
  uncommitted writer of each row and the first and last commit timestamps of each row. The store
  decides write-write conflicts (\<open>mark_row\<close>) and snapshot visibility (\<open>is_visible\<close>).
  A hash map is a partial function; lock acquisition is not modelled, each call is one atomic step.
  The interface the transaction layer relies on is the locale \<open>row_versioning\<close> at the end, whose
  laws speak of the whole table and not of shards.
\<close>

unbundle bit_operations_syntax

section \<open>State\<close>

record committed_version =
  first_ts :: u64
  last_ts :: u64

record row_version_shard =
  versions :: "u64 \<rightharpoonup> u64"
  committed :: "u64 \<rightharpoonup> committed_version"

record row_version =
  shards :: "row_version_shard list"
  num_shards :: nat
  dirty_flag :: bool

definition empty_shard :: row_version_shard where
  "empty_shard = \<lparr>versions = Map.empty, committed = Map.empty\<rparr>"

definition new_row_version :: row_version where
  "new_row_version = \<lparr>shards = replicate 16 empty_shard, num_shards = 16, dirty_flag = False\<rparr>"

section \<open>Operations\<close>

definition get_shard_idx :: "row_version \<Rightarrow> u64 \<Rightarrow> nat" where
  "get_shard_idx rv row_id =
     (let h = row_id;
          h = h XOR drop_bit 33 h;
          h = h * 0xff51afd7ed558ccd;
          h = h XOR drop_bit 33 h;
          h = h * 0xc4ceb9fe1a85ec53;
          h = h XOR drop_bit 33 h
      in unat h mod num_shards rv)"

abbreviation shard_of :: "row_version \<Rightarrow> u64 \<Rightarrow> row_version_shard" where
  "shard_of rv row_id \<equiv> shards rv ! get_shard_idx rv row_id"

text \<open>\<open>self.shards[idx]\<close> updated in place.\<close>

definition upd_shard :: "nat \<Rightarrow> (row_version_shard \<Rightarrow> row_version_shard) \<Rightarrow> row_version \<Rightarrow> row_version" where
  "upd_shard i f rv = rv\<lparr>shards := (shards rv)[i := f (shards rv ! i)]\<rparr>"

datatype write_conflict =
    ActiveConflict u64 u64      \<comment> \<open>row, active transaction\<close>
  | CommittedConflict u64 u64   \<comment> \<open>row, last commit timestamp\<close>

definition mark_row :: "row_version \<Rightarrow> u64 \<Rightarrow> u64 \<Rightarrow> u64 \<Rightarrow> write_conflict + row_version" where
  "mark_row rv row_id tx_id read_ts =
     (let i = get_shard_idx rv row_id;
          sh = shards rv ! i;
          proceed = Inr ((upd_shard i (\<lambda>sh. sh\<lparr>versions := (versions sh)(row_id \<mapsto> tx_id)\<rparr>) rv)
                          \<lparr>dirty_flag := True\<rparr>);
          check_committed =
            (case committed sh row_id of
               Some entry \<Rightarrow> if last_ts entry > read_ts
                 then Inl (CommittedConflict row_id (last_ts entry)) else proceed
             | None \<Rightarrow> proceed)
      in (case versions sh row_id of
            Some existing_tx \<Rightarrow> if existing_tx \<noteq> tx_id
              then Inl (ActiveConflict row_id existing_tx) else check_committed
          | None \<Rightarrow> check_committed))"

text \<open>The rows of a \<open>Range<u64>\<close>, in order, and their distribution over the shards.\<close>

definition row_range :: "u64 \<Rightarrow> u64 \<Rightarrow> u64 list" where
  "row_range a b = map of_nat [unat a..<unat b]"

definition group_by_shard :: "row_version \<Rightarrow> u64 list \<Rightarrow> u64 list list" where
  "group_by_shard rv row_ids =
     fold (\<lambda>r upd. upd[get_shard_idx rv r := upd ! get_shard_idx rv r @ [r]]) row_ids
       (replicate (num_shards rv) [])"

text \<open>
  The second loop of the batch operations: every shard with a non-empty group is updated row by row.
\<close>

definition for_groups ::
  "(u64 \<Rightarrow> row_version_shard \<Rightarrow> row_version_shard) \<Rightarrow> u64 list list \<Rightarrow> row_version \<Rightarrow> row_version" where
  "for_groups f groups rv =
     fold (\<lambda>(i, ids) rv. if ids = [] then rv else upd_shard i (fold f ids) rv)
       (zip [0..<length groups] groups) rv"

definition mark_shard_row :: "u64 \<Rightarrow> u64 \<Rightarrow> row_version_shard \<Rightarrow> row_version_shard" where
  "mark_shard_row tx_id r sh = sh\<lparr>versions := (versions sh)(r \<mapsto> tx_id)\<rparr>"

definition mark_row_batch :: "row_version \<Rightarrow> u64 \<Rightarrow> u64 \<Rightarrow> u64 \<Rightarrow> row_version" where
  "mark_row_batch rv a b tx_id =
     (let groups = group_by_shard rv (row_range a b);
          rv' = for_groups (mark_shard_row tx_id) groups rv
      in if \<exists>ids \<in> set groups. ids \<noteq> [] then rv'\<lparr>dirty_flag := True\<rparr> else rv')"

definition rollback_shard_row :: "u64 \<Rightarrow> row_version_shard \<Rightarrow> row_version_shard" where
  "rollback_shard_row r sh = sh\<lparr>versions := (versions sh)(r := None)\<rparr>"

definition rollback_row_batch :: "row_version \<Rightarrow> u64 \<Rightarrow> u64 \<Rightarrow> row_version" where
  "rollback_row_batch rv a b = for_groups rollback_shard_row (group_by_shard rv (row_range a b)) rv"

definition merge_commit :: "u64 \<Rightarrow> committed_version option \<Rightarrow> committed_version" where
  "merge_commit commit_ts e =
     (let entry = (case e of Some entry \<Rightarrow> entry
                    | None \<Rightarrow> \<lparr>first_ts = commit_ts, last_ts = commit_ts\<rparr>)
      in \<lparr>first_ts = min (first_ts entry) commit_ts, last_ts = max (last_ts entry) commit_ts\<rparr>)"

definition commit_shard_row :: "u64 \<Rightarrow> u64 \<Rightarrow> row_version_shard \<Rightarrow> row_version_shard" where
  "commit_shard_row commit_ts r sh =
     sh\<lparr>versions := (versions sh)(r := None),
        committed := (committed sh)(r \<mapsto> merge_commit commit_ts (committed sh r))\<rparr>"

definition commit_row :: "row_version \<Rightarrow> u64 \<Rightarrow> u64 \<Rightarrow> row_version" where
  "commit_row rv row_id commit_ts =
     upd_shard (get_shard_idx rv row_id) (commit_shard_row commit_ts row_id) rv"

definition commit_row_batch :: "row_version \<Rightarrow> u64 \<Rightarrow> u64 \<Rightarrow> u64 \<Rightarrow> row_version" where
  "commit_row_batch rv a b commit_ts =
     for_groups (commit_shard_row commit_ts) (group_by_shard rv (row_range a b)) rv"

definition rollback_row :: "row_version \<Rightarrow> u64 \<Rightarrow> row_version" where
  "rollback_row rv row_id = upd_shard (get_shard_idx rv row_id) (rollback_shard_row row_id) rv"

definition is_visible :: "row_version \<Rightarrow> u64 \<Rightarrow> u64 \<Rightarrow> u64 \<Rightarrow> bool" where
  "is_visible rv row_id tx_id read_ts =
     (let sh = shard_of rv row_id
      in (case versions sh row_id of
            Some mod_tx \<Rightarrow>
              if mod_tx = tx_id then True
              else (case committed sh row_id of None \<Rightarrow> False | Some e \<Rightarrow> first_ts e \<le> read_ts)
          | None \<Rightarrow>
              (case committed sh row_id of Some entry \<Rightarrow> first_ts entry \<le> read_ts | None \<Rightarrow> True)))"

text \<open>
  \<open>get_visibility_mask\<close>: the caller's mask is resized to the number of rows (\<open>Vec::resize\<close> keeps a
  prefix or pads with \<open>true\<close>), the rows are grouped by shard with their positions, and each position
  of a group is overwritten.
\<close>

definition resize_with :: "'a \<Rightarrow> nat \<Rightarrow> 'a list \<Rightarrow> 'a list" where
  "resize_with x n xs = take n xs @ replicate (n - length xs) x"

definition mask_groups :: "row_version \<Rightarrow> u64 list \<Rightarrow> (nat \<times> u64) list list" where
  "mask_groups rv row_ids =
     fold (\<lambda>(i, r) g. g[get_shard_idx rv r := g ! get_shard_idx rv r @ [(i, r)]])
       (zip [0..<length row_ids] row_ids) (replicate (num_shards rv) [])"

definition mask_entry :: "row_version_shard \<Rightarrow> u64 \<Rightarrow> u64 \<Rightarrow> u64 \<Rightarrow> bool" where
  "mask_entry sh row_id tx_id read_ts =
     (case versions sh row_id of
        Some mod_tx \<Rightarrow>
          if mod_tx \<noteq> tx_id
          then (case committed sh row_id of None \<Rightarrow> False | Some e \<Rightarrow> first_ts e \<le> read_ts)
          else True
      | None \<Rightarrow> (case committed sh row_id of Some entry \<Rightarrow> first_ts entry \<le> read_ts | None \<Rightarrow> True))"

definition get_visibility_mask ::
  "row_version \<Rightarrow> u64 list \<Rightarrow> u64 \<Rightarrow> u64 \<Rightarrow> bool list \<Rightarrow> bool list" where
  "get_visibility_mask rv row_ids tx_id read_ts msk =
     fold (\<lambda>(s, grp) msk.
             fold (\<lambda>(i, r) msk. msk[i := mask_entry (shards rv ! s) r tx_id read_ts]) grp msk)
       (zip [0..<num_shards rv] (mask_groups rv row_ids))
       (resize_with True (length row_ids) msk)"

definition has_modifications :: "row_version \<Rightarrow> bool" where
  "has_modifications rv \<longleftrightarrow>
     (if \<not> dirty_flag rv then False
      else list_ex (\<lambda>sh. versions sh \<noteq> Map.empty \<or> committed sh \<noteq> Map.empty) (shards rv))"

definition has_committed :: "row_version \<Rightarrow> bool" where
  "has_committed rv \<longleftrightarrow> list_ex (\<lambda>sh. committed sh \<noteq> Map.empty) (shards rv)"

definition vacuum_entry :: "u64 \<Rightarrow> committed_version \<Rightarrow> committed_version option" where
  "vacuum_entry min_active_ts entry =
     (if last_ts entry < min_active_ts then None
      else if first_ts entry < min_active_ts then Some (entry\<lparr>first_ts := min_active_ts\<rparr>)
      else Some entry)"

definition vacuum_shard :: "u64 \<Rightarrow> row_version_shard \<Rightarrow> row_version_shard" where
  "vacuum_shard min_active_ts sh =
     sh\<lparr>committed := (\<lambda>r. case committed sh r of None \<Rightarrow> None | Some e \<Rightarrow> vacuum_entry min_active_ts e)\<rparr>"

definition vacuum :: "row_version \<Rightarrow> u64 \<Rightarrow> nat \<times> row_version" where
  "vacuum rv min_active_ts =
     (let shs = map (vacuum_shard min_active_ts) (shards rv)
      in (sum_list (map2 (\<lambda>sh sh'. card (dom (committed sh)) - card (dom (committed sh')))
            (shards rv) shs),
          rv\<lparr>shards := shs\<rparr>))"

definition clear_dirty_flag :: "row_version \<Rightarrow> row_version" where
  "clear_dirty_flag rv = rv\<lparr>dirty_flag := False\<rparr>"

definition mark_dirty :: "row_version \<Rightarrow> row_version" where
  "mark_dirty rv = rv\<lparr>dirty_flag := True\<rparr>"

section \<open>The table-wide view\<close>

definition rv_inv :: "row_version \<Rightarrow> bool" where
  "rv_inv rv \<longleftrightarrow> num_shards rv = length (shards rv) \<and> 0 < num_shards rv"

text \<open>The uncommitted writer and the commit history of a row, wherever its shard is.\<close>

definition writer :: "row_version \<Rightarrow> u64 \<Rightarrow> u64 option" where
  "writer rv r = versions (shard_of rv r) r"

definition history :: "row_version \<Rightarrow> u64 \<Rightarrow> committed_version option" where
  "history rv r = committed (shard_of rv r) r"

lemma rv_invD: "rv_inv rv \<Longrightarrow> num_shards rv = length (shards rv)" "rv_inv rv \<Longrightarrow> 0 < length (shards rv)"
  by (auto simp: rv_inv_def)

lemma get_shard_idx_less: "rv_inv rv \<Longrightarrow> get_shard_idx rv r < length (shards rv)"
  using rv_invD [of rv] by (simp add: get_shard_idx_def Let_def)

lemma get_shard_idx_cong: "num_shards rv' = num_shards rv \<Longrightarrow> get_shard_idx rv' r = get_shard_idx rv r"
  by (simp add: get_shard_idx_def)

lemma num_shards_upd_shard [simp]: "num_shards (upd_shard i f rv) = num_shards rv"
  by (simp add: upd_shard_def)

lemma get_shard_idx_upd [simp]:
  "get_shard_idx (upd_shard i f rv) = get_shard_idx rv"
  "get_shard_idx (rv\<lparr>dirty_flag := b\<rparr>) = get_shard_idx rv"
  "get_shard_idx (rv\<lparr>shards := shs\<rparr>) = get_shard_idx rv"
  by (auto simp: fun_eq_iff intro!: get_shard_idx_cong)

section \<open>Shard bookkeeping\<close>

lemma shards_upd_shard: "shards (upd_shard i f rv) = (shards rv)[i := f (shards rv ! i)]"
  by (simp add: upd_shard_def)

lemma nth_shards_upd_shard:
  "i < length (shards rv) \<Longrightarrow>
   shards (upd_shard i f rv) ! j = (if j = i then f (shards rv ! i) else shards rv ! j)"
  by (simp add: upd_shard_def)

text \<open>Updating the rows one after the other, each in its own shard.\<close>

abbreviation for_rows ::
  "(u64 \<Rightarrow> row_version_shard \<Rightarrow> row_version_shard) \<Rightarrow> u64 list \<Rightarrow> row_version \<Rightarrow> row_version" where
  "for_rows f rows rv \<equiv> fold (\<lambda>r rv. upd_shard (get_shard_idx rv r) (f r) rv) rows rv"

lemma for_rows_shards:
  "(\<forall>r. get_shard_idx rv r < length (shards rv)) \<Longrightarrow> j < length (shards rv) \<Longrightarrow>
   num_shards (for_rows f rows rv) = num_shards rv \<and>
   dirty_flag (for_rows f rows rv) = dirty_flag rv \<and>
   length (shards (for_rows f rows rv)) = length (shards rv) \<and>
   shards (for_rows f rows rv) ! j = fold f (filter (\<lambda>r. get_shard_idx rv r = j) rows) (shards rv ! j)"
proof (induction rows arbitrary: rv)
  case Nil
  then show ?case by simp
next
  case (Cons r rows)
  let ?rv = "upd_shard (get_shard_idx rv r) (f r) rv"
  have "\<forall>r. get_shard_idx ?rv r < length (shards ?rv)" "j < length (shards ?rv)"
    using Cons.prems by (simp_all add: shards_upd_shard)
  note IH = Cons.IH [OF this]
  have nth: "shards ?rv ! j = (if j = get_shard_idx rv r then f r (shards rv ! j) else shards rv ! j)"
    using Cons.prems by (simp add: nth_shards_upd_shard)
  have "dirty_flag ?rv = dirty_flag rv" "length (shards ?rv) = length (shards rv)"
    by (simp_all add: upd_shard_def)
  with IH show ?case by (auto simp: nth)
qed

lemma group_by_shard_aux:
  "(\<forall>r. get_shard_idx rv r < length g) \<Longrightarrow> j < length g \<Longrightarrow>
   length (fold (\<lambda>r upd. upd[get_shard_idx rv r := upd ! get_shard_idx rv r @ [r]]) rows g) = length g \<and>
   fold (\<lambda>r upd. upd[get_shard_idx rv r := upd ! get_shard_idx rv r @ [r]]) rows g ! j
     = g ! j @ filter (\<lambda>r. get_shard_idx rv r = j) rows"
proof (induction rows arbitrary: g)
  case Nil
  then show ?case by simp
next
  case (Cons r rows)
  let ?g = "g[get_shard_idx rv r := g ! get_shard_idx rv r @ [r]]"
  have "\<forall>r. get_shard_idx rv r < length ?g" "j < length ?g"
    using Cons.prems by simp_all
  note IH = Cons.IH [OF this]
  have "?g ! j = (if j = get_shard_idx rv r then g ! j @ [r] else g ! j)"
    using Cons.prems by simp
  with IH show ?case by auto
qed

lemma group_by_shard:
  assumes "rv_inv rv"
  shows "length (group_by_shard rv rows) = num_shards rv"
    and "j < num_shards rv \<Longrightarrow> group_by_shard rv rows ! j = filter (\<lambda>r. get_shard_idx rv r = j) rows"
proof -
  have idx: "\<forall>r. get_shard_idx rv r < length (replicate (num_shards rv) ([] :: u64 list))"
    using get_shard_idx_less [OF assms] rv_invD [OF assms] by simp
  show "length (group_by_shard rv rows) = num_shards rv"
    using group_by_shard_aux [OF idx, of 0 rows] rv_invD [OF assms] by (simp add: group_by_shard_def)
  show "group_by_shard rv rows ! j = filter (\<lambda>r. get_shard_idx rv r = j) rows" if "j < num_shards rv"
    using group_by_shard_aux [OF idx, of j rows] that by (simp add: group_by_shard_def)
qed

lemma fold_groups_aux:
  "distinct (map fst ps) \<Longrightarrow> (\<forall>p \<in> set ps. fst p < length (shards rv)) \<Longrightarrow> j < length (shards rv) \<Longrightarrow>
   (let rv' = fold (\<lambda>(i, ids) rv. if ids = [] then rv else upd_shard i (fold f ids) rv) ps rv
    in num_shards rv' = num_shards rv \<and> dirty_flag rv' = dirty_flag rv
       \<and> length (shards rv') = length (shards rv)
       \<and> shards rv' ! j = (case map_of ps j of None \<Rightarrow> shards rv ! j
                           | Some ids \<Rightarrow> fold f ids (shards rv ! j)))"
proof (induction ps arbitrary: rv)
  case Nil
  then show ?case by simp
next
  case (Cons p ps)
  obtain i ids where p: "p = (i, ids)" by (cases p)
  let ?rv = "if ids = [] then rv else upd_shard i (fold f ids) rv"
  have len: "length (shards ?rv) = length (shards rv)" and i: "i < length (shards rv)"
    using Cons.prems p by (auto simp: upd_shard_def)
  have "distinct (map fst ps)" "\<forall>p \<in> set ps. fst p < length (shards ?rv)" "j < length (shards ?rv)"
    using Cons.prems p len by (auto simp: upd_shard_def)
  note IH = Cons.IH [OF this]
  have nth: "shards ?rv ! j = (if j = i then fold f ids (shards rv ! j) else shards rv ! j)"
    using i by (auto simp: nth_shards_upd_shard)
  have "map_of ps i = None" using Cons.prems p by (auto simp: map_of_eq_None_iff)
  with IH nth show ?case
    by (auto simp: p Let_def upd_shard_def split: option.splits)
qed

lemma for_groups_shards:
  assumes inv: "rv_inv rv" and j: "j < length (shards rv)"
  shows "num_shards (for_groups f (group_by_shard rv rows) rv) = num_shards rv"
    and "dirty_flag (for_groups f (group_by_shard rv rows) rv) = dirty_flag rv"
    and "length (shards (for_groups f (group_by_shard rv rows) rv)) = length (shards rv)"
    and "shards (for_groups f (group_by_shard rv rows) rv) ! j
           = fold f (filter (\<lambda>r. get_shard_idx rv r = j) rows) (shards rv ! j)"
proof -
  let ?gs = "group_by_shard rv rows"
  let ?ps = "zip [0..<length ?gs] ?gs"
  have n: "length ?gs = length (shards rv)" using group_by_shard(1) [OF inv] rv_invD [OF inv] by simp
  have ps: "distinct (map fst ?ps)" "\<forall>p \<in> set ?ps. fst p < length (shards rv)"
    using n by (auto dest: set_zip_leftD)
  have jm: "(j, ?gs ! j) \<in> set ?ps" using j n by (auto simp: set_zip intro!: exI [of _ j])
  then have "map_of ?ps j = Some (filter (\<lambda>r. get_shard_idx rv r = j) rows)"
    using map_of_is_SomeI [OF ps(1) jm] group_by_shard(2) [OF inv, of j rows] j rv_invD [OF inv]
    by simp
  with fold_groups_aux [OF ps j, of f]
  show "num_shards (for_groups f ?gs rv) = num_shards rv"
    "dirty_flag (for_groups f ?gs rv) = dirty_flag rv"
    "length (shards (for_groups f ?gs rv)) = length (shards rv)"
    "shards (for_groups f ?gs rv) ! j = fold f (filter (\<lambda>r. get_shard_idx rv r = j) rows) (shards rv ! j)"
    by (simp_all add: for_groups_def Let_def)
qed

text \<open>Grouping by shard does not change what a batch does: it is the row-by-row loop.\<close>

lemma for_groups_eq_for_rows:
  assumes inv: "rv_inv rv"
  shows "for_groups f (group_by_shard rv rows) rv = for_rows f rows rv"
proof -
  have idx: "\<forall>r. get_shard_idx rv r < length (shards rv)" using get_shard_idx_less [OF inv] by blast
  have pos: "0 < length (shards rv)" using rv_invD [OF inv] by simp
  note R = for_rows_shards [OF idx, of _ f rows] and G = for_groups_shards [OF inv, of _ f rows]
  have "shards (for_groups f (group_by_shard rv rows) rv) = shards (for_rows f rows rv)"
    by (rule nth_equalityI) (use R [OF pos] R G(3) [OF pos] G(4) in auto)
  with R [OF pos] G(1,2) [OF pos] show ?thesis by (intro row_version.equality) simp_all
qed

section \<open>Effect of the operations on the table-wide view\<close>

lemma rv_inv_new: "rv_inv new_row_version"
  by (simp add: rv_inv_def new_row_version_def)

lemma view_new [simp]: "writer new_row_version r = None" "history new_row_version r = None"
  using get_shard_idx_less [OF rv_inv_new, of r]
  by (simp_all add: writer_def history_def new_row_version_def empty_shard_def)

lemma rv_inv_upd_shard [simp]: "rv_inv (upd_shard i f rv) = rv_inv rv"
  by (simp add: rv_inv_def upd_shard_def)

lemma rv_inv_dirty [simp]: "rv_inv (rv\<lparr>dirty_flag := b\<rparr>) = rv_inv rv"
  by (simp add: rv_inv_def)

lemma view_dirty [simp]:
  "writer (rv\<lparr>dirty_flag := b\<rparr>) = writer rv" "history (rv\<lparr>dirty_flag := b\<rparr>) = history rv"
  by (simp_all add: writer_def history_def fun_eq_iff)

lemma view_upd_shard:
  assumes "rv_inv rv"
  shows "writer (upd_shard (get_shard_idx rv r) f rv) r' =
           (if get_shard_idx rv r = get_shard_idx rv r' then versions (f (shard_of rv r')) r' else writer rv r')"
    and "history (upd_shard (get_shard_idx rv r) f rv) r' =
           (if get_shard_idx rv r = get_shard_idx rv r' then committed (f (shard_of rv r')) r' else history rv r')"
  using get_shard_idx_less [OF assms] by (simp_all add: writer_def history_def nth_shards_upd_shard)

lemmas shard_view = writer_def [symmetric] history_def [symmetric]

lemma commit_row_view:
  assumes "rv_inv rv"
  shows "rv_inv (commit_row rv r ts)"
    and "writer (commit_row rv r ts) = (writer rv)(r := None)"
    and "history (commit_row rv r ts) = (history rv)(r \<mapsto> merge_commit ts (history rv r))"
  using assms
  by (auto simp: commit_row_def fun_eq_iff view_upd_shard commit_shard_row_def shard_view)

lemma rollback_row_view:
  assumes "rv_inv rv"
  shows "rv_inv (rollback_row rv r)"
    and "writer (rollback_row rv r) = (writer rv)(r := None)"
    and "history (rollback_row rv r) = history rv"
  using assms
  by (auto simp: rollback_row_def fun_eq_iff view_upd_shard rollback_shard_row_def shard_view)

lemma mark_row_unfold:
  "mark_row rv r t ts =
     (case writer rv r of
        Some u \<Rightarrow> if u \<noteq> t then Inl (ActiveConflict r u)
          else (case history rv r of
                  Some e \<Rightarrow> if ts < last_ts e then Inl (CommittedConflict r (last_ts e))
                    else Inr ((upd_shard (get_shard_idx rv r)
                           (\<lambda>sh. sh\<lparr>versions := (versions sh)(r \<mapsto> t)\<rparr>) rv)\<lparr>dirty_flag := True\<rparr>)
                | None \<Rightarrow> Inr ((upd_shard (get_shard_idx rv r)
                           (\<lambda>sh. sh\<lparr>versions := (versions sh)(r \<mapsto> t)\<rparr>) rv)\<lparr>dirty_flag := True\<rparr>))
      | None \<Rightarrow> (case history rv r of
                  Some e \<Rightarrow> if ts < last_ts e then Inl (CommittedConflict r (last_ts e))
                    else Inr ((upd_shard (get_shard_idx rv r)
                           (\<lambda>sh. sh\<lparr>versions := (versions sh)(r \<mapsto> t)\<rparr>) rv)\<lparr>dirty_flag := True\<rparr>)
                | None \<Rightarrow> Inr ((upd_shard (get_shard_idx rv r)
                           (\<lambda>sh. sh\<lparr>versions := (versions sh)(r \<mapsto> t)\<rparr>) rv)\<lparr>dirty_flag := True\<rparr>)))"
  unfolding mark_row_def Let_def shard_view by (rule refl)

lemma mark_row_view:
  assumes "rv_inv rv" and "mark_row rv r t ts = Inr rv'"
  shows "rv_inv rv'" and "writer rv' = (writer rv)(r \<mapsto> t)" and "history rv' = history rv"
    and "writer rv r \<in> {None, Some t}" and "history rv r = Some e \<Longrightarrow> last_ts e \<le> ts"
proof -
  have rv': "rv' = (upd_shard (get_shard_idx rv r)
      (\<lambda>sh. sh\<lparr>versions := (versions sh)(r \<mapsto> t)\<rparr>) rv)\<lparr>dirty_flag := True\<rparr>"
    using assms(2) by (auto simp: mark_row_unfold split: option.splits if_splits)
  show "rv_inv rv'" using assms(1) by (simp add: rv')
  show "writer rv' = (writer rv)(r \<mapsto> t)" "history rv' = history rv"
    using assms(1) by (auto simp: rv' fun_eq_iff view_upd_shard shard_view)
  show "writer rv r \<in> {None, Some t}" "history rv r = Some e \<Longrightarrow> last_ts e \<le> ts"
    using assms(2) by (auto simp: mark_row_unfold split: option.splits if_splits)
qed

lemma vacuum_view:
  assumes "rv_inv rv"
  shows "rv_inv (snd (vacuum rv m))"
    and "writer (snd (vacuum rv m)) = writer rv"
    and "history (snd (vacuum rv m)) r = Option.bind (history rv r) (vacuum_entry m)"
  using assms get_shard_idx_less [OF assms]
  by (auto simp: vacuum_def rv_inv_def Let_def writer_def history_def vacuum_shard_def fun_eq_iff
      split: option.splits)

text \<open>The batch operations in terms of the single-row ones.\<close>

lemma commit_row_batch_fold:
  "rv_inv rv \<Longrightarrow> commit_row_batch rv a b ts = fold (\<lambda>r rv. commit_row rv r ts) (row_range a b) rv"
  by (simp add: commit_row_batch_def for_groups_eq_for_rows commit_row_def)

lemma rollback_row_batch_fold:
  "rv_inv rv \<Longrightarrow> rollback_row_batch rv a b = fold (\<lambda>r rv. rollback_row rv r) (row_range a b) rv"
  by (simp add: rollback_row_batch_def for_groups_eq_for_rows rollback_row_def)

lemma for_rows_mark_view:
  "rv_inv rv \<Longrightarrow>
   rv_inv (for_rows (mark_shard_row t) rows rv)
   \<and> writer (for_rows (mark_shard_row t) rows rv) = (\<lambda>r. if r \<in> set rows then Some t else writer rv r)
   \<and> history (for_rows (mark_shard_row t) rows rv) = history rv"
proof (induction rows arbitrary: rv)
  case Nil
  then show ?case by simp
next
  case (Cons r rows)
  let ?rv = "upd_shard (get_shard_idx rv r) (mark_shard_row t r) rv"
  have "writer ?rv = (writer rv)(r \<mapsto> t)" "history ?rv = history rv"
    using Cons.prems by (auto simp: fun_eq_iff view_upd_shard mark_shard_row_def shard_view)
  then show ?case using Cons.IH [of ?rv] Cons.prems by auto
qed

lemma mark_row_batch_view:
  assumes "rv_inv rv"
  shows "rv_inv (mark_row_batch rv a b t)"
    and "writer (mark_row_batch rv a b t) r = (if r \<in> set (row_range a b) then Some t else writer rv r)"
    and "history (mark_row_batch rv a b t) = history rv"
  using for_rows_mark_view [OF assms, of t "row_range a b"]
  by (auto simp: mark_row_batch_def for_groups_eq_for_rows [OF assms] Let_def)

lemma set_row_range: "set (row_range a b) = {r. a \<le> r \<and> r < b}"
proof
  show "set (row_range a b) \<subseteq> {r. a \<le> r \<and> r < b}"
  proof
    fix r assume "r \<in> set (row_range a b)"
    then obtain n where n: "unat a \<le> n" "n < unat b" "r = of_nat n" by (auto simp: row_range_def)
    moreover have "unat b < 2 ^ 64" using unsigned_less [of b] by simp
    ultimately have "n < 2 ^ 64" by simp
    then have "unat r = n" using n by (simp add: unat_of_nat)
    with n show "r \<in> {r. a \<le> r \<and> r < b}" by (simp add: word_le_nat_alt word_less_nat_alt)
  qed
  show "{r. a \<le> r \<and> r < b} \<subseteq> set (row_range a b)"
  proof
    fix r assume "r \<in> {r. a \<le> r \<and> r < b}"
    then have "of_nat (unat r) \<in> set (row_range a b)"
      unfolding row_range_def set_map
      by (intro imageI) (simp add: word_le_nat_alt word_less_nat_alt)
    then show "r \<in> set (row_range a b)" by simp
  qed
qed

lemma fold_commit_row_view:
  "rv_inv rv \<Longrightarrow> distinct rows \<Longrightarrow>
   rv_inv (fold (\<lambda>r rv. commit_row rv r ts) rows rv)
   \<and> writer (fold (\<lambda>r rv. commit_row rv r ts) rows rv) = (\<lambda>r. if r \<in> set rows then None else writer rv r)
   \<and> history (fold (\<lambda>r rv. commit_row rv r ts) rows rv)
       = (\<lambda>r. if r \<in> set rows then Some (merge_commit ts (history rv r)) else history rv r)"
proof (induction rows arbitrary: rv)
  case Nil
  then show ?case by simp
next
  case (Cons r rows)
  then show ?case using Cons.IH [of "commit_row rv r ts"] by (auto simp: commit_row_view fun_eq_iff)
qed

lemma fold_rollback_row_view:
  "rv_inv rv \<Longrightarrow>
   rv_inv (fold (\<lambda>r rv. rollback_row rv r) rows rv)
   \<and> writer (fold (\<lambda>r rv. rollback_row rv r) rows rv) = (\<lambda>r. if r \<in> set rows then None else writer rv r)
   \<and> history (fold (\<lambda>r rv. rollback_row rv r) rows rv) = history rv"
proof (induction rows arbitrary: rv)
  case Nil
  then show ?case by simp
next
  case (Cons r rows)
  then show ?case using Cons.IH [of "rollback_row rv r"] by (auto simp: rollback_row_view fun_eq_iff)
qed

lemma is_visible_view:
  "is_visible rv r t ts \<longleftrightarrow>
     (case writer rv r of
        Some u \<Rightarrow> u = t \<or> (case history rv r of None \<Rightarrow> False | Some e \<Rightarrow> first_ts e \<le> ts)
      | None \<Rightarrow> (case history rv r of None \<Rightarrow> True | Some e \<Rightarrow> first_ts e \<le> ts))"
  by (auto simp: is_visible_def writer_def history_def Let_def split: option.splits)

section \<open>The visibility mask\<close>

lemma length_fold_list_update [simp]: "length (fold (\<lambda>(i, v) m. m[i := v]) us m) = length m"
  by (induction us arbitrary: m) auto

lemma nth_fold_list_update:
  assumes "\<forall>(i, v) \<in> set us. v = P i" and "k < length m"
  shows "fold (\<lambda>(i, v) m. m[i := v]) us m ! k = (if k \<in> fst ` set us then P k else m ! k)"
  using assms
proof (induction us arbitrary: m)
  case Nil
  then show ?case by simp
next
  case (Cons u us)
  obtain i v where u: "u = (i, v)" by (cases u)
  then show ?case using Cons.IH [of "m[i := v]"] Cons.prems by (auto simp: nth_list_update)
qed

lemma mask_groups_aux:
  "(\<forall>r. get_shard_idx rv r < length g) \<Longrightarrow> j < length g \<Longrightarrow>
   length (fold (\<lambda>(i, r) g. g[get_shard_idx rv r := g ! get_shard_idx rv r @ [(i, r)]]) ps g) = length g \<and>
   fold (\<lambda>(i, r) g. g[get_shard_idx rv r := g ! get_shard_idx rv r @ [(i, r)]]) ps g ! j
     = g ! j @ filter (\<lambda>(i, r). get_shard_idx rv r = j) ps"
proof (induction ps arbitrary: g)
  case Nil
  then show ?case by simp
next
  case (Cons p ps)
  obtain i r where p: "p = (i, r)" by (cases p)
  let ?g = "g[get_shard_idx rv r := g ! get_shard_idx rv r @ [(i, r)]]"
  have "\<forall>r. get_shard_idx rv r < length ?g" "j < length ?g"
    using Cons.prems by simp_all
  note IH = Cons.IH [OF this]
  have "?g ! j = (if j = get_shard_idx rv r then g ! j @ [(i, r)] else g ! j)"
    using Cons.prems by simp
  with IH show ?case by (auto simp: p)
qed

lemma mask_groups_eq:
  assumes "rv_inv rv"
  shows "mask_groups rv ids = map (\<lambda>j. filter (\<lambda>(i, r). get_shard_idx rv r = j) (zip [0..<length ids] ids))
           [0..<num_shards rv]"
proof -
  have idx: "\<forall>r. get_shard_idx rv r < length (replicate (num_shards rv) ([] :: (nat \<times> u64) list))"
    using get_shard_idx_less [OF assms] rv_invD [OF assms] by simp
  have "0 < num_shards rv" using rv_invD [OF assms] by simp
  then show ?thesis
    using mask_groups_aux [OF idx, of _ "zip [0..<length ids] ids"]
    by (intro nth_equalityI) (simp_all add: mask_groups_def)
qed

lemma mask_entry_is_visible: "mask_entry (shard_of rv r) r t ts = is_visible rv r t ts"
  by (auto simp: mask_entry_def is_visible_def Let_def split: option.splits)

definition mask_updates :: "row_version \<Rightarrow> u64 list \<Rightarrow> u64 \<Rightarrow> u64 \<Rightarrow> (nat \<times> bool) list" where
  "mask_updates rv ids t ts =
     concat (map (\<lambda>(s, grp). map (\<lambda>(i, r). (i, mask_entry (shards rv ! s) r t ts)) grp)
       (zip [0..<num_shards rv] (mask_groups rv ids)))"

lemma get_visibility_mask_flat:
  "get_visibility_mask rv ids t ts msk =
   fold (\<lambda>(i, v) m. m[i := v]) (mask_updates rv ids t ts) (resize_with True (length ids) msk)"
proof -
  have "fold (\<lambda>(s, grp) msk. fold (\<lambda>(i, r) msk. msk[i := mask_entry (shards rv ! s) r t ts]) grp msk) gs m
      = fold (\<lambda>(i, v) m. m[i := v])
          (concat (map (\<lambda>(s, grp). map (\<lambda>(i, r). (i, mask_entry (shards rv ! s) r t ts)) grp) gs)) m"
    for gs m
    by (induction gs arbitrary: m) (auto simp: fold_map comp_def case_prod_unfold)
  then show ?thesis by (simp add: get_visibility_mask_def mask_updates_def)
qed

lemma set_enumerate_zip: "set (zip [0..<length xs] xs) = (\<lambda>i. (i, xs ! i)) ` {..<length xs}"
proof -
  have "zip [0..<length xs] xs = map (\<lambda>i. (i, xs ! i)) [0..<length xs]"
    by (rule nth_equalityI) simp_all
  then show ?thesis by (simp add: lessThan_atLeast0)
qed

lemma set_mask_updates:
  assumes "rv_inv rv"
  shows "set (mask_updates rv ids t ts) = (\<lambda>i. (i, is_visible rv (ids ! i) t ts)) ` {..<length ids}"
proof -
  let ?ps = "zip [0..<length ids] ids"
  let ?entry = "\<lambda>j p. (fst p, mask_entry (shards rv ! j) (snd p) t ts)"
  have idx: "get_shard_idx rv r < num_shards rv" for r
    using get_shard_idx_less [OF assms] rv_invD [OF assms] by simp
  have "zip [0..<num_shards rv] (mask_groups rv ids)
      = map (\<lambda>j. (j, filter (\<lambda>(i, r). get_shard_idx rv r = j) ?ps)) [0..<num_shards rv]"
    by (simp add: mask_groups_eq [OF assms] zip_map2 zip_same_conv_map)
  then have "set (mask_updates rv ids t ts)
      = (\<Union>j < num_shards rv. ?entry j ` {p \<in> set ?ps. get_shard_idx rv (snd p) = j})"
    by (simp add: mask_updates_def lessThan_atLeast0 case_prod_beta)
  also have "\<dots> = (\<Union>p \<in> set ?ps. {?entry (get_shard_idx rv (snd p)) p})"
    using idx by auto
  also have "\<dots> = (\<lambda>i. (i, is_visible rv (ids ! i) t ts)) ` {..<length ids}"
    unfolding set_enumerate_zip mask_entry_is_visible by (simp add: UNION_singleton_eq_range image_image)
  finally show ?thesis .
qed

text \<open>
  C13 [visibility_mask_correct]. \<open>get_visibility_mask\<close>, which visits the rows shard by shard, fills the
  mask with exactly what \<open>is_visible\<close> answers row by row, whatever the mask held before the call.
\<close>

theorem visibility_mask_correct:
  assumes "rv_inv rv"
  shows "get_visibility_mask rv ids t ts msk = map (\<lambda>r. is_visible rv r t ts) ids"
proof -
  have len: "length (resize_with True (length ids) msk) = length ids" by (simp add: resize_with_def)
  have "\<forall>(i, v) \<in> set (mask_updates rv ids t ts). v = is_visible rv (ids ! i) t ts"
    by (auto simp: set_mask_updates [OF assms])
  note upd = nth_fold_list_update [OF this]
  have dom: "k \<in> fst ` set (mask_updates rv ids t ts)" if "k < length ids" for k
    using that by (force simp: set_mask_updates [OF assms])
  show ?thesis
    unfolding get_visibility_mask_flat by (rule nth_equalityI) (simp_all add: len upd dom)
qed

text \<open>A two-row mask over a row being written by another transaction, starting from a stale mask.\<close>

theorem visibility_mask_correct_witness:
  "get_visibility_mask (mark_row_batch new_row_version 3 4 9) [3, 5] 8 1 [False]
     = map (\<lambda>r. is_visible (mark_row_batch new_row_version 3 4 9) r 8 1) [3, 5]
   \<and> \<not> is_visible (mark_row_batch new_row_version 3 4 9) 3 8 1"
proof -
  have inv: "rv_inv (mark_row_batch new_row_version 3 4 9)"
    by (rule mark_row_batch_view(1) [OF rv_inv_new])
  then show ?thesis
    using visibility_mask_correct [OF inv, of "[3, 5]" 8 1 "[False]"]
    by (simp add: is_visible_view mark_row_batch_view [OF rv_inv_new] set_row_range)
qed

section \<open>The contract of the store\<close>

text \<open>
  What a transaction may rely on, row by row: \<open>conflict_of\<close> is the write-write conflict rule and
  \<open>row_visible\<close> the snapshot rule, over the uncommitted writer and the commit history of the row.
\<close>

definition conflict_of ::
  "u64 option \<Rightarrow> committed_version option \<Rightarrow> u64 \<Rightarrow> u64 \<Rightarrow> u64 \<Rightarrow> write_conflict option" where
  "conflict_of w h r t ts =
     (if w \<noteq> None \<and> w \<noteq> Some t then Some (ActiveConflict r (the w))
      else (case h of
              Some e \<Rightarrow> if ts < last_ts e then Some (CommittedConflict r (last_ts e)) else None
            | None \<Rightarrow> None))"

definition row_visible :: "u64 option \<Rightarrow> committed_version option \<Rightarrow> u64 \<Rightarrow> u64 \<Rightarrow> bool" where
  "row_visible w h t ts \<longleftrightarrow>
     w = Some t \<or> (case h of Some e \<Rightarrow> first_ts e \<le> ts | None \<Rightarrow> w = None)"

locale row_versioning =
  fixes inv :: "'s \<Rightarrow> bool"
    and writer_of :: "'s \<Rightarrow> u64 \<Rightarrow> u64 option"
    and history_of :: "'s \<Rightarrow> u64 \<Rightarrow> committed_version option"
    and mark :: "'s \<Rightarrow> u64 \<Rightarrow> u64 \<Rightarrow> u64 \<Rightarrow> write_conflict + 's"
    and commit :: "'s \<Rightarrow> u64 \<Rightarrow> u64 \<Rightarrow> 's"
    and rollback :: "'s \<Rightarrow> u64 \<Rightarrow> 's"
    and visible :: "'s \<Rightarrow> u64 \<Rightarrow> u64 \<Rightarrow> u64 \<Rightarrow> bool"
    and vac :: "'s \<Rightarrow> u64 \<Rightarrow> 's"
  assumes inv_history: "inv s \<Longrightarrow> history_of s r = Some e \<Longrightarrow> first_ts e \<le> last_ts e"
    and mark_conflict: "inv s \<Longrightarrow>
      mark s r t ts = Inl c \<longleftrightarrow> conflict_of (writer_of s r) (history_of s r) r t ts = Some c"
    and mark_ok: "inv s \<Longrightarrow> mark s r t ts = Inr s' \<Longrightarrow>
      inv s' \<and> writer_of s' = (writer_of s)(r \<mapsto> t) \<and> history_of s' = history_of s"
    and commit_ok: "inv s \<Longrightarrow>
      inv (commit s r ts) \<and> writer_of (commit s r ts) = (writer_of s)(r := None)
      \<and> history_of (commit s r ts) = (history_of s)(r \<mapsto> merge_commit ts (history_of s r))"
    and rollback_ok: "inv s \<Longrightarrow>
      inv (rollback s r) \<and> writer_of (rollback s r) = (writer_of s)(r := None)
      \<and> history_of (rollback s r) = history_of s"
    and visible_iff: "inv s \<Longrightarrow> visible s r t ts \<longleftrightarrow> row_visible (writer_of s r) (history_of s r) t ts"
    and vac_ok: "inv s \<Longrightarrow>
      inv (vac s m) \<and> writer_of (vac s m) = writer_of s
      \<and> (\<forall>r. history_of (vac s m) r = Option.bind (history_of s r) (vacuum_entry m))"
begin

lemma mark_Inr_iff:
  assumes "inv s"
  shows "(\<exists>s'. mark s r t ts = Inr s') \<longleftrightarrow> conflict_of (writer_of s r) (history_of s r) r t ts = None"
proof (cases "mark s r t ts")
  case (Inl c)
  then have "conflict_of (writer_of s r) (history_of s r) r t ts = Some c"
    using mark_conflict [OF assms] by blast
  with Inl show ?thesis by simp
next
  case (Inr s')
  then have "conflict_of (writer_of s r) (history_of s r) r t ts \<noteq> Some c" for c
    using mark_conflict [OF assms, of r t ts c] by simp
  with Inr show ?thesis by auto
qed

lemma mark_InrD:
  assumes "inv s" and "mark s r t ts = Inr s'"
  shows "writer_of s r \<in> {None, Some t}" and "history_of s r = Some e \<Longrightarrow> last_ts e \<le> ts"
proof -
  have "conflict_of (writer_of s r) (history_of s r) r t ts = None"
    using assms mark_Inr_iff by blast
  then show "writer_of s r \<in> {None, Some t}" "history_of s r = Some e \<Longrightarrow> last_ts e \<le> ts"
    by (auto simp: conflict_of_def split: if_splits option.splits)
qed

text \<open>A row claimed by a transaction is refused to every other one until it commits or rolls back.\<close>

lemma write_lock_exclusive:
  assumes "inv s" "mark s r t ts = Inr s'" "u \<noteq> t"
  shows "mark s' r u ts' = Inl (ActiveConflict r t)"
  using mark_ok [OF assms(1,2)] assms(3) by (auto simp: mark_conflict conflict_of_def)

text \<open>After a commit at \<open>cts\<close>, a transaction with an older snapshot can no longer write the row.\<close>

lemma first_committer_wins:
  assumes "inv s" "ts < cts"
  shows "mark (commit s r cts) r u ts = Inl (CommittedConflict r (last_ts (merge_commit cts (history_of s r))))"
  using commit_ok [OF assms(1), of r cts] assms(2)
  by (auto simp: mark_conflict conflict_of_def merge_commit_def Let_def max_def)

lemma abort_restores:
  assumes "inv s" "writer_of s r = None" "mark s r t ts = Inr s'"
  shows "visible (rollback s' r) = visible s"
    and "mark (rollback s' r) r' u ts' = Inl c \<longleftrightarrow> mark s r' u ts' = Inl c"
proof -
  note m = mark_ok [OF assms(1,3)]
  then have rb: "inv (rollback s' r)" "writer_of (rollback s' r) = writer_of s"
    "history_of (rollback s' r) = history_of s"
    using rollback_ok [of s' r] assms(2) by (auto simp: fun_eq_iff)
  then show "visible (rollback s' r) = visible s"
    "mark (rollback s' r) r' u ts' = Inl c \<longleftrightarrow> mark s r' u ts' = Inl c"
    using assms(1) by (auto simp: fun_eq_iff visible_iff mark_conflict)
qed

text \<open>
  Vacuum at \<open>m\<close> changes no verdict for a snapshot at or after \<open>m\<close>, as long as no other transaction
  is writing the row.
\<close>

lemma vacuum_keeps_visibility:
  assumes "inv s" "m \<le> ts" "writer_of s r \<in> {None, Some t}"
  shows "visible (vac s m) r t ts = visible s r t ts"
proof -
  have "first_ts e \<le> last_ts e" if "history_of s r = Some e" for e
    using inv_history [OF assms(1) that] .
  then show ?thesis
    using vac_ok [OF assms(1), of m] assms(1-3)
    by (cases "history_of s r") (auto simp: visible_iff row_visible_def vacuum_entry_def)
qed

lemma vacuum_keeps_conflicts:
  assumes "inv s" "m \<le> ts"
  shows "mark (vac s m) r t ts = Inl c \<longleftrightarrow> mark s r t ts = Inl c"
  using vac_ok [OF assms(1), of m] assms
  by (cases "history_of s r") (auto simp: mark_conflict conflict_of_def vacuum_entry_def)

end

definition table_ok :: "row_version \<Rightarrow> bool" where
  "table_ok rv \<longleftrightarrow> rv_inv rv \<and> (\<forall>r e. history rv r = Some e \<longrightarrow> first_ts e \<le> last_ts e)"

lemma table_ok_new: "table_ok new_row_version"
  by (simp add: table_ok_def rv_inv_new)

lemma merge_commit_ordered: "first_ts (merge_commit ts e) \<le> last_ts (merge_commit ts e)"
  by (simp add: merge_commit_def Let_def min.coboundedI2 max.coboundedI2)

interpretation tbl: row_versioning table_ok writer history mark_row commit_row rollback_row is_visible
  "\<lambda>rv m. snd (vacuum rv m)"
proof
  fix s s' r e t ts c m
  assume ok: "table_ok s"
  then have inv: "rv_inv s" by (simp add: table_ok_def)
  show "history s r = Some e \<Longrightarrow> first_ts e \<le> last_ts e" using ok by (simp add: table_ok_def)
  show "mark_row s r t ts = Inl c \<longleftrightarrow> conflict_of (writer s r) (history s r) r t ts = Some c"
    by (auto simp: mark_row_unfold conflict_of_def split: option.splits)
  show "table_ok s' \<and> writer s' = (writer s)(r \<mapsto> t) \<and> history s' = history s"
    if "mark_row s r t ts = Inr s'"
    using mark_row_view [OF inv that] ok by (auto simp: table_ok_def)
  show "table_ok (commit_row s r ts) \<and> writer (commit_row s r ts) = (writer s)(r := None)
      \<and> history (commit_row s r ts) = (history s)(r \<mapsto> merge_commit ts (history s r))"
    using commit_row_view [OF inv, of r ts] ok merge_commit_ordered by (auto simp: table_ok_def)
  show "table_ok (rollback_row s r) \<and> writer (rollback_row s r) = (writer s)(r := None)
      \<and> history (rollback_row s r) = history s"
    using rollback_row_view [OF inv, of r] ok by (auto simp: table_ok_def)
  show "is_visible s r t ts \<longleftrightarrow> row_visible (writer s r) (history s r) t ts"
    by (auto simp: is_visible_view row_visible_def split: option.splits)
  show "table_ok (snd (vacuum s m)) \<and> writer (snd (vacuum s m)) = writer s
      \<and> (\<forall>r. history (snd (vacuum s m)) r = Option.bind (history s r) (vacuum_entry m))"
    using vacuum_view [OF inv, of m] ok
    by (auto simp: table_ok_def vacuum_entry_def bind_eq_Some_conv split: if_splits)
qed

section \<open>Properties\<close>

text \<open>
  A table with one row committed at time 1, for the witnesses.
\<close>

definition rv_example :: row_version where
  "rv_example = commit_row new_row_version 7 1"

lemma rv_example:
  "table_ok rv_example" "writer rv_example r = None"
  "history rv_example r = (if r = 7 then Some \<lparr>first_ts = 1, last_ts = 1\<rparr> else None)"
  using tbl.commit_ok [OF table_ok_new, of 7 1]
  by (simp_all add: rv_example_def merge_commit_def)

text \<open>
  C2 [mark_row_no_lost_update]. Write-write conflicts on a row: once \<open>mark_row\<close> accepted a transaction,
  every other transaction is refused while the write is uncommitted; after the commit at \<open>cts\<close> every
  transaction whose snapshot is older than \<open>cts\<close> is refused, the same transaction id included.
\<close>

theorem mark_row_no_lost_update:
  assumes "table_ok rv" "mark_row rv r t ts = Inr rv'" "u \<noteq> t" "ts' < cts"
  shows "mark_row rv' r u ts' = Inl (ActiveConflict r t)
    \<and> (\<exists>l \<ge> cts. \<forall>v. mark_row (commit_row rv' r cts) r v ts' = Inl (CommittedConflict r l))"
proof -
  have "table_ok rv'" using tbl.mark_ok [OF assms(1,2)] by simp
  note first = tbl.first_committer_wins [OF this assms(4)]
  have "cts \<le> last_ts (merge_commit cts (history rv' r))"
    by (simp add: merge_commit_def Let_def)
  with tbl.write_lock_exclusive [OF assms(1-3)] first show ?thesis by blast
qed

theorem mark_row_no_lost_update_witness:
  "\<exists>rv'. mark_row rv_example 7 2 1 = Inr rv' \<and> mark_row rv' 7 3 1 = Inl (ActiveConflict 7 2)
    \<and> (\<exists>l \<ge> 2. \<forall>v. mark_row (commit_row rv' 7 2) 7 v 1 = Inl (CommittedConflict 7 l))"
proof -
  have "\<exists>rv'. mark_row rv_example 7 2 1 = Inr rv'"
    by (simp add: tbl.mark_Inr_iff rv_example conflict_of_def)
  then obtain rv' where "mark_row rv_example 7 2 1 = Inr rv'" ..
  then show ?thesis
    using mark_row_no_lost_update [OF rv_example(1), of 7 2 1 rv' 3 1 2] by auto
qed

text \<open>
  C12 [rollback_restores]. Rolling back a row a transaction has claimed restores what every transaction
  sees of every row and which writes conflict.
\<close>

theorem rollback_restores:
  assumes "table_ok rv" "writer rv r = None" "mark_row rv r t ts = Inr rv'"
  shows "is_visible (rollback_row rv' r) = is_visible rv
    \<and> (\<forall>r' u ts' c. mark_row (rollback_row rv' r) r' u ts' = Inl c \<longleftrightarrow> mark_row rv r' u ts' = Inl c)"
  using tbl.abort_restores [OF assms] by blast

theorem rollback_restores_witness:
  "\<exists>rv'. mark_row rv_example 7 2 1 = Inr rv' \<and> is_visible (rollback_row rv' 7) = is_visible rv_example"
proof -
  have "\<exists>rv'. mark_row rv_example 7 2 1 = Inr rv'"
    by (simp add: tbl.mark_Inr_iff rv_example conflict_of_def)
  then obtain rv' where "mark_row rv_example 7 2 1 = Inr rv'" ..
  then show ?thesis using rollback_restores [OF rv_example(1,2), of 7 2 1 rv'] by blast
qed

text \<open>
  C10 [vacuum_preserves_snapshots]. Vacuum at \<open>m\<close> is invisible to every snapshot at or after \<open>m\<close>: no
  write-write verdict changes, and no row another transaction is not writing changes its visibility.
\<close>

theorem vacuum_preserves_snapshots:
  assumes "table_ok rv" "m \<le> ts"
  shows "(mark_row (snd (vacuum rv m)) r t ts = Inl c \<longleftrightarrow> mark_row rv r t ts = Inl c)
    \<and> (writer rv r \<in> {None, Some t} \<longrightarrow> is_visible (snd (vacuum rv m)) r t ts = is_visible rv r t ts)"
  using tbl.vacuum_keeps_visibility [OF assms] tbl.vacuum_keeps_conflicts [OF assms] by blast

theorem vacuum_preserves_snapshots_witness:
  "is_visible (snd (vacuum rv_example 2)) 7 5 2 = is_visible rv_example 7 5 2
   \<and> history (snd (vacuum rv_example 2)) 7 = None \<and> history rv_example 7 \<noteq> None"
  using vacuum_preserves_snapshots [OF rv_example(1), of 2 2 7 5] tbl.vac_ok [OF rv_example(1), of 2]
  by (simp add: rv_example vacuum_entry_def)

text \<open>
  C30 [vacuumed_row_vanishes]. The same does not hold once the row is written again. A row committed before
  \<open>m\<close> loses its history in a vacuum at \<open>m\<close>. A later writer \<open>t\<close> then makes it invisible to a reader \<open>u\<close>
  whose snapshot \<open>ts \<ge> m\<close> contains the row, while the write is pending and also after it commits;
  without the vacuum the reader keeps seeing the row throughout.
\<close>

theorem vacuumed_row_vanishes:
  assumes ok: "table_ok rv" and w: "writer rv r = None" and h: "history rv r = Some e"
    and ord: "last_ts e < m" "m \<le> ts" "ts < cts" and u: "u \<noteq> t"
  shows "is_visible rv r u ts
    \<and> (\<exists>rv'. mark_row (snd (vacuum rv m)) r t ts = Inr rv'
         \<and> \<not> is_visible rv' r u ts \<and> \<not> is_visible (commit_row rv' r cts) r u ts)
    \<and> (\<exists>rv'. mark_row rv r t ts = Inr rv'
         \<and> is_visible rv' r u ts \<and> is_visible (commit_row rv' r cts) r u ts)"
proof -
  let ?rv1 = "snd (vacuum rv m)"
  have fl: "first_ts e \<le> last_ts e" using tbl.inv_history [OF ok h] .
  have le: "\<not> ts < last_ts e" using ord by simp
  have ok1: "table_ok ?rv1" "writer ?rv1 r = None" "history ?rv1 r = None"
    using tbl.vac_ok [OF ok, of m] w h ord by (auto simp: vacuum_entry_def)
  obtain rv2 where m2: "mark_row ?rv1 r t ts = Inr rv2"
    using tbl.mark_Inr_iff [OF ok1(1), of r t ts] ok1 by (auto simp: conflict_of_def)
  obtain rv3 where m3: "mark_row rv r t ts = Inr rv3"
    using tbl.mark_Inr_iff [OF ok, of r t ts] w h le by (auto simp: conflict_of_def)
  note v2 = tbl.mark_ok [OF ok1(1) m2] and v3 = tbl.mark_ok [OF ok m3]
  note c2 = tbl.commit_ok [of rv2 r cts] and c3 = tbl.commit_ok [of rv3 r cts]
  have "is_visible rv r u ts" using ok w h fl ord by (simp add: tbl.visible_iff row_visible_def)
  moreover have "\<not> is_visible rv2 r u ts" "\<not> is_visible (commit_row rv2 r cts) r u ts"
    using v2 c2 ok1 ord u by (auto simp: tbl.visible_iff row_visible_def merge_commit_def)
  moreover have "is_visible rv3 r u ts" "is_visible (commit_row rv3 r cts) r u ts"
    using v3 c3 h fl ord by (auto simp: tbl.visible_iff row_visible_def merge_commit_def min_def)
  ultimately show ?thesis using m2 m3 by blast
qed

theorem vacuumed_row_vanishes_witness:
  "is_visible rv_example 7 5 2
    \<and> (\<exists>rv'. mark_row (snd (vacuum rv_example 2)) 7 6 2 = Inr rv'
         \<and> \<not> is_visible rv' 7 5 2 \<and> \<not> is_visible (commit_row rv' 7 3) 7 5 2)"
  using vacuumed_row_vanishes [OF rv_example(1,2), of 7 "\<lparr>first_ts = 1, last_ts = 1\<rparr>" 2 2 3 5 6]
  by (simp add: rv_example)

text \<open>
  C25 [batch_is_row_by_row]. The batch operations, which regroup the rows by shard, do what the row-by-row
  loops over the range do; \<open>commit_row_batch\<close> and \<open>rollback_row_batch\<close> yield the same store, and
  \<open>mark_row_batch\<close> makes \<open>t\<close> the writer of exactly the rows of the range without any conflict check.
\<close>

theorem batch_is_row_by_row:
  assumes "rv_inv rv"
  shows "commit_row_batch rv a b ts = fold (\<lambda>r rv. commit_row rv r ts) (row_range a b) rv
    \<and> rollback_row_batch rv a b = fold (\<lambda>r rv. rollback_row rv r) (row_range a b) rv
    \<and> writer (mark_row_batch rv a b t) = (\<lambda>r. if a \<le> r \<and> r < b then Some t else writer rv r)
         \<and> history (mark_row_batch rv a b t) = history rv"
  using mark_row_batch_view [OF assms]
  by (auto simp: commit_row_batch_fold [OF assms] rollback_row_batch_fold [OF assms] set_row_range)

theorem batch_is_row_by_row_witness:
  "commit_row_batch rv_example 3 6 2 = fold (\<lambda>r rv. commit_row rv r 2) (row_range 3 6) rv_example
   \<and> writer (mark_row_batch rv_example 3 6 9) 4 = Some 9"
proof -
  have "rv_inv rv_example" using rv_example(1) by (simp add: table_ok_def)
  from batch_is_row_by_row [OF this, of 3 6 2 9] show ?thesis by simp
qed

end
