(* ===== verification/Values.thy ===== *)
theory Values
  imports Lightning_Prelude
begin

text \<open>
  The dynamic values of \<open>processor/mod.rs\<close> and their fixed-width byte form. An \<open>f64\<close> is its IEEE bit
  pattern and an \<open>i32\<close> or \<open>i64\<close> its two's complement word; a string is its UTF-8 byte sequence, one
  Isabelle character per byte; a hash map is the list of its entries.
\<close>

type_synonym f64 = "64 word"

datatype val =
    StringV string
  | Number f64
  | Boolean bool
  | NullV
  | Node u64
  | Relationship u64
  | Path "val list"
  | Date u32
  | Timestamp u64
  | ListV "val list"
  | StructV "(string \<times> val) list"
  | MapV "(val \<times> val) list"

definition as_bytes :: "string \<Rightarrow> byte list" where
  "as_bytes s = map of_char s"

fun to_le_bytes :: "val \<Rightarrow> byte list" where
  "to_le_bytes (StringV s) =
     (let s_bytes = as_bytes s; n = min (length s_bytes) 64
      in write_at 0 (take n s_bytes) (replicate 64 0))"
| "to_le_bytes (Number n) = le_bytes 8 n"
| "to_le_bytes (Boolean b) = [if b then 1 else 0]"
| "to_le_bytes NullV = replicate 8 0"
| "to_le_bytes (Node i) = le_bytes 8 i"
| "to_le_bytes (Relationship i) = le_bytes 8 i"
| "to_le_bytes (Date d) = le_bytes 4 d"
| "to_le_bytes (Timestamp t) = le_bytes 8 t"
| "to_le_bytes (Path _) = replicate 8 0"
| "to_le_bytes (ListV _) = replicate 8 0"
| "to_le_bytes (StructV _) = replicate 8 0"
| "to_le_bytes (MapV _) = replicate 8 0"

end
