(* ===== verification/Txn_Manager.thy ===== *)
theory Txn_Manager
  imports Values "HOL-Library.Multiset"
begin

text \<open>
  The transaction manager's own state of \<open>transaction/transaction_manager.rs\<close>: transaction ids, the
  MVCC clock, the set of writers in flight and the reference counts of the open snapshots. Each method
  is one atomic step. The commit and rollback handlers, which also drive the buffer pool, the log and
  the row version store, are in the theories that model those parts.
\<close>

section \<open>State\<close>

record page_row_mod =
  prm_file_id :: u64
  prm_page_idx :: u64
  prm_row_id :: u64
  element_size :: nat
  values_per_page :: u64
  row_data :: "byte list"
  overflow_row_data :: "byte list option"

text \<open>
  A transaction. The handle \<open>Arc<RowVersion>\<close> of a table is a number; the undo buffer and the deferred
  index mutations are not part of this record.
\<close>

record transaction =
  tx_id :: u64
  is_read_only :: bool
  read_ts :: u64
  commit_ts :: u64
  modified_pages :: "(u64 \<times> u64) list"
  modified_rows :: "(nat \<times> u64) list"
  bulk_row_ranges :: "(nat \<times> u64 \<times> u64) list"
  uncommitted_cache :: "string \<times> u64 \<rightharpoonup> val"
  modified_page_rows :: "page_row_mod list"
  rollback_table_bases :: "string \<rightharpoonup> u64 \<times> u64"
  allocated_rows :: "string \<rightharpoonup> u64 list"
  finalized :: bool

record txn_manager =
  next_tx_id :: u64
  current_ts :: u64
  committed_tx_count :: u64
  active_tx_ids :: "u64 set"
  active_read_ts :: "u64 \<rightharpoonup> nat"

section \<open>Operations\<close>

definition note_table_write :: "transaction \<Rightarrow> string \<Rightarrow> u64 \<Rightarrow> u64 \<Rightarrow> transaction" where
  "note_table_write tx table_name next_row_id num_rows =
     (case rollback_table_bases tx table_name of
        Some _ \<Rightarrow> tx
      | None \<Rightarrow> tx\<lparr>rollback_table_bases :=
          (rollback_table_bases tx)(table_name \<mapsto> (next_row_id, num_rows))\<rparr>)"

definition note_allocated :: "transaction \<Rightarrow> string \<Rightarrow> u64 \<Rightarrow> transaction" where
  "note_allocated tx table_name row_id =
     tx\<lparr>allocated_rows := (allocated_rows tx)(table_name \<mapsto>
        (case allocated_rows tx table_name of None \<Rightarrow> [] | Some ids \<Rightarrow> ids) @ [row_id])\<rparr>"

definition get_from_cache :: "transaction \<Rightarrow> string \<Rightarrow> u64 \<Rightarrow> val option" where
  "get_from_cache tx table_name row_id = uncommitted_cache tx (table_name, row_id)"

definition add_to_cache :: "transaction \<Rightarrow> string \<Rightarrow> u64 \<Rightarrow> val \<Rightarrow> transaction" where
  "add_to_cache tx table_name row_id v =
     tx\<lparr>uncommitted_cache := (uncommitted_cache tx)((table_name, row_id) \<mapsto> v)\<rparr>"

definition cache_contains :: "transaction \<Rightarrow> string \<Rightarrow> u64 \<Rightarrow> bool" where
  "cache_contains tx table_name row_id \<longleftrightarrow> uncommitted_cache tx (table_name, row_id) \<noteq> None"

definition new_txn_manager :: txn_manager where
  "new_txn_manager = \<lparr>next_tx_id = 1, current_ts = 1, committed_tx_count = 0,
     active_tx_ids = {}, active_read_ts = Map.empty\<rparr>"

definition has_other_active :: "txn_manager \<Rightarrow> u64 \<Rightarrow> bool" where
  "has_other_active m except_tx_id \<longleftrightarrow>
     (\<exists>i \<in> active_tx_ids m. i \<noteq> except_tx_id)
     \<or> (\<Sum>k \<in> dom (active_read_ts m). the (active_read_ts m k)) > 1"

definition new_transaction :: "u64 \<Rightarrow> bool \<Rightarrow> u64 \<Rightarrow> transaction" where
  "new_transaction t ro rts = \<lparr>tx_id = t, is_read_only = ro, read_ts = rts, commit_ts = 0,
     modified_pages = [], modified_rows = [], bulk_row_ranges = [], uncommitted_cache = Map.empty,
     modified_page_rows = [], rollback_table_bases = Map.empty, allocated_rows = Map.empty,
     finalized = False\<rparr>"

definition begin_at :: "txn_manager \<Rightarrow> bool \<Rightarrow> u64 option \<Rightarrow> (transaction \<times> txn_manager) result" where
  "begin_at m ro snapshot_ts =
     (if next_tx_id m = - 1 then Err (Internal ''transaction ID overflow'')
      else
        (let t = next_tx_id m;
             m = m\<lparr>next_tx_id := t + 1\<rparr>;
             rts = (case snapshot_ts of Some ts \<Rightarrow> ts | None \<Rightarrow> current_ts m);
             m = (if ro then m else m\<lparr>active_tx_ids := insert t (active_tx_ids m)\<rparr>);
             n = (case active_read_ts m rts of Some n \<Rightarrow> n | None \<Rightarrow> 0);
             m = m\<lparr>active_read_ts := (active_read_ts m)(rts \<mapsto> n + 1)\<rparr>
         in Ok (new_transaction t ro rts, m)))"

definition begin_txn :: "txn_manager \<Rightarrow> bool \<Rightarrow> (transaction \<times> txn_manager) result" where
  "begin_txn m ro = begin_at m ro None"

text \<open>The clock advance of \<open>commit\<close>: the commit timestamp is the advanced clock.\<close>

definition next_commit_ts :: "txn_manager \<Rightarrow> (u64 \<times> txn_manager) result" where
  "next_commit_ts m =
     (if current_ts m = - 1 then Err (Internal ''MVCC timestamp overflow'')
      else Ok (current_ts m + 1, m\<lparr>current_ts := current_ts m + 1\<rparr>))"

definition remove_read_ts :: "txn_manager \<Rightarrow> u64 \<Rightarrow> txn_manager" where
  "remove_read_ts m rts =
     (case active_read_ts m rts of
        Some n \<Rightarrow>
          (let n = n - 1
           in m\<lparr>active_read_ts := (active_read_ts m)(rts := (if n = 0 then None else Some n))\<rparr>)
      | None \<Rightarrow> m)"

definition get_min_active_read_ts :: "txn_manager \<Rightarrow> u64" where
  "get_min_active_read_ts m =
     (if dom (active_read_ts m) = {} then current_ts m else Min (dom (active_read_ts m)))"

definition restore_counters :: "txn_manager \<Rightarrow> u64 \<Rightarrow> u64 \<Rightarrow> txn_manager" where
  "restore_counters m n ts =
     m\<lparr>next_tx_id := max (next_tx_id m) (max n 1), current_ts := max (current_ts m) (max ts 1)\<rparr>"

text \<open>The downward search of \<open>resolved_tx_watermark\<close>.\<close>

function watermark_from :: "u64 set \<Rightarrow> u64 \<Rightarrow> u64" where
  "watermark_from active w =
     (if w \<notin> active then w else if w = 0 then 0 else watermark_from active (w - 1))"
  by auto

lemma unat_minus_one_less: "w \<noteq> 0 \<Longrightarrow> unat (w - 1 :: 64 word) < unat w"
  by (simp add: unat_minus_one unat_gt_0)

termination watermark_from
  by (relation "measure (\<lambda>(active, w). unat w)") (simp_all add: unat_minus_one_less)

declare watermark_from.simps [simp del]

definition resolved_tx_watermark :: "txn_manager \<Rightarrow> u64" where
  "resolved_tx_watermark m =
     (if next_tx_id m \<le> 1 then 0 else watermark_from (active_tx_ids m) (next_tx_id m - 1))"

text \<open>
  What leaving the manager does to its state: the end of \<open>commit\<close>, the end of \<open>rollback\<close>, and the part
  of \<open>drop\<close> on the manager, which does nothing for a finalized transaction.
\<close>

definition finish_commit :: "txn_manager \<Rightarrow> transaction \<Rightarrow> transaction \<times> txn_manager" where
  "finish_commit m tx =
     (let m = (if is_read_only tx then m
               else m\<lparr>active_tx_ids := active_tx_ids m - {tx_id tx},
                      committed_tx_count := committed_tx_count m + 1\<rparr>)
      in (tx\<lparr>finalized := True\<rparr>, remove_read_ts m (read_ts tx)))"

definition finish_rollback :: "txn_manager \<Rightarrow> transaction \<Rightarrow> transaction \<times> txn_manager" where
  "finish_rollback m tx =
     (let m = (if is_read_only tx then m
               else m\<lparr>active_tx_ids := active_tx_ids m - {tx_id tx}\<rparr>)
      in (tx\<lparr>finalized := True\<rparr>, remove_read_ts m (read_ts tx)))"

definition drop_transaction :: "txn_manager \<Rightarrow> transaction \<Rightarrow> transaction \<times> txn_manager" where
  "drop_transaction m tx =
     (if finalized tx then (tx, m)
      else
        (let m = remove_read_ts m (read_ts tx)
         in (tx\<lparr>finalized := True\<rparr>,
             if is_read_only tx then m else m\<lparr>active_tx_ids := active_tx_ids m - {tx_id tx}\<rparr>)))"

section \<open>The manager and its open transactions\<close>

text \<open>
  The manager with the transactions that were begun and not yet finalized, and every way it moves: a
  transaction begins (at the current clock or at a requested snapshot), a writer takes a commit
  timestamp, a transaction commits, rolls back or is dropped.
\<close>

record tm_sys =
  mgr :: txn_manager
  open_txs :: "transaction list"

definition tm_init :: tm_sys where
  "tm_init = \<lparr>mgr = new_txn_manager, open_txs = []\<rparr>"

inductive tm_step :: "tm_sys \<Rightarrow> tm_sys \<Rightarrow> bool" where
  tm_begin: "begin_at (mgr s) ro snap = Ok (tx, m) \<Longrightarrow> tm_step s \<lparr>mgr = m, open_txs = tx # open_txs s\<rparr>"
| tm_tick: "next_commit_ts (mgr s) = Ok (ts, m) \<Longrightarrow> tm_step s (s\<lparr>mgr := m\<rparr>)"
| tm_commit: "tx \<in> set (open_txs s) \<Longrightarrow> finish_commit (mgr s) tx = (tx', m) \<Longrightarrow>
    tm_step s \<lparr>mgr = m, open_txs = remove1 tx (open_txs s)\<rparr>"
| tm_rollback: "tx \<in> set (open_txs s) \<Longrightarrow> finish_rollback (mgr s) tx = (tx', m) \<Longrightarrow>
    tm_step s \<lparr>mgr = m, open_txs = remove1 tx (open_txs s)\<rparr>"
| tm_drop: "tx \<in> set (open_txs s) \<Longrightarrow> drop_transaction (mgr s) tx = (tx', m) \<Longrightarrow>
    tm_step s \<lparr>mgr = m, open_txs = remove1 tx (open_txs s)\<rparr>"

inductive tm_reachable :: "tm_sys \<Rightarrow> bool" where
  tm_reach_init: "tm_reachable tm_init"
| tm_reach_step: "tm_reachable s \<Longrightarrow> tm_step s s' \<Longrightarrow> tm_reachable s'"

inductive_cases tm_stepE: "tm_step s s'"

text \<open>The reference counts that a list of open transactions calls for.\<close>

definition counts_of :: "u64 multiset \<Rightarrow> u64 \<rightharpoonup> nat" where
  "counts_of M ts = (if ts \<in># M then Some (count M ts) else None)"

abbreviation snapshot_counts :: "transaction list \<Rightarrow> u64 \<rightharpoonup> nat" where
  "snapshot_counts txs \<equiv> counts_of (image_mset read_ts (mset txs))"

definition tm_inv :: "tm_sys \<Rightarrow> bool" where
  "tm_inv s \<longleftrightarrow>
     active_read_ts (mgr s) = snapshot_counts (open_txs s)
     \<and> active_tx_ids (mgr s) = tx_id ` {t \<in> set (open_txs s). \<not> is_read_only t}
     \<and> distinct (map tx_id (open_txs s))
     \<and> (\<forall>t \<in> set (open_txs s). 0 < tx_id t \<and> tx_id t < next_tx_id (mgr s) \<and> \<not> finalized t)
     \<and> 0 < next_tx_id (mgr s)"

lemma counts_of_add:
  "counts_of (add_mset x M) = (counts_of M)(x \<mapsto> (case counts_of M x of Some n \<Rightarrow> n | None \<Rightarrow> 0) + 1)"
  by (auto simp: counts_of_def fun_eq_iff count_eq_zero_iff)

lemma dom_counts_of [simp]: "dom (counts_of M) = set_mset M"
  by (auto simp: counts_of_def dom_def)

lemma remove_read_ts_counts:
  assumes "active_read_ts m = snapshot_counts txs" and "tx \<in> set txs"
  shows "active_read_ts (remove_read_ts m (read_ts tx)) = snapshot_counts (remove1 tx txs)"
proof -
  have "image_mset read_ts (mset txs) = add_mset (read_ts tx) (image_mset read_ts (mset (remove1 tx txs)))"
    using assms(2) by (simp add: image_mset_Diff)
  moreover have "active_read_ts (remove_read_ts m x) = counts_of M"
    if "active_read_ts m = counts_of (add_mset x M)" for x M
    using that by (auto simp: remove_read_ts_def counts_of_def fun_eq_iff Let_def count_eq_zero_iff)
  ultimately show ?thesis using assms(1) by (simp del: mset_remove1)
qed

lemma active_read_ts_remove_cong:
  "active_read_ts m = active_read_ts m' \<Longrightarrow> active_read_ts (remove_read_ts m ts) = active_read_ts (remove_read_ts m' ts)"
  by (simp add: remove_read_ts_def Let_def split: option.splits)

lemma remove_read_ts_frame [simp]:
  "next_tx_id (remove_read_ts m ts) = next_tx_id m" "current_ts (remove_read_ts m ts) = current_ts m"
  "active_tx_ids (remove_read_ts m ts) = active_tx_ids m"
  by (simp_all add: remove_read_ts_def Let_def split: option.splits)

text \<open>Leaving the manager is the same step on its state, whichever way the transaction ends.\<close>

lemma tm_inv_leave:
  assumes inv: "tm_inv s" and tx: "tx \<in> set (open_txs s)"
    and m: "active_read_ts m = active_read_ts (remove_read_ts (mgr s) (read_ts tx))"
      "active_tx_ids m = (if is_read_only tx then active_tx_ids (mgr s) else active_tx_ids (mgr s) - {tx_id tx})"
      "next_tx_id m = next_tx_id (mgr s)"
  shows "tm_inv \<lparr>mgr = m, open_txs = remove1 tx (open_txs s)\<rparr>"
proof -
  have dist: "distinct (map tx_id (open_txs s))" using inv by (simp add: tm_inv_def)
  then have "distinct (open_txs s)" by (simp add: distinct_map)
  then have set: "set (remove1 tx (open_txs s)) = set (open_txs s) - {tx}" by simp
  have "inj_on tx_id (set (open_txs s))" using dist by (simp add: distinct_map)
  then have ids: "t \<in> set (open_txs s) \<Longrightarrow> tx_id t = tx_id tx \<longleftrightarrow> t = tx" for t
    using tx by (auto dest: inj_onD)
  have "distinct (map tx_id (remove1 tx (open_txs s)))"
    using dist by (metis distinct_map distinct_remove1 inj_on_diff set \<open>inj_on tx_id (set (open_txs s))\<close>)
  moreover have "active_tx_ids m = tx_id ` {t \<in> set (open_txs s) - {tx}. \<not> is_read_only t}"
    using inv m(2) ids tx by (auto simp: tm_inv_def)
  ultimately show ?thesis
    using inv m(1,3) remove_read_ts_counts [of "mgr s" "open_txs s" tx] tx set
    by (simp add: tm_inv_def)
qed

lemma begin_at_OkD:
  assumes "begin_at m ro snap = Ok (tx, m')"
  shows "next_tx_id m \<noteq> - 1" "tx_id tx = next_tx_id m" "is_read_only tx = ro" "\<not> finalized tx"
    "read_ts tx = (case snap of Some ts \<Rightarrow> ts | None \<Rightarrow> current_ts m)"
    "next_tx_id m' = next_tx_id m + 1" "current_ts m' = current_ts m"
    "active_tx_ids m' = (if ro then active_tx_ids m else insert (tx_id tx) (active_tx_ids m))"
    "active_read_ts m' = (active_read_ts m)(read_ts tx \<mapsto>
       (case active_read_ts m (read_ts tx) of Some n \<Rightarrow> n | None \<Rightarrow> 0) + 1)"
    "modified_rows tx = []" "bulk_row_ranges tx = []"
  using assms by (auto simp: begin_at_def Let_def new_transaction_def split: if_splits option.splits)

lemma tm_inv_begin:
  assumes inv: "tm_inv s" and b: "begin_at (mgr s) ro snap = Ok (tx, m)"
  shows "tm_inv \<lparr>mgr = m, open_txs = tx # open_txs s\<rparr>"
proof -
  note B = begin_at_OkD [OF b]
  have less: "next_tx_id (mgr s) < next_tx_id m" using B(1,6) less_plus_one by simp
  have "tx_id t < tx_id tx" if "t \<in> set (open_txs s)" for t
    using inv that B(2) by (auto simp: tm_inv_def)
  then have "tx_id tx \<notin> tx_id ` set (open_txs s)" by (metis imageE less_irrefl)
  moreover have "0 < tx_id tx" "tx_id tx < next_tx_id m" using inv less B(2) by (auto simp: tm_inv_def)
  moreover have "{t \<in> set (tx # open_txs s). \<not> is_read_only t}
      = (if ro then {} else {tx}) \<union> {t \<in> set (open_txs s). \<not> is_read_only t}"
    using B(3) by auto
  then have "active_tx_ids m = tx_id ` {t \<in> set (tx # open_txs s). \<not> is_read_only t}"
    using inv B(8) by (simp add: tm_inv_def)
  ultimately show ?thesis
    using inv B less by (auto simp: tm_inv_def counts_of_add)
qed

lemma tm_inv_step: "tm_step s s' \<Longrightarrow> tm_inv s \<Longrightarrow> tm_inv s'"
proof (induction rule: tm_step.induct)
  case (tm_begin s ro snap tx m)
  then show ?case using tm_inv_begin by blast
next
  case (tm_tick s ts m)
  then show ?case by (auto simp: tm_inv_def next_commit_ts_def split: if_splits)
next
  case (tm_commit tx s tx' m)
  then show ?case
    by (intro tm_inv_leave) (auto simp: finish_commit_def Let_def intro!: active_read_ts_remove_cong)
next
  case (tm_rollback tx s tx' m)
  then show ?case
    by (intro tm_inv_leave) (auto simp: finish_rollback_def Let_def intro!: active_read_ts_remove_cong)
next
  case (tm_drop tx s tx' m)
  moreover from tm_drop have "\<not> finalized tx" by (auto simp: tm_inv_def)
  ultimately show ?case
    by (intro tm_inv_leave) (auto simp: drop_transaction_def Let_def)
qed

lemma tm_reachable_inv: "tm_reachable s \<Longrightarrow> tm_inv s"
proof (induction rule: tm_reachable.induct)
  case tm_reach_init
  then show ?case
    by (simp add: tm_inv_def tm_init_def new_txn_manager_def counts_of_def fun_eq_iff)
next
  case (tm_reach_step s s')
  then show ?case using tm_inv_step by blast
qed

section \<open>Properties\<close>

text \<open>Two writers are in flight; the second one has committed in \<open>tm_gap\<close>.\<close>

definition tm_two :: tm_sys where
  "tm_two = \<lparr>mgr = \<lparr>next_tx_id = 3, current_ts = 1, committed_tx_count = 0, active_tx_ids = {1, 2},
      active_read_ts = [1 \<mapsto> Suc (Suc 0)]\<rparr>,
    open_txs = [new_transaction 2 False 1, new_transaction 1 False 1]\<rparr>"

definition tm_gap :: tm_sys where
  "tm_gap = \<lparr>mgr = \<lparr>next_tx_id = 3, current_ts = 1, committed_tx_count = 1, active_tx_ids = {1},
      active_read_ts = [1 \<mapsto> 1]\<rparr>,
    open_txs = [new_transaction 1 False 1]\<rparr>"

lemma tm_two_reachable: "tm_reachable tm_two"
proof -
  let ?s1 = "\<lparr>mgr = \<lparr>next_tx_id = 2, current_ts = 1, committed_tx_count = 0, active_tx_ids = {1},
      active_read_ts = [1 \<mapsto> 1]\<rparr>, open_txs = [new_transaction 1 False 1]\<rparr>"
  have "tm_step tm_init ?s1"
    using tm_begin [of tm_init False None "new_transaction 1 False 1" "mgr ?s1"]
    by (simp add: tm_init_def begin_at_def new_txn_manager_def)
  moreover have "tm_step ?s1 tm_two"
    using tm_begin [of ?s1 False None "new_transaction 2 False 1" "mgr tm_two"]
    by (simp add: tm_two_def begin_at_def insert_commute)
  ultimately show ?thesis using tm_reach_init tm_reach_step by blast
qed

lemma tm_gap_reachable: "tm_reachable tm_gap"
proof -
  have "tm_step tm_two tm_gap"
    using tm_commit [of "new_transaction 2 False 1" tm_two _ "mgr tm_gap"]
    by (auto simp: tm_two_def tm_gap_def finish_commit_def remove_read_ts_def new_transaction_def insert_Diff_if)
  with tm_two_reachable show ?thesis using tm_reach_step by blast
qed

text \<open>
  C26 [min_read_ts_exact]. In every reachable state of the manager, the vacuum horizon is not newer than
  the snapshot of any open transaction, time-travel readers included; it is the oldest open snapshot
  when there is one and the clock otherwise.
\<close>

theorem min_read_ts_exact:
  assumes "tm_reachable s"
  shows "(\<forall>tx \<in> set (open_txs s). get_min_active_read_ts (mgr s) \<le> read_ts tx)
    \<and> (if open_txs s = [] then get_min_active_read_ts (mgr s) = current_ts (mgr s)
       else \<exists>tx \<in> set (open_txs s). get_min_active_read_ts (mgr s) = read_ts tx)"
proof -
  have dom: "dom (active_read_ts (mgr s)) = read_ts ` set (open_txs s)"
    using tm_reachable_inv [OF assms] by (simp add: tm_inv_def)
  show ?thesis
  proof (cases "open_txs s = []")
    case True
    then show ?thesis using dom by (simp add: get_min_active_read_ts_def)
  next
    case False
    then have "Min (read_ts ` set (open_txs s)) \<in> read_ts ` set (open_txs s)" by (intro Min_in) auto
    then obtain tx where "tx \<in> set (open_txs s)" "Min (read_ts ` set (open_txs s)) = read_ts tx" by blast
    moreover have "\<forall>u \<in> set (open_txs s). Min (read_ts ` set (open_txs s)) \<le> read_ts u" by simp
    ultimately show ?thesis using False by (simp add: get_min_active_read_ts_def dom) blast
  qed
qed

theorem min_read_ts_exact_witness:
  "open_txs tm_two \<noteq> [] \<and> get_min_active_read_ts (mgr tm_two) \<le> read_ts (hd (open_txs tm_two))"
proof -
  have "open_txs tm_two \<noteq> []" by (simp add: tm_two_def)
  then show ?thesis using min_read_ts_exact [OF tm_two_reachable] hd_in_set by blast
qed

text \<open>
  C29 [has_other_active_exact]. For an open transaction, \<open>has_other_active\<close> answers exactly whether another
  transaction, reader or writer, is open: the guard of compression and other maintenance is exact.
\<close>

theorem has_other_active_exact:
  assumes "tm_reachable s" and "tx \<in> set (open_txs s)"
  shows "has_other_active (mgr s) (tx_id tx) \<longleftrightarrow> (\<exists>u \<in> set (open_txs s). u \<noteq> tx)"
proof -
  note inv = tm_reachable_inv [OF assms(1)]
  have size: "(\<Sum>k \<in> set_mset M. the (counts_of M k)) = size M" for M :: "u64 multiset"
    by (simp add: counts_of_def size_multiset_overloaded_eq)
  have sum: "(\<Sum>k \<in> dom (active_read_ts (mgr s)). the (active_read_ts (mgr s) k)) = length (open_txs s)"
  proof -
    have "active_read_ts (mgr s) = snapshot_counts (open_txs s)" using inv by (simp add: tm_inv_def)
    then show ?thesis using size [of "image_mset read_ts (mset (open_txs s))"] by simp
  qed
  have dist: "distinct (open_txs s)" using inv by (simp add: tm_inv_def distinct_map)
  have "length (open_txs s) > 1 \<longleftrightarrow> (\<exists>u \<in> set (open_txs s). u \<noteq> tx)"
  proof -
    have "length (open_txs s) = card (set (open_txs s))" using dist by (simp add: distinct_card)
    also have "\<dots> = Suc (card (set (open_txs s) - {tx}))" using card.remove [OF _ assms(2)] by simp
    finally show ?thesis by (auto simp: card_gt_0_iff)
  qed
  moreover have "\<exists>u \<in> set (open_txs s). u \<noteq> tx" if "i \<in> active_tx_ids (mgr s)" "i \<noteq> tx_id tx" for i
  proof -
    have "active_tx_ids (mgr s) = tx_id ` {t \<in> set (open_txs s). \<not> is_read_only t}"
      using inv by (simp add: tm_inv_def)
    with that show ?thesis by auto
  qed
  ultimately show ?thesis unfolding has_other_active_def sum by blast
qed

theorem has_other_active_exact_witness:
  "has_other_active (mgr tm_two) 1 \<longleftrightarrow> (\<exists>u \<in> set (open_txs tm_two). u \<noteq> new_transaction 1 False 1)"
  using has_other_active_exact [OF tm_two_reachable, of "new_transaction 1 False 1"]
  by (simp add: tm_two_def new_transaction_def)

lemma le_minus_one_iff: "w \<noteq> 0 \<Longrightarrow> u \<le> w - 1 \<longleftrightarrow> u < (w :: u64)"
proof -
  assume w: "w \<noteq> 0"
  then have "0 < unat w" by (simp add: unat_gt_0)
  then show ?thesis using w by (auto simp: word_le_nat_alt word_less_nat_alt unat_minus_one)
qed

lemma watermark_from_spec:
  "0 \<notin> active \<Longrightarrow> watermark_from active w \<le> w \<and> watermark_from active w \<notin> active
   \<and> (\<forall>u. watermark_from active w < u \<and> u \<le> w \<longrightarrow> u \<in> active)"
proof (induction active w rule: watermark_from.induct)
  case (1 active w)
  show ?case
  proof (cases "w \<in> active")
    case False
    then show ?thesis by (auto simp: watermark_from.simps [of active w] dest: leD)
  next
    case True
    with 1 have w: "w \<noteq> 0" by auto
    note IH = 1(1) [OF _ w 1(2)]
    have eq: "watermark_from active w = watermark_from active (w - 1)"
      using True w by (simp add: watermark_from.simps [of active w])
    have IH: "watermark_from active (w - 1) < w" "watermark_from active (w - 1) \<notin> active"
      "\<forall>u. watermark_from active (w - 1) < u \<and> u < w \<longrightarrow> u \<in> active"
      using IH True by (simp_all add: le_minus_one_iff [OF w])
    show ?thesis unfolding eq using IH True by (auto simp: le_less)
  qed
qed



text \<open>
  C35 [watermark_passes_in_flight]. The watermark is not a resolved prefix: a reachable state has a writer
  still in flight whose id is below the watermark, so a checkpoint that persists it declares resolved
  a transaction that can commit later.
\<close>

theorem watermark_passes_in_flight:
  "\<exists>s. tm_reachable s \<and> (\<exists>tx \<in> set (open_txs s). \<not> is_read_only tx \<and> tx_id tx \<in> active_tx_ids (mgr s)
     \<and> tx_id tx < resolved_tx_watermark (mgr s))"
  using tm_gap_reachable
  by (intro exI [of _ tm_gap])
    (simp add: tm_gap_def new_transaction_def resolved_tx_watermark_def watermark_from.simps word_le_nat_alt)

end
