(* ===== verification/Snapshot_Isolation.thy ===== *)
theory Snapshot_Isolation
  imports Row_Version Txn_Manager
begin

text \<open>
  Transactions over the row version stores: the row part of \<open>commit\<close> and \<open>rollback\<close> of
  \<open>transaction/transaction_manager.rs\<close>, the marking of rows by \<open>Column::append_value\<close>,
  \<open>Table::reserve_rows\<close> and the \<open>SET\<close> operator, and the vacuum of a checkpoint, put together as a step
  relation. A commit is two steps, the clock advance and the publication of the rows, because the commit
  lock does not keep a transaction from beginning in between.
\<close>

section \<open>Row handling of the transaction handlers\<close>

type_synonym tables = "nat \<Rightarrow> row_version"

text \<open>\<open>append_value\<close> marks the row and records it in the transaction (\<open>storage/column.rs\<close>).\<close>

definition append_mark :: "tables \<Rightarrow> transaction \<Rightarrow> nat \<Rightarrow> u64 \<Rightarrow> write_conflict + (transaction \<times> tables)" where
  "append_mark tabs tx tab r =
     (case mark_row (tabs tab) r (tx_id tx) (read_ts tx) of
        Inl c \<Rightarrow> Inl c
      | Inr rv \<Rightarrow> Inr (tx\<lparr>modified_rows := modified_rows tx @ [(tab, r)]\<rparr>, tabs(tab := rv)))"

text \<open>\<open>reserve_rows\<close> marks a freshly allocated range (\<open>storage/storage_manager.rs\<close>).\<close>

definition reserve_rows :: "tables \<Rightarrow> transaction \<Rightarrow> nat \<Rightarrow> u64 \<Rightarrow> u64 \<Rightarrow> transaction \<times> tables" where
  "reserve_rows tabs tx tab start n =
     (if n = 0 then (tx, tabs)
      else (tx\<lparr>bulk_row_ranges := bulk_row_ranges tx @ [(tab, start, start + n)]\<rparr>,
            tabs(tab := mark_row_batch (tabs tab) start (start + n) (tx_id tx))))"

text \<open>
  The conflict check of \<open>SET\<close> and \<open>DELETE\<close> before any write (\<open>processor/operators/dml.rs\<close>): the rows are
  marked in order and the first conflict ends the statement. The marks already placed stay.
\<close>

fun premark_rows :: "row_version \<Rightarrow> u64 list \<Rightarrow> u64 \<Rightarrow> u64 \<Rightarrow> row_version \<times> write_conflict option" where
  "premark_rows rv [] t ts = (rv, None)"
| "premark_rows rv (r # rs) t ts =
     (case mark_row rv r t ts of Inl c \<Rightarrow> (rv, Some c) | Inr rv' \<Rightarrow> premark_rows rv' rs t ts)"

definition commit_tx_rows :: "transaction \<Rightarrow> u64 \<Rightarrow> tables \<Rightarrow> tables" where
  "commit_tx_rows tx cts tabs =
     fold (\<lambda>(tab, r) tabs. tabs(tab := commit_row (tabs tab) r cts)) (modified_rows tx)
       (fold (\<lambda>(tab, a, b) tabs. tabs(tab := commit_row_batch (tabs tab) a b cts)) (bulk_row_ranges tx) tabs)"

definition rollback_tx_rows :: "transaction \<Rightarrow> tables \<Rightarrow> tables" where
  "rollback_tx_rows tx tabs =
     fold (\<lambda>(tab, a, b) tabs. tabs(tab := rollback_row_batch (tabs tab) a b)) (bulk_row_ranges tx)
       (fold (\<lambda>(tab, r) tabs. tabs(tab := rollback_row (tabs tab) r)) (modified_rows tx) tabs)"

text \<open>The rows a transaction has written.\<close>

definition bulk_rows :: "transaction \<Rightarrow> (nat \<times> u64) list" where
  "bulk_rows tx = concat (map (\<lambda>(tab, a, b). map (Pair tab) (row_range a b)) (bulk_row_ranges tx))"

definition written :: "transaction \<Rightarrow> (nat \<times> u64) set" where
  "written tx = set (modified_rows tx) \<union> set (bulk_rows tx)"

section \<open>Effect on the tables\<close>

abbreviation tabs_ok :: "tables \<Rightarrow> bool" where
  "tabs_ok tabs \<equiv> \<forall>tab. table_ok (tabs tab)"

abbreviation commit_rows :: "u64 \<Rightarrow> (nat \<times> u64) list \<Rightarrow> tables \<Rightarrow> tables" where
  "commit_rows cts rows tabs \<equiv> fold (\<lambda>(tab, r) tabs. tabs(tab := commit_row (tabs tab) r cts)) rows tabs"

abbreviation rollback_rows :: "(nat \<times> u64) list \<Rightarrow> tables \<Rightarrow> tables" where
  "rollback_rows rows tabs \<equiv> fold (\<lambda>(tab, r) tabs. tabs(tab := rollback_row (tabs tab) r)) rows tabs"

lemma fold_one_table:
  "fold (\<lambda>(tab, r) tabs. tabs(tab := f (tabs tab) r)) (map (Pair tab) rows) tabs
     = tabs(tab := fold (\<lambda>r rv. f rv r) rows (tabs tab))"
  by (induction rows arbitrary: tabs) auto

lemma commit_rows_ok: "tabs_ok tabs \<Longrightarrow> tabs_ok (commit_rows cts rows tabs)"
  by (induction rows arbitrary: tabs) (auto simp: tbl.commit_ok)

lemma rollback_rows_ok: "tabs_ok tabs \<Longrightarrow> tabs_ok (rollback_rows rows tabs)"
  by (induction rows arbitrary: tabs) (auto simp: tbl.rollback_ok)

lemma table_okD: "table_ok rv \<Longrightarrow> rv_inv rv"
  by (simp add: table_ok_def)

lemma commit_bulk_eq:
  "tabs_ok tabs \<Longrightarrow>
   fold (\<lambda>(tab, a, b) tabs. tabs(tab := commit_row_batch (tabs tab) a b cts)) ranges tabs
     = commit_rows cts (concat (map (\<lambda>(tab, a, b). map (Pair tab) (row_range a b)) ranges)) tabs"
proof (induction ranges arbitrary: tabs)
  case Nil
  then show ?case by simp
next
  case (Cons p ranges)
  obtain tab a b where p: "p = (tab, a, b)" by (cases p) auto
  have "tabs(tab := commit_row_batch (tabs tab) a b cts) = commit_rows cts (map (Pair tab) (row_range a b)) tabs"
    using Cons.prems by (simp add: fold_one_table [of "\<lambda>rv r. commit_row rv r cts"] commit_row_batch_fold [OF table_okD])
  moreover have "tabs_ok (tabs(tab := commit_row_batch (tabs tab) a b cts))"
    unfolding calculation by (rule commit_rows_ok [OF Cons.prems])
  ultimately show ?case using Cons.IH by (simp add: p del: fun_upd_apply)
qed

lemma rollback_bulk_eq:
  "tabs_ok tabs \<Longrightarrow>
   fold (\<lambda>(tab, a, b) tabs. tabs(tab := rollback_row_batch (tabs tab) a b)) ranges tabs
     = rollback_rows (concat (map (\<lambda>(tab, a, b). map (Pair tab) (row_range a b)) ranges)) tabs"
proof (induction ranges arbitrary: tabs)
  case Nil
  then show ?case by simp
next
  case (Cons p ranges)
  obtain tab a b where p: "p = (tab, a, b)" by (cases p) auto
  have "tabs(tab := rollback_row_batch (tabs tab) a b) = rollback_rows (map (Pair tab) (row_range a b)) tabs"
    using Cons.prems by (simp add: fold_one_table [of rollback_row] rollback_row_batch_fold [OF table_okD])
  moreover have "tabs_ok (tabs(tab := rollback_row_batch (tabs tab) a b))"
    unfolding calculation by (rule rollback_rows_ok [OF Cons.prems])
  ultimately show ?case using Cons.IH by (simp add: p del: fun_upd_apply)
qed

text \<open>A row list committed at \<open>cts\<close>: its rows are unlocked and last changed at \<open>cts\<close> or later.\<close>

lemma commit_rows_view:
  "tabs_ok tabs \<Longrightarrow>
   (if (tab, r) \<in> set rows
    then writer (commit_rows cts rows tabs tab) r = None
      \<and> (\<exists>e. history (commit_rows cts rows tabs tab) r = Some e \<and> cts \<le> last_ts e
           \<and> (\<forall>b \<ge> cts. (\<forall>e0. history (tabs tab) r = Some e0 \<longrightarrow> last_ts e0 \<le> b) \<longrightarrow> last_ts e \<le> b))
    else writer (commit_rows cts rows tabs tab) r = writer (tabs tab) r
      \<and> history (commit_rows cts rows tabs tab) r = history (tabs tab) r)"
proof (induction rows arbitrary: tabs)
  case Nil
  then show ?case by simp
next
  case (Cons p rows)
  obtain tab' r' where p: "p = (tab', r')" by (cases p)
  let ?tabs = "tabs(tab' := commit_row (tabs tab') r' cts)"
  have ok: "tabs_ok ?tabs" using Cons.prems by (auto simp: tbl.commit_ok)
  have w: "writer (?tabs tab) r = (if (tab, r) = (tab', r') then None else writer (tabs tab) r)"
    and h: "history (?tabs tab) r = (if (tab, r) = (tab', r')
      then Some (merge_commit cts (history (tabs tab) r)) else history (tabs tab) r)"
    using tbl.commit_ok [of "tabs tab'" r' cts] Cons.prems by auto
  have m: "cts \<le> last_ts (merge_commit cts e)"
    "\<forall>b \<ge> cts. (\<forall>e0. e = Some e0 \<longrightarrow> last_ts e0 \<le> b) \<longrightarrow> last_ts (merge_commit cts e) \<le> b" for e
    by (auto simp: merge_commit_def Let_def split: option.splits)
  show ?case
    using Cons.IH [OF ok] m [of "history (tabs tab) r"] unfolding p w h
    by (cases "(tab, r) \<in> set rows"; cases "(tab, r) = (tab', r')") auto
qed

lemma rollback_rows_view:
  "tabs_ok tabs \<Longrightarrow>
   writer (rollback_rows rows tabs tab) r = (if (tab, r) \<in> set rows then None else writer (tabs tab) r)
   \<and> history (rollback_rows rows tabs tab) r = history (tabs tab) r"
proof (induction rows arbitrary: tabs)
  case Nil
  then show ?case by simp
next
  case (Cons p rows)
  obtain tab' r' where p: "p = (tab', r')" by (cases p)
  have "tabs_ok (tabs(tab' := rollback_row (tabs tab') r'))" using Cons.prems by (auto simp: tbl.rollback_ok)
  from Cons.IH [OF this] show ?case
    using tbl.rollback_ok [of "tabs tab'" r'] Cons.prems by (auto simp: p)
qed

lemma commit_tx_rows_eq: "tabs_ok tabs \<Longrightarrow> commit_tx_rows tx cts tabs = commit_rows cts (bulk_rows tx @ modified_rows tx) tabs"
  by (simp add: commit_tx_rows_def bulk_rows_def commit_bulk_eq)

lemma rollback_tx_rows_eq: "tabs_ok tabs \<Longrightarrow> rollback_tx_rows tx tabs = rollback_rows (modified_rows tx @ bulk_rows tx) tabs"
  using rollback_rows_ok [of tabs "modified_rows tx"]
  by (simp add: rollback_tx_rows_def bulk_rows_def rollback_bulk_eq)

section \<open>The system of transactions\<close>

text \<open>
  The manager with its open transactions, the tables, the holder of the commit lock, and as a ghost the
  committed writers, newest first.
\<close>

record si_sys =
  tm :: tm_sys
  tabs :: tables
  commit_lock :: "u64 option"
  si_log :: "transaction list"

abbreviation si_mgr :: "si_sys \<Rightarrow> txn_manager" where
  "si_mgr s \<equiv> mgr (tm s)"

abbreviation si_open :: "si_sys \<Rightarrow> transaction list" where
  "si_open s \<equiv> open_txs (tm s)"

definition replace_tx :: "transaction \<Rightarrow> transaction list \<Rightarrow> transaction list" where
  "replace_tx tx' txs = map (\<lambda>x. if tx_id x = tx_id tx' then tx' else x) txs"

definition set_tx :: "transaction \<Rightarrow> si_sys \<Rightarrow> si_sys" where
  "set_tx tx' s = s\<lparr>tm := (tm s)\<lparr>open_txs := replace_tx tx' (si_open s)\<rparr>\<rparr>"

definition close_tx :: "transaction \<Rightarrow> txn_manager \<Rightarrow> si_sys \<Rightarrow> si_sys" where
  "close_tx tx m s = s\<lparr>tm := \<lparr>mgr = m, open_txs = remove1 tx (si_open s)\<rparr>\<rparr>"

text \<open>Row ids handed out by the allocator: no transaction has touched them.\<close>

definition fresh_range :: "si_sys \<Rightarrow> nat \<Rightarrow> u64 \<Rightarrow> u64 \<Rightarrow> bool" where
  "fresh_range s tab a b \<longleftrightarrow>
     (\<forall>r. a \<le> r \<and> r < b \<longrightarrow> writer (tabs s tab) r = None \<and> history (tabs s tab) r = None)"

definition si_init :: si_sys where
  "si_init = \<lparr>tm = tm_init, tabs = (\<lambda>_. new_row_version), commit_lock = None, si_log = []\<rparr>"

inductive si_step :: "si_sys \<Rightarrow> si_sys \<Rightarrow> bool" where
  si_begin: "begin_at (si_mgr s) ro snap = Ok (tx, m) \<Longrightarrow> ro \<or> snap = None \<Longrightarrow>
    si_step s (s\<lparr>tm := \<lparr>mgr = m, open_txs = tx # si_open s\<rparr>\<rparr>)"
| si_write: "tx \<in> set (si_open s) \<Longrightarrow> \<not> is_read_only tx \<Longrightarrow> commit_lock s \<noteq> Some (tx_id tx) \<Longrightarrow>
    append_mark (tabs s) tx tab r = Inr (tx', ts') \<Longrightarrow> si_step s ((set_tx tx' s)\<lparr>tabs := ts'\<rparr>)"
| si_reserve: "tx \<in> set (si_open s) \<Longrightarrow> \<not> is_read_only tx \<Longrightarrow> commit_lock s \<noteq> Some (tx_id tx) \<Longrightarrow>
    fresh_range s tab a (a + n) \<Longrightarrow> reserve_rows (tabs s) tx tab a n = (tx', ts') \<Longrightarrow>
    si_step s ((set_tx tx' s)\<lparr>tabs := ts'\<rparr>)"
| si_premark: "tx \<in> set (si_open s) \<Longrightarrow> \<not> is_read_only tx \<Longrightarrow>
    premark_rows (tabs s tab) rows (tx_id tx) (read_ts tx) = (rv, c) \<Longrightarrow>
    si_step s (s\<lparr>tabs := (tabs s)(tab := rv)\<rparr>)"
| si_take_ts: "tx \<in> set (si_open s) \<Longrightarrow> \<not> is_read_only tx \<Longrightarrow> commit_lock s = None \<Longrightarrow>
    next_commit_ts (si_mgr s) = Ok (cts, m) \<Longrightarrow>
    si_step s (let s = set_tx (tx\<lparr>commit_ts := cts\<rparr>) s
               in s\<lparr>tm := (tm s)\<lparr>mgr := m\<rparr>, commit_lock := Some (tx_id tx)\<rparr>)"
| si_commit_fails: "commit_lock s = Some t \<Longrightarrow> si_step s (s\<lparr>commit_lock := None\<rparr>)"
| si_publish: "tx \<in> set (si_open s) \<Longrightarrow> commit_lock s = Some (tx_id tx) \<Longrightarrow>
    finish_commit (si_mgr s) tx = (tx', m) \<Longrightarrow>
    si_step s ((close_tx tx m s)\<lparr>tabs := commit_tx_rows tx (commit_ts tx) (tabs s),
                 commit_lock := None, si_log := tx' # si_log s\<rparr>)"
| si_commit_read: "tx \<in> set (si_open s) \<Longrightarrow> is_read_only tx \<Longrightarrow>
    finish_commit (si_mgr s) tx = (tx', m) \<Longrightarrow> si_step s (close_tx tx m s)"
| si_rollback: "tx \<in> set (si_open s) \<Longrightarrow> commit_lock s \<noteq> Some (tx_id tx) \<Longrightarrow>
    finish_rollback (si_mgr s) tx = (tx', m) \<Longrightarrow>
    si_step s ((close_tx tx m s)\<lparr>tabs := rollback_tx_rows tx (tabs s)\<rparr>)"
| si_drop: "tx \<in> set (si_open s) \<Longrightarrow> commit_lock s \<noteq> Some (tx_id tx) \<Longrightarrow>
    drop_transaction (si_mgr s) tx = (tx', m) \<Longrightarrow> si_step s (close_tx tx m s)"
| si_vacuum: "si_step s (s\<lparr>tabs := (tabs s)(tab :=
    snd (vacuum (tabs s tab) (get_min_active_read_ts (si_mgr s))))\<rparr>)"

inductive si_reachable :: "si_sys \<Rightarrow> bool" where
  si_reach_init: "si_reachable si_init"
| si_reach_step: "si_reachable s \<Longrightarrow> si_step s s' \<Longrightarrow> si_reachable s'"

text \<open>
  The invariant. Open writers own the rows they wrote, and nothing newer than their snapshot was
  committed on them; the clock bounds every timestamp; a committed write is either still in the history
  or older than every open writer's snapshot.
\<close>

definition owns_rows :: "tables \<Rightarrow> transaction \<Rightarrow> bool" where
  "owns_rows ts tx \<longleftrightarrow>
     (\<forall>(tab, r) \<in> written tx. writer (ts tab) r = Some (tx_id tx)
        \<and> (\<forall>e. history (ts tab) r = Some e \<longrightarrow> last_ts e \<le> read_ts tx))"

definition remembered :: "tables \<Rightarrow> transaction list \<Rightarrow> transaction \<Rightarrow> bool" where
  "remembered ts txs a \<longleftrightarrow>
     (\<forall>(tab, r) \<in> written a. (\<exists>e. history (ts tab) r = Some e \<and> commit_ts a \<le> last_ts e)
        \<or> (\<forall>tx \<in> set txs. \<not> is_read_only tx \<longrightarrow> commit_ts a \<le> read_ts tx))"

definition si_order :: "transaction \<Rightarrow> transaction \<Rightarrow> bool" where
  "si_order b a \<longleftrightarrow> commit_ts a < commit_ts b \<and> read_ts b < commit_ts b
     \<and> (written a \<inter> written b \<noteq> {} \<longrightarrow> commit_ts a \<le> read_ts b)"

definition si_inv :: "si_sys \<Rightarrow> bool" where
  "si_inv s \<longleftrightarrow> tm_inv (tm s) \<and> tabs_ok (tabs s)
     \<and> (\<forall>tx \<in> set (si_open s). owns_rows (tabs s) tx
          \<and> (\<not> is_read_only tx \<longrightarrow> read_ts tx \<le> current_ts (si_mgr s)))
     \<and> (\<forall>tab r e. history (tabs s tab) r = Some e \<longrightarrow> last_ts e \<le> current_ts (si_mgr s))
     \<and> (\<forall>t. commit_lock s = Some t \<longrightarrow> t \<in> tx_id ` set (si_open s))
     \<and> (\<forall>tx \<in> set (si_open s). commit_lock s = Some (tx_id tx) \<longrightarrow>
          \<not> is_read_only tx \<and> read_ts tx < commit_ts tx \<and> commit_ts tx \<le> current_ts (si_mgr s)
          \<and> (\<forall>a \<in> set (si_log s). commit_ts a < commit_ts tx))
     \<and> (\<forall>a \<in> set (si_log s). commit_ts a \<le> current_ts (si_mgr s) \<and> remembered (tabs s) (si_open s) a)
     \<and> sorted_wrt si_order (si_log s)"

section \<open>Preservation of the invariant\<close>

lemma tm_inv_ids:
  assumes "tm_inv u" "x \<in> set (open_txs u)" "y \<in> set (open_txs u)"
  shows "tx_id x = tx_id y \<longleftrightarrow> x = y"
proof -
  have "inj_on tx_id (set (open_txs u))" using assms(1) by (simp add: tm_inv_def distinct_map)
  then show ?thesis using assms(2,3) by (auto dest: inj_onD)
qed

lemma set_replace_tx:
  assumes "tm_inv u" "tx \<in> set (open_txs u)" "tx_id tx' = tx_id tx"
  shows "set (replace_tx tx' (open_txs u)) = insert tx' (set (open_txs u) - {tx})"
  using tm_inv_ids [OF assms(1) _ assms(2)] assms(2,3) by (auto simp: replace_tx_def)

lemma map_replace_tx:
  assumes "tm_inv u" "tx \<in> set (open_txs u)" "tx_id tx' = tx_id tx" "f tx' = f tx"
  shows "map f (replace_tx tx' (open_txs u)) = map f (open_txs u)"
  using tm_inv_ids [OF assms(1) _ assms(2)] assms(3,4) by (auto simp: replace_tx_def)

lemma tm_inv_replace:
  assumes "tm_inv u" "tx \<in> set (open_txs u)" and same: "tx_id tx' = tx_id tx"
    "read_ts tx' = read_ts tx" "is_read_only tx' = is_read_only tx" "finalized tx' = finalized tx"
  shows "tm_inv (u\<lparr>open_txs := replace_tx tx' (open_txs u)\<rparr>)"
proof -
  let ?os = "replace_tx tx' (open_txs u)"
  note rep = set_replace_tx [OF assms(1,2) same(1)] map_replace_tx [OF assms(1,2) same(1)]
  have "map read_ts ?os = map read_ts (open_txs u)" "map tx_id ?os = map tx_id (open_txs u)"
    using rep(2) [of read_ts] rep(2) [of tx_id] same by simp_all
  moreover have "image_mset read_ts (mset ?os) = mset (map read_ts ?os)" by simp
  moreover have "{t \<in> set ?os. \<not> is_read_only t}
      = (if is_read_only tx then {} else {tx'}) \<union> {t \<in> set (open_txs u) - {tx}. \<not> is_read_only t}"
    using rep(1) same by auto
  then have "tx_id ` {t \<in> set ?os. \<not> is_read_only t} = tx_id ` {t \<in> set (open_txs u). \<not> is_read_only t}"
    using assms(2) same by (auto simp: image_iff)
  ultimately show ?thesis
    using assms(1,2) same rep(1) by (auto simp: tm_inv_def simp flip: mset_map)
qed

lemma owns_rowsD:
  "owns_rows ts tx \<Longrightarrow> (tab, r) \<in> written tx \<Longrightarrow> writer (ts tab) r = Some (tx_id tx)"
  "owns_rows ts tx \<Longrightarrow> (tab, r) \<in> written tx \<Longrightarrow> history (ts tab) r = Some e \<Longrightarrow> last_ts e \<le> read_ts tx"
  by (auto simp: owns_rows_def)

lemma owns_rows_cong:
  assumes "owns_rows ts tx"
    and "\<And>tab r. (tab, r) \<in> written tx \<Longrightarrow> writer (ts tab) r = Some (tx_id tx) \<Longrightarrow>
           writer (ts' tab) r = Some (tx_id tx)"
    and "\<And>tab r e. (tab, r) \<in> written tx \<Longrightarrow> writer (ts tab) r = Some (tx_id tx) \<Longrightarrow>
           history (ts' tab) r = Some e \<Longrightarrow> \<exists>e0. history (ts tab) r = Some e0 \<and> last_ts e \<le> last_ts e0"
  shows "owns_rows ts' tx"
  unfolding owns_rows_def
proof safe
  fix tab r assume w: "(tab, r) \<in> written tx"
  note own = owns_rowsD(1) [OF assms(1) w]
  show "writer (ts' tab) r = Some (tx_id tx)" using assms(2) [OF w own] .
  fix e assume "history (ts' tab) r = Some e"
  from assms(3) [OF w own this] show "last_ts e \<le> read_ts tx"
    using owns_rowsD(2) [OF assms(1) w] order.trans by blast
qed

lemma remembered_mono:
  assumes "remembered ts txs a"
    and "\<And>tx. tx \<in> set txs' \<Longrightarrow> \<not> is_read_only tx \<Longrightarrow>
           commit_ts a \<le> read_ts tx \<or> (\<exists>tx0 \<in> set txs. \<not> is_read_only tx0 \<and> read_ts tx0 = read_ts tx)"
    and "\<And>tab r e. history (ts tab) r = Some e \<Longrightarrow> commit_ts a \<le> last_ts e \<Longrightarrow>
           (\<exists>e'. history (ts' tab) r = Some e' \<and> commit_ts a \<le> last_ts e')
           \<or> (\<forall>tx \<in> set txs'. \<not> is_read_only tx \<longrightarrow> commit_ts a \<le> read_ts tx)"
  shows "remembered ts' txs' a"
  unfolding remembered_def
proof safe
  fix tab r tx assume w: "(tab, r) \<in> written a"
    and no: "\<nexists>e. history (ts' tab) r = Some e \<and> commit_ts a \<le> last_ts e"
    and tx: "tx \<in> set txs'" "\<not> is_read_only tx"
  from assms(1) w consider (h) e where "history (ts tab) r = Some e" "commit_ts a \<le> last_ts e"
    | (r) "\<forall>tx \<in> set txs. \<not> is_read_only tx \<longrightarrow> commit_ts a \<le> read_ts tx"
    by (auto simp: remembered_def)
  then show "commit_ts a \<le> read_ts tx"
  proof cases
    case h
    with assms(3) no tx show ?thesis by blast
  next
    case r
    with assms(2) [OF tx] show ?thesis by auto
  qed
qed

lemma replace_tx_self: "tm_inv u \<Longrightarrow> tx \<in> set (open_txs u) \<Longrightarrow> replace_tx tx (open_txs u) = open_txs u"
  using tm_inv_ids [of u _ tx] by (auto simp: replace_tx_def intro!: map_idI)

text \<open>Marking rows for a transaction: histories stay, and so do the marks of the others.\<close>

lemma si_inv_mark:
  assumes inv: "si_inv s" and tx: "tx \<in> set (si_open s)"
    and same: "tx_id tx' = tx_id tx" "read_ts tx' = read_ts tx" "is_read_only tx' = is_read_only tx"
      "finalized tx' = finalized tx" "commit_ts tx' = commit_ts tx"
    and ok: "tabs_ok ts'" and hist: "\<And>tab. history (ts' tab) = history (tabs s tab)"
    and others: "\<And>tab r u. writer (tabs s tab) r = Some u \<Longrightarrow> u \<noteq> tx_id tx \<Longrightarrow> writer (ts' tab) r = Some u"
    and own: "owns_rows ts' tx'"
  shows "si_inv ((set_tx tx' s)\<lparr>tabs := ts'\<rparr>)"
proof -
  have tmi: "tm_inv (tm s)" using inv by (simp add: si_inv_def)
  have os: "set (replace_tx tx' (si_open s)) = insert tx' (set (si_open s) - {tx})"
    using set_replace_tx [OF tmi tx same(1)] .
  have "owns_rows ts' x" if "x \<in> set (si_open s) - {tx}" for x
  proof (rule owns_rows_cong)
    show "owns_rows (tabs s) x" using inv that by (auto simp: si_inv_def)
    have "tx_id x \<noteq> tx_id tx" using tm_inv_ids [OF tmi _ tx] that by auto
    then show "writer (ts' tab) r = Some (tx_id x)" if "writer (tabs s tab) r = Some (tx_id x)" for tab r
      using others that by blast
  qed (auto simp: hist)
  moreover have "remembered ts' (replace_tx tx' (si_open s)) a" if "remembered (tabs s) (si_open s) a" for a
    using that by (rule remembered_mono) (use tx same in \<open>auto simp: os hist\<close>)
  moreover have "tx_id ` set (replace_tx tx' (si_open s)) = tx_id ` set (si_open s)"
    using tx same(1) by (auto simp: os)
  ultimately show ?thesis
    using inv tm_inv_replace [OF tmi tx same(1-4)] own ok tx same
    by (auto simp: si_inv_def set_tx_def os hist)
qed

lemma si_inv_append_mark:
  assumes inv: "si_inv s" and tx: "tx \<in> set (si_open s)"
    and m: "append_mark (tabs s) tx tab r = Inr (tx', ts')"
  shows "si_inv ((set_tx tx' s)\<lparr>tabs := ts'\<rparr>)"
proof -
  obtain rv where rv: "mark_row (tabs s tab) r (tx_id tx) (read_ts tx) = Inr rv"
    and tx': "tx' = tx\<lparr>modified_rows := modified_rows tx @ [(tab, r)]\<rparr>"
    and ts': "ts' = (tabs s)(tab := rv)"
    using m by (auto simp: append_mark_def split: sum.splits)
  have ok: "tabs_ok (tabs s)" using inv by (simp add: si_inv_def)
  note M = tbl.mark_ok [OF _ rv] tbl.mark_InrD [OF _ rv]
  have w: "written tx' = insert (tab, r) (written tx)"
    by (auto simp: tx' written_def bulk_rows_def)
  have "owns_rows (tabs s) tx" using inv tx by (simp add: si_inv_def)
  then have "owns_rows ts' tx'"
    using M ok unfolding owns_rows_def w by (auto simp: ts' tx' split: if_splits)
  then show ?thesis
    using M ok by (intro si_inv_mark [OF inv tx]) (auto simp: ts' tx')
qed

lemma si_inv_reserve:
  assumes inv: "si_inv s" and tx: "tx \<in> set (si_open s)"
    and fresh: "fresh_range s tab a (a + n)" and m: "reserve_rows (tabs s) tx tab a n = (tx', ts')"
  shows "si_inv ((set_tx tx' s)\<lparr>tabs := ts'\<rparr>)"
proof (cases "n = 0")
  case True
  then have eq: "tx' = tx" "ts' = tabs s" using m by (simp_all add: reserve_rows_def)
  have "tm_inv (tm s)" using inv by (simp add: si_inv_def)
  then have "(set_tx tx' s)\<lparr>tabs := ts'\<rparr> = s" using replace_tx_self tx by (simp add: set_tx_def eq)
  then show ?thesis using inv by simp
next
  case False
  have tx': "tx' = tx\<lparr>bulk_row_ranges := bulk_row_ranges tx @ [(tab, a, a + n)]\<rparr>"
    and ts': "ts' = (tabs s)(tab := mark_row_batch (tabs s tab) a (a + n) (tx_id tx))"
    using False m by (auto simp: reserve_rows_def)
  have ok: "tabs_ok (tabs s)" using inv by (simp add: si_inv_def)
  note M = mark_row_batch_view [OF table_okD, of "tabs s tab" a "a + n" "tx_id tx", unfolded set_row_range mem_Collect_eq]
  have w: "written tx' = written tx \<union> Pair tab ` {r. a \<le> r \<and> r < a + n}"
    by (auto simp: tx' written_def bulk_rows_def set_row_range)
  have "owns_rows (tabs s) tx" using inv tx by (simp add: si_inv_def)
  then have "owns_rows ts' tx'"
    using M ok fresh unfolding owns_rows_def w fresh_range_def by (auto simp: ts' tx' split: if_splits)
  moreover have "tabs_ok ts'" using ok M by (auto simp: ts' table_ok_def)
  ultimately show ?thesis
    using M ok fresh by (intro si_inv_mark [OF inv tx]) (auto simp: ts' tx' fresh_range_def)
qed

lemma premark_rows_view:
  assumes "table_ok rv" "premark_rows rv rows t ts = (rv', c)"
  shows "table_ok rv' \<and> history rv' = history rv \<and> (\<forall>r. writer rv' r = writer rv r \<or>
    writer rv r = None \<and> writer rv' r = Some t)"
  using assms
proof (induction rows arbitrary: rv)
  case Nil
  then show ?case by simp
next
  case (Cons r rows)
  show ?case
  proof (cases "mark_row rv r t ts")
    case (Inl x)
    then show ?thesis using Cons.prems by simp
  next
    case (Inr rv1)
    note M = tbl.mark_ok [OF Cons.prems(1) Inr] tbl.mark_InrD(1) [OF Cons.prems(1) Inr]
    have IH: "table_ok rv'" "history rv' = history rv"
      "writer rv' x = writer rv1 x \<or> writer rv1 x = None \<and> writer rv' x = Some t" for x
      using Cons.IH [of rv1] Cons.prems(2) Inr M by simp_all
    have "writer rv' x = writer rv x \<or> writer rv x = None \<and> writer rv' x = Some t" for x
      using IH(3) [of x] M by (cases "x = r") auto
    with IH show ?thesis by blast
  qed
qed

lemma si_inv_premark:
  assumes inv: "si_inv s" and tx: "tx \<in> set (si_open s)"
    and m: "premark_rows (tabs s tab) rows (tx_id tx) (read_ts tx) = (rv, c)"
  shows "si_inv (s\<lparr>tabs := (tabs s)(tab := rv)\<rparr>)"
proof -
  have tmi: "tm_inv (tm s)" and ok: "tabs_ok (tabs s)" using inv by (auto simp: si_inv_def)
  note P = premark_rows_view [OF _ m]
  have own: "owns_rows ((tabs s)(tab := rv)) tx"
  proof (rule owns_rows_cong)
    show "owns_rows (tabs s) tx" using inv tx by (simp add: si_inv_def)
    show "writer (((tabs s)(tab := rv)) tab') r = Some (tx_id tx)"
      if "writer (tabs s tab') r = Some (tx_id tx)" for tab' r
      using P ok that by (auto dest: spec [of _ r])
  qed (use P ok in \<open>auto split: if_splits\<close>)
  have "si_inv ((set_tx tx s)\<lparr>tabs := (tabs s)(tab := rv)\<rparr>)"
  proof (rule si_inv_mark [OF inv tx])
    show "writer (((tabs s)(tab := rv)) tab') r = Some u" if "writer (tabs s tab') r = Some u" for tab' r u
      using P ok that by (auto dest: spec [of _ r])
  qed (use P ok own in auto)
  then show ?thesis using replace_tx_self [OF tmi tx] by (simp add: set_tx_def)
qed

lemma set_remove_open: "tm_inv u \<Longrightarrow> set (remove1 tx (open_txs u)) = set (open_txs u) - {tx}"
  by (simp add: tm_inv_def distinct_map)

lemma finish_frame:
  "finish_commit m tx = (tx', m') \<Longrightarrow> current_ts m' = current_ts m"
  "finish_rollback m tx = (tx', m') \<Longrightarrow> current_ts m' = current_ts m"
  "drop_transaction m tx = (tx', m') \<Longrightarrow> current_ts m' = current_ts m"
  by (auto simp: finish_commit_def finish_rollback_def drop_transaction_def Let_def split: if_splits)

text \<open>A transaction leaves without committing rows: histories and the marks of the others stay.\<close>

lemma si_inv_close:
  assumes inv: "si_inv s" and tx: "tx \<in> set (si_open s)"
    and lock: "commit_lock s \<noteq> Some (tx_id tx)"
    and m: "tm_step (tm s) \<lparr>mgr = m, open_txs = remove1 tx (si_open s)\<rparr>" "current_ts m = current_ts (si_mgr s)"
    and ok: "tabs_ok ts'" and hist: "\<And>tab. history (ts' tab) = history (tabs s tab)"
    and others: "\<And>tab r u. writer (tabs s tab) r = Some u \<Longrightarrow> u \<noteq> tx_id tx \<Longrightarrow> writer (ts' tab) r = Some u"
  shows "si_inv ((close_tx tx m s)\<lparr>tabs := ts'\<rparr>)"
proof -
  have tmi: "tm_inv (tm s)" using inv by (simp add: si_inv_def)
  note os = set_remove_open [OF tmi, of tx]
  have "owns_rows ts' x" if "x \<in> set (si_open s) - {tx}" for x
  proof (rule owns_rows_cong)
    show "owns_rows (tabs s) x" using inv that by (auto simp: si_inv_def)
    have "tx_id x \<noteq> tx_id tx" using tm_inv_ids [OF tmi _ tx] that by auto
    then show "writer (ts' tab) r = Some (tx_id x)" if "writer (tabs s tab) r = Some (tx_id x)" for tab r
      using others that by blast
  qed (auto simp: hist)
  moreover have "remembered ts' (remove1 tx (si_open s)) a" if "remembered (tabs s) (si_open s) a" for a
    using that by (rule remembered_mono) (auto simp: os hist)
  ultimately show ?thesis
    using inv tm_inv_step [OF m(1) tmi] m(2) ok lock by (auto simp: si_inv_def close_tx_def os hist)
qed

lemma si_inv_rollback:
  assumes inv: "si_inv s" and tx: "tx \<in> set (si_open s)" and lock: "commit_lock s \<noteq> Some (tx_id tx)"
    and m: "finish_rollback (si_mgr s) tx = (tx', m)"
  shows "si_inv ((close_tx tx m s)\<lparr>tabs := rollback_tx_rows tx (tabs s)\<rparr>)"
proof (rule si_inv_close [OF inv tx lock tm_rollback [OF tx m] finish_frame(2) [OF m]])
  have ok: "tabs_ok (tabs s)" and own: "owns_rows (tabs s) tx" using inv tx by (auto simp: si_inv_def)
  note rb = rollback_tx_rows_eq [OF ok, of tx] and view = rollback_rows_view [OF ok]
  show "tabs_ok (rollback_tx_rows tx (tabs s))" unfolding rb by (rule rollback_rows_ok [OF ok])
  show "history (rollback_tx_rows tx (tabs s) tab) = history (tabs s tab)" for tab
    using view unfolding rb by (simp add: fun_eq_iff del: fold_append)
  show "writer (rollback_tx_rows tx (tabs s) tab) r = Some u"
    if "writer (tabs s tab) r = Some u" "u \<noteq> tx_id tx" for tab r u
    using view [of _ tab r] that owns_rowsD(1) [OF own, of tab r] unfolding rb
    by (auto simp: written_def simp del: fold_append)
qed

lemma si_inv_begin:
  assumes inv: "si_inv s" and b: "begin_at (si_mgr s) ro snap = Ok (tx, m)" and ro: "ro \<or> snap = None"
  shows "si_inv (s\<lparr>tm := \<lparr>mgr = m, open_txs = tx # si_open s\<rparr>\<rparr>)"
proof -
  have tmi: "tm_inv (tm s)" using inv by (simp add: si_inv_def)
  note B = begin_at_OkD [OF b]
  have w: "written tx = {}" using B(10,11) by (simp add: written_def bulk_rows_def)
  then have "owns_rows (tabs s) tx" by (simp add: owns_rows_def)
  moreover have rts: "\<not> is_read_only tx \<Longrightarrow> read_ts tx = current_ts (si_mgr s)" using ro B(3,5) by auto
  moreover have "remembered (tabs s) (tx # si_open s) a"
    if "remembered (tabs s) (si_open s) a" "commit_ts a \<le> current_ts (si_mgr s)" for a
    using that(1) by (rule remembered_mono) (use that(2) rts in auto)
  moreover have "tx_id x < tx_id tx" if "x \<in> set (si_open s)" for x
    using B(2) tmi that by (simp add: tm_inv_def)
  then have "tx_id tx \<notin> tx_id ` set (si_open s)" by (metis imageE less_irrefl)
  then have "commit_lock s \<noteq> Some (tx_id tx)" using inv by (auto simp: si_inv_def)
  ultimately show ?thesis
    using inv tm_inv_begin [OF tmi b] B(7) by (auto simp: si_inv_def)
qed

lemma si_inv_take_ts:
  assumes inv: "si_inv s" and tx: "tx \<in> set (si_open s)" "\<not> is_read_only tx"
    and lock: "commit_lock s = None" and n: "next_commit_ts (si_mgr s) = Ok (cts, m)"
  defines "s1 \<equiv> set_tx (tx\<lparr>commit_ts := cts\<rparr>) s"
  shows "si_inv (s1\<lparr>tm := (tm s1)\<lparr>mgr := m\<rparr>, commit_lock := Some (tx_id tx)\<rparr>)"
proof -
  let ?tx = "tx\<lparr>commit_ts := cts\<rparr>"
  have tmi: "tm_inv (tm s)" using inv by (simp add: si_inv_def)
  have cts: "cts = current_ts (si_mgr s) + 1" "m = (si_mgr s)\<lparr>current_ts := cts\<rparr>"
    and less: "current_ts (si_mgr s) < cts"
    using n less_plus_one [of "current_ts (si_mgr s)"] by (auto simp: next_commit_ts_def split: if_splits)
  have os: "set (replace_tx ?tx (si_open s)) = insert ?tx (set (si_open s) - {tx})"
    using set_replace_tx [OF tmi tx(1), of ?tx] by simp
  have "owns_rows (tabs s) ?tx" using inv tx by (auto simp: si_inv_def owns_rows_def written_def bulk_rows_def)
  moreover have "remembered (tabs s) (replace_tx ?tx (si_open s)) a" if "remembered (tabs s) (si_open s) a" for a
    using that by (rule remembered_mono) (use tx in \<open>auto simp: os\<close>)
  moreover have "tm_inv ((tm s)\<lparr>open_txs := replace_tx ?tx (si_open s), mgr := m\<rparr>)"
    using tm_inv_replace [OF tmi tx(1), of ?tx] by (simp add: tm_inv_def cts)
  moreover have le: "x \<le> cts" if "x \<le> current_ts (si_mgr s)" for x using that less by simp
  moreover have "tx_id tx = tx_id x \<longleftrightarrow> x = tx" if "x \<in> set (si_open s)" for x
    using tm_inv_ids [OF tmi that tx(1)] by auto
  ultimately show ?thesis
    using inv tx less unfolding s1_def
    by (auto simp: si_inv_def set_tx_def os cts(2) intro: le order.strict_trans1)
qed

lemma si_inv_publish:
  assumes inv: "si_inv s" and tx: "tx \<in> set (si_open s)" and lock: "commit_lock s = Some (tx_id tx)"
    and m: "finish_commit (si_mgr s) tx = (tx', m)"
  shows "si_inv ((close_tx tx m s)\<lparr>tabs := commit_tx_rows tx (commit_ts tx) (tabs s),
           commit_lock := None, si_log := tx' # si_log s\<rparr>)"
proof -
  let ?cts = "commit_ts tx" and ?ts = "commit_tx_rows tx (commit_ts tx) (tabs s)"
  have tmi: "tm_inv (tm s)" and ok: "tabs_ok (tabs s)" and own: "owns_rows (tabs s) tx"
    using inv tx by (auto simp: si_inv_def)
  have ct: "\<not> is_read_only tx" "read_ts tx < ?cts" "?cts \<le> current_ts (si_mgr s)"
    "\<And>a. a \<in> set (si_log s) \<Longrightarrow> commit_ts a < ?cts"
    and clock: "\<And>tab r e. history (tabs s tab) r = Some e \<Longrightarrow> last_ts e \<le> current_ts (si_mgr s)"
    and mem: "\<And>a. a \<in> set (si_log s) \<Longrightarrow> remembered (tabs s) (si_open s) a"
    using inv tx lock by (auto simp: si_inv_def)
  have tx': "written tx' = written tx" "commit_ts tx' = ?cts" "read_ts tx' = read_ts tx"
    using m by (auto simp: finish_commit_def Let_def written_def bulk_rows_def)
  note os = set_remove_open [OF tmi, of tx] and cm = finish_frame(1) [OF m]
  have wr: "set (bulk_rows tx @ modified_rows tx) = written tx" by (auto simp: written_def)
  note view = commit_rows_view [OF ok, of _ _ "bulk_rows tx @ modified_rows tx" ?cts,
      folded commit_tx_rows_eq [OF ok], unfolded wr]
  have in_w: "writer (?ts tab) r = None" "\<exists>e. history (?ts tab) r = Some e \<and> ?cts \<le> last_ts e
      \<and> last_ts e \<le> current_ts (si_mgr s)" if "(tab, r) \<in> written tx" for tab r
    using view [of tab r] that ct(3) clock [of tab r] by auto
  have out_w: "writer (?ts tab) r = writer (tabs s tab) r" "history (?ts tab) r = history (tabs s tab) r"
    if "(tab, r) \<notin> written tx" for tab r
    using view [of tab r] that by auto
  have okc: "tabs_ok ?ts" unfolding commit_tx_rows_eq [OF ok] by (rule commit_rows_ok [OF ok])
  have "owns_rows ?ts x" if x: "x \<in> set (si_open s) - {tx}" for x
  proof (rule owns_rows_cong)
    show "owns_rows (tabs s) x" using inv x by (auto simp: si_inv_def)
    have "tx_id x \<noteq> tx_id tx" using tm_inv_ids [OF tmi _ tx] x by auto
    then have notin: "(tab, r) \<notin> written tx" if "writer (tabs s tab) r = Some (tx_id x)" for tab r
      using that owns_rowsD(1) [OF own, of tab r] by auto
    show "writer (?ts tab) r = Some (tx_id x)" if "writer (tabs s tab) r = Some (tx_id x)" for tab r
      using out_w [OF notin [OF that]] that by simp
    show "\<exists>e0. history (tabs s tab) r = Some e0 \<and> last_ts e \<le> last_ts e0"
      if "writer (tabs s tab) r = Some (tx_id x)" "history (?ts tab) r = Some e" for tab r e
      using out_w [OF notin [OF that(1)]] that(2) by (intro exI [of _ e]) simp
  qed
  moreover have "remembered ?ts (remove1 tx (si_open s)) a" if a: "a \<in> set (si_log s)" for a
    using mem [OF a]
  proof (rule remembered_mono)
    fix tab r e assume "history (tabs s tab) r = Some e" "commit_ts a \<le> last_ts e"
    then show "(\<exists>e'. history (?ts tab) r = Some e' \<and> commit_ts a \<le> last_ts e')
        \<or> (\<forall>tx \<in> set (remove1 tx (si_open s)). \<not> is_read_only tx \<longrightarrow> commit_ts a \<le> read_ts tx)"
      using in_w [of tab r] out_w [of tab r] ct(4) [OF a] by (cases "(tab, r) \<in> written tx") fastforce+
  qed (auto simp: os)
  moreover have "remembered ?ts (remove1 tx (si_open s)) tx'"
    using in_w unfolding remembered_def tx' by blast
  moreover have "last_ts e \<le> current_ts (si_mgr s)" if "history (?ts tab) r = Some e" for tab r e
    using in_w(2) [of tab r] out_w(2) [of tab r] clock that by (cases "(tab, r) \<in> written tx") auto
  moreover have "si_order tx' a" if a: "a \<in> set (si_log s)" for a
  proof -
    have "commit_ts a \<le> read_ts tx" if "(tab, r) \<in> written a" "(tab, r) \<in> written tx" for tab r
      using mem [OF a] that owns_rowsD(2) [OF own that(2)] tx ct(1) order.trans
      unfolding remembered_def by fastforce
    then show ?thesis using ct(2,4) a unfolding si_order_def tx' by auto
  qed
  ultimately show ?thesis
    using inv tm_inv_step [OF tm_commit [OF tx m] tmi] okc ct(3) tx' cm
    by (auto simp: si_inv_def close_tx_def os)
qed

lemma vacuum_history_last:
  assumes "table_ok rv"
  shows "history (snd (vacuum rv m)) r = Some e \<Longrightarrow> \<exists>e0. history rv r = Some e0 \<and> last_ts e = last_ts e0"
    and "history rv r = Some e0 \<Longrightarrow> \<not> last_ts e0 < m \<Longrightarrow>
           \<exists>e. history (snd (vacuum rv m)) r = Some e \<and> last_ts e = last_ts e0"
  using tbl.vac_ok [OF assms, of m]
  by (auto simp: vacuum_entry_def bind_eq_Some_conv split: if_splits)

lemma si_inv_vacuum:
  assumes inv: "si_inv s"
  shows "si_inv (s\<lparr>tabs := (tabs s)(tab := snd (vacuum (tabs s tab) (get_min_active_read_ts (si_mgr s))))\<rparr>)"
proof -
  let ?m = "get_min_active_read_ts (si_mgr s)"
  let ?ts = "(tabs s)(tab := snd (vacuum (tabs s tab) ?m))"
  have ok: "tabs_ok (tabs s)" and tmi: "tm_inv (tm s)" using inv by (auto simp: si_inv_def)
  note V = tbl.vac_ok [OF spec [OF ok], of tab ?m] vacuum_history_last [where rv = "tabs s tab" and m = ?m, OF spec [OF ok]]
  have wr: "writer (?ts t) = writer (tabs s t)" for t using V(1) by auto
  have h1: "\<exists>e0. history (tabs s t) r = Some e0 \<and> last_ts e = last_ts e0" if "history (?ts t) r = Some e" for t r e
    using V(2) that by (cases "t = tab") auto
  have min: "?m \<le> read_ts x" if "x \<in> set (si_open s)" for x
  proof -
    have "dom (active_read_ts (si_mgr s)) = read_ts ` set (si_open s)" using tmi by (simp add: tm_inv_def)
    then show ?thesis using that by (auto simp: get_min_active_read_ts_def)
  qed
  have "owns_rows ?ts x" if x: "x \<in> set (si_open s)" for x
  proof (rule owns_rows_cong)
    show "owns_rows (tabs s) x" using inv x by (auto simp: si_inv_def)
  qed (use wr h1 in fastforce)+
  moreover have "remembered ?ts (si_open s) a" if "remembered (tabs s) (si_open s) a" for a
    using that
  proof (rule remembered_mono)
    fix t r e assume h: "history (tabs s t) r = Some e" "commit_ts a \<le> last_ts e"
    show "(\<exists>e'. history (?ts t) r = Some e' \<and> commit_ts a \<le> last_ts e')
        \<or> (\<forall>tx \<in> set (si_open s). \<not> is_read_only tx \<longrightarrow> commit_ts a \<le> read_ts tx)"
    proof (cases "t = tab \<and> last_ts e < ?m")
      case True
      then have "commit_ts a \<le> ?m" using h(2) by (meson le_less_trans less_imp_le)
      then show ?thesis using min order.trans by blast
    next
      case False
      then show ?thesis using h by (cases "t = tab") (auto dest!: V(3))
    qed
  qed auto
  moreover have "tabs_ok ?ts" using ok V(1) by simp
  moreover have "last_ts e \<le> current_ts (si_mgr s)" if "history (?ts t) r = Some e" for t r e
    using h1 [OF that] inv by (auto simp: si_inv_def)
  ultimately show ?thesis using inv unfolding si_inv_def by simp
qed

lemma si_inv_step: "si_step s s' \<Longrightarrow> si_inv s \<Longrightarrow> si_inv s'"
proof (induction rule: si_step.induct)
  case (si_begin s ro snap tx m)
  then show ?case using si_inv_begin by blast
next
  case (si_write tx s tab r tx' ts')
  then show ?case using si_inv_append_mark by blast
next
  case (si_reserve tx s tab a n tx' ts')
  then show ?case using si_inv_reserve by blast
next
  case (si_premark tx s tab rows rv c)
  then show ?case using si_inv_premark by blast
next
  case (si_take_ts tx s cts m)
  then show ?case using si_inv_take_ts [of s tx cts m] by (simp add: Let_def)
next
  case (si_commit_fails s t)
  then show ?case by (auto simp: si_inv_def)
next
  case (si_publish tx s tx' m)
  then show ?case using si_inv_publish by blast
next
  case (si_commit_read tx s tx' m)
  moreover from si_commit_read have "commit_lock s \<noteq> Some (tx_id tx)" "tabs_ok (tabs s)"
    by (auto simp: si_inv_def)
  ultimately have "si_inv ((close_tx tx m s)\<lparr>tabs := tabs s\<rparr>)"
    by (intro si_inv_close tm_commit finish_frame(1)) auto
  then show ?case by (simp add: close_tx_def)
next
  case (si_rollback tx s tx' m)
  then show ?case using si_inv_rollback by blast
next
  case (si_drop tx s tx' m)
  moreover from si_drop have "tabs_ok (tabs s)" by (simp add: si_inv_def)
  ultimately have "si_inv ((close_tx tx m s)\<lparr>tabs := tabs s\<rparr>)"
    by (intro si_inv_close tm_drop finish_frame(3)) auto
  then show ?case by (simp add: close_tx_def)
next
  case (si_vacuum s tab)
  then show ?case using si_inv_vacuum by blast
qed

lemma si_reachable_inv: "si_reachable s \<Longrightarrow> si_inv s"
proof (induction rule: si_reachable.induct)
  case si_reach_init
  have "tm_inv tm_init" by (rule tm_reachable_inv [OF tm_reach_init])
  then show ?case by (simp add: si_inv_def si_init_def table_ok_new tm_init_def)
next
  case (si_reach_step s s')
  then show ?case using si_inv_step by blast
qed

section \<open>Runs for the witnesses\<close>

lemma begin_writer:
  assumes "next_tx_id m \<noteq> - 1"
  shows "\<exists>tx m'. begin_at m False None = Ok (tx, m')"
  using assms by (simp add: begin_at_def Let_def)

lemma set_tx_front:
  assumes "tm_inv (tm s)" "si_open s = tx # os" "tx_id tx' = tx_id tx"
  shows "si_open (set_tx tx' s) = tx' # os"
proof -
  have "tx_id tx \<notin> tx_id ` set os" using assms(1,2) by (simp add: tm_inv_def)
  then have "\<forall>x \<in> set os. tx_id x \<noteq> tx_id tx" by (metis imageI)
  then have "map (\<lambda>x. if tx_id x = tx_id tx' then tx' else x) os = os"
    using assms(3) by (auto intro!: map_idI)
  then show ?thesis using assms(2,3) by (simp add: set_tx_def replace_tx_def)
qed

text \<open>A writer begins, writes one free row and takes its commit timestamp.\<close>

lemma run_to_take_ts:
  assumes r: "si_reachable s" and lock: "commit_lock s = None" and w: "writer (tabs s tab) r = None"
    and room: "next_tx_id (si_mgr s) \<noteq> - 1" "current_ts (si_mgr s) \<noteq> - 1"
  shows "\<exists>s' tx. si_reachable s' \<and> si_open s' = tx # si_open s \<and> commit_lock s' = Some (tx_id tx)
    \<and> tx_id tx = next_tx_id (si_mgr s) \<and> read_ts tx = current_ts (si_mgr s) \<and> \<not> is_read_only tx
    \<and> commit_ts tx = current_ts (si_mgr s) + 1 \<and> written tx = {(tab, r)}
    \<and> writer (tabs s' tab) r = Some (tx_id tx) \<and> history (tabs s' tab) r = history (tabs s tab) r
    \<and> next_tx_id (si_mgr s') = next_tx_id (si_mgr s) + 1 \<and> current_ts (si_mgr s') = current_ts (si_mgr s) + 1
    \<and> si_log s' = si_log s"
proof -
  note inv = si_reachable_inv [OF r]
  obtain tx m where b: "begin_at (si_mgr s) False None = Ok (tx, m)" using begin_writer [OF room(1)] by blast
  note B = begin_at_OkD [OF b]
  define s1 where "s1 = s\<lparr>tm := \<lparr>mgr = m, open_txs = tx # si_open s\<rparr>\<rparr>"
  have r1: "si_reachable s1" using si_reach_step [OF r si_begin [OF b]] by (simp add: s1_def)
  have ok: "table_ok (tabs s tab)" using inv by (simp add: si_inv_def)
  have "\<not> read_ts tx < last_ts e" if "history (tabs s tab) r = Some e" for e
    using inv that B(5) by (auto simp: si_inv_def not_less)
  then obtain rv where rv: "mark_row (tabs s tab) r (tx_id tx) (read_ts tx) = Inr rv"
    using tbl.mark_Inr_iff [OF ok, of r "tx_id tx" "read_ts tx"] w
    by (auto simp: conflict_of_def split: option.splits)
  define tx1 where "tx1 = tx\<lparr>modified_rows := modified_rows tx @ [(tab, r)]\<rparr>"
  define s2 where "s2 = (set_tx tx1 s1)\<lparr>tabs := (tabs s)(tab := rv)\<rparr>"
  have "append_mark (tabs s1) tx tab r = Inr (tx1, (tabs s)(tab := rv))"
    by (simp add: append_mark_def s1_def rv tx1_def)
  moreover have "commit_lock s1 \<noteq> Some (tx_id tx)" by (simp add: s1_def lock)
  ultimately have r2: "si_reachable s2"
    unfolding s2_def using B(3) by (intro si_reach_step [OF r1] si_write) (auto simp: s1_def)
  have open2: "si_open s2 = tx1 # si_open s" "si_mgr s2 = m"
    using set_tx_front [of s1 tx "si_open s" tx1] si_reachable_inv [OF r1]
    by (simp_all add: s2_def s1_def tx1_def si_inv_def set_tx_def)
  define cts where "cts = current_ts m + 1"
  have n: "next_commit_ts (si_mgr s2) = Ok (cts, m\<lparr>current_ts := cts\<rparr>)"
    using room(2) B(7) by (simp add: next_commit_ts_def open2 cts_def)
  define tx2 where "tx2 = tx1\<lparr>commit_ts := cts\<rparr>"
  define s3 where "s3 = (let s = set_tx tx2 s2
      in s\<lparr>tm := (tm s)\<lparr>mgr := m\<lparr>current_ts := cts\<rparr>\<rparr>, commit_lock := Some (tx_id tx1)\<rparr>)"
  have "si_step s2 s3"
    unfolding s3_def tx2_def using B(3) n lock
    by (intro si_take_ts) (auto simp: open2 tx1_def, auto simp: s2_def set_tx_def s1_def)
  then have r3: "si_reachable s3" by (rule si_reach_step [OF r2])
  have "si_open s3 = tx2 # si_open s"
    using set_tx_front [of s2 tx1 "si_open s" tx2] si_reachable_inv [OF r2] open2
    by (simp add: s3_def tx2_def si_inv_def Let_def)
  moreover have "written tx2 = {(tab, r)}"
    using B(10,11) by (simp add: written_def bulk_rows_def tx2_def tx1_def)
  moreover have "tabs s3 = (tabs s)(tab := rv)" "si_mgr s3 = m\<lparr>current_ts := cts\<rparr>"
    "commit_lock s3 = Some (tx_id tx)" "si_log s3 = si_log s"
    by (simp_all add: s3_def s2_def s1_def set_tx_def Let_def tx1_def)
  ultimately show ?thesis
    using r3 tbl.mark_ok [OF ok rv] B
    by (intro exI [of _ s3] exI [of _ tx2]) (simp add: tx2_def tx1_def cts_def)
qed

lemma run_publish:
  assumes r: "si_reachable s" and tx: "si_open s = tx # os" and lock: "commit_lock s = Some (tx_id tx)"
  shows "\<exists>s' tx'. si_reachable s' \<and> si_step s s' \<and> si_open s' = os \<and> commit_lock s' = None
    \<and> si_log s' = tx' # si_log s \<and> written tx' = written tx
    \<and> tabs s' = commit_tx_rows tx (commit_ts tx) (tabs s)
    \<and> next_tx_id (si_mgr s') = next_tx_id (si_mgr s) \<and> current_ts (si_mgr s') = current_ts (si_mgr s)"
proof -
  obtain tx' m where f: "finish_commit (si_mgr s) tx = (tx', m)" by (cases "finish_commit (si_mgr s) tx")
  have tx': "written tx' = written tx" "next_tx_id m = next_tx_id (si_mgr s)"
    using f by (auto simp: finish_commit_def Let_def written_def bulk_rows_def)
  have "tx \<in> set (si_open s)" by (simp add: tx)
  note st = si_publish [OF this lock f]
  show ?thesis
    using si_reach_step [OF r st] st tx tx' finish_frame(1) [OF f]
    by (intro exI [of _ "(close_tx tx m s)\<lparr>tabs := commit_tx_rows tx (commit_ts tx) (tabs s),
          commit_lock := None, si_log := tx' # si_log s\<rparr>"] exI [of _ tx'])
      (simp add: close_tx_def)
qed

lemma commit_tx_rows_unlocks:
  "tabs_ok ts \<Longrightarrow> (tab, r) \<in> written tx \<Longrightarrow> writer (commit_tx_rows tx cts ts tab) r = None"
  using commit_rows_view [of ts tab r "bulk_rows tx @ modified_rows tx" cts]
  by (simp add: commit_tx_rows_eq written_def Un_commute del: fold_append)

text \<open>A whole transaction that writes one free row.\<close>

lemma run_one_tx:
  assumes r: "si_reachable s" and lock: "commit_lock s = None" and w: "writer (tabs s tab) r = None"
    and room: "next_tx_id (si_mgr s) \<noteq> - 1" "current_ts (si_mgr s) \<noteq> - 1"
  shows "\<exists>s' tx. si_reachable s' \<and> si_open s' = si_open s \<and> commit_lock s' = None
    \<and> writer (tabs s' tab) r = None \<and> si_log s' = tx # si_log s \<and> written tx = {(tab, r)}
    \<and> next_tx_id (si_mgr s') = next_tx_id (si_mgr s) + 1 \<and> current_ts (si_mgr s') = current_ts (si_mgr s) + 1"
proof -
  obtain s1 tx where s1: "si_reachable s1" "si_open s1 = tx # si_open s" "commit_lock s1 = Some (tx_id tx)"
    "written tx = {(tab, r)}" "next_tx_id (si_mgr s1) = next_tx_id (si_mgr s) + 1"
    "current_ts (si_mgr s1) = current_ts (si_mgr s) + 1" "si_log s1 = si_log s"
    using run_to_take_ts [OF assms] by blast
  have "tabs_ok (tabs s1)" using si_reachable_inv [OF s1(1)] by (simp add: si_inv_def)
  then show ?thesis
    using run_publish [OF s1(1-3)] s1 commit_tx_rows_unlocks [of "tabs s1" tab r tx "commit_ts tx"] by auto
qed

section \<open>Properties\<close>


lemma si_init_facts:
  "si_reachable si_init" "commit_lock si_init = None" "writer (tabs si_init tab) r = None"
  "next_tx_id (si_mgr si_init) = 1" "current_ts (si_mgr si_init) = 1" "si_open si_init = []"
  "history (tabs si_init tab) r = None"
  using si_reach_init by (simp_all add: si_init_def tm_init_def new_txn_manager_def)


lemma commit_rows_first:
  assumes "tabs_ok ts" "rts < cts" "(tab, r) \<in> set rows"
  shows "\<exists>e. history (commit_rows cts rows ts tab) r = Some e
    \<and> (first_ts e \<le> rts \<longleftrightarrow> (\<exists>e0. history (ts tab) r = Some e0 \<and> first_ts e0 \<le> rts))"
  using assms(1,3)
proof (induction rows arbitrary: ts)
  case Nil
  then show ?case by simp
next
  case (Cons p rows)
  obtain tab' r' where p: "p = (tab', r')" by (cases p)
  let ?ts = "ts(tab' := commit_row (ts tab') r' cts)"
  have ok: "tabs_ok ?ts" using Cons.prems by (auto simp: tbl.commit_ok)
  have h: "history (?ts tab) r = (if (tab, r) = (tab', r')
      then Some (merge_commit cts (history (ts tab) r)) else history (ts tab) r)"
    using tbl.commit_ok [of "ts tab'" r' cts] Cons.prems by auto
  have m: "first_ts (merge_commit cts e) \<le> rts \<longleftrightarrow> (\<exists>e0. e = Some e0 \<and> first_ts e0 \<le> rts)" for e
    using assms(2) by (auto simp: merge_commit_def Let_def min_le_iff_disj not_le split: option.splits)
  show ?case
  proof (cases "(tab, r) \<in> set rows")
    case True
    then show ?thesis using Cons.IH [OF ok True, unfolded h] m by (auto simp: p simp del: fun_upd_apply split: if_splits)
  next
    case False
    with Cons.prems p have eq: "(tab, r) = (tab', r')" by auto
    then have "history (commit_rows cts rows ?ts tab) r = Some (merge_commit cts (history (ts tab) r))"
      using commit_rows_view [OF ok, of tab r rows cts] False unfolding h by simp
    then show ?thesis using m [of "history (ts tab) r"] by (simp add: p del: fun_upd_apply)
  qed
qed

text \<open>
  C19 [publish_preserves_snapshots]. When a commit publishes its rows, no other open transaction whose
  snapshot is older than the commit timestamp sees any row appear or disappear.
\<close>

theorem publish_preserves_snapshots:
  assumes r: "si_reachable s" and tx: "tx \<in> set (si_open s)" "commit_lock s = Some (tx_id tx)"
    and x: "x \<in> set (si_open s)" "x \<noteq> tx" "read_ts x < commit_ts tx"
  shows "is_visible (commit_tx_rows tx (commit_ts tx) (tabs s) tab) r (tx_id x) (read_ts x)
    = is_visible (tabs s tab) r (tx_id x) (read_ts x)"
proof -
  note inv = si_reachable_inv [OF r]
  have ok: "tabs_ok (tabs s)" and own: "owns_rows (tabs s) tx" and tmi: "tm_inv (tm s)"
    using inv tx by (auto simp: si_inv_def)
  let ?rows = "bulk_rows tx @ modified_rows tx"
  have ok': "table_ok (commit_rows (commit_ts tx) ?rows (tabs s) tab)" using commit_rows_ok [OF ok] by blast
  note view = commit_rows_view [OF ok, of tab r ?rows "commit_ts tx"]
  show ?thesis
  proof (cases "(tab, r) \<in> set ?rows")
    case True
    then have "writer (tabs s tab) r = Some (tx_id tx)" using owns_rowsD(1) [OF own] by (auto simp: written_def)
    moreover have "tx_id tx \<noteq> tx_id x" using tm_inv_ids [OF tmi x(1) tx(1)] x(2) by auto
    ultimately show ?thesis
      using commit_rows_first [OF ok x(3) True] view True ok ok'
      by (auto simp: commit_tx_rows_eq [OF ok] tbl.visible_iff row_visible_def simp del: fold_append
          split: option.splits)
  next
    case False
    then show ?thesis
      using view ok ok' by (simp add: commit_tx_rows_eq [OF ok] tbl.visible_iff del: fold_append)
  qed
qed

theorem publish_preserves_snapshots_witness:
  "\<exists>s tx x. si_reachable s \<and> tx \<in> set (si_open s) \<and> x \<in> set (si_open s) \<and> (0, 7) \<in> written tx
     \<and> is_visible (commit_tx_rows tx (commit_ts tx) (tabs s) 0) 7 (tx_id x) (read_ts x)
         = is_visible (tabs s 0) 7 (tx_id x) (read_ts x)"
proof -
  obtain x m where b: "begin_at (si_mgr si_init) False None = Ok (x, m)"
    using begin_writer [of "si_mgr si_init"] si_init_facts(4) by auto
  note B = begin_at_OkD [OF b]
  define s0 where "s0 = si_init\<lparr>tm := \<lparr>mgr = m, open_txs = x # si_open si_init\<rparr>\<rparr>"
  have r0: "si_reachable s0" using si_reach_step [OF si_init_facts(1) si_begin [OF b]] by (simp add: s0_def)
  have s0: "commit_lock s0 = None" "writer (tabs s0 0) 7 = None" "si_open s0 = [x]"
    "next_tx_id (si_mgr s0) = 2" "current_ts (si_mgr s0) = 1"
    using si_init_facts B by (simp_all add: s0_def)
  obtain s1 tx where s1: "si_reachable s1" "si_open s1 = [tx, x]" "commit_lock s1 = Some (tx_id tx)"
    "tx_id tx = 2" "commit_ts tx = 2" "written tx = {(0, 7)}"
    using run_to_take_ts [OF r0 s0(1,2)] s0 by auto
  have x: "tx_id x = 1" "read_ts x = 1" using B si_init_facts by simp_all
  then have "x \<noteq> tx" using s1(4) by auto
  then show ?thesis
    using publish_preserves_snapshots [OF s1(1) _ s1(3), of x 0 7] s1 x
    by (intro exI [of _ s1] exI [of _ tx] exI [of _ x]) (simp add: word_less_nat_alt)
qed


text \<open>
  C32 [dropped_writer_blocks_rows]. Dropping a writer that was neither committed nor rolled back removes it
  from the manager and leaves its row marks behind: every other transaction, whatever its snapshot, is
  refused the rows it wrote.
\<close>

theorem dropped_writer_blocks_rows:
  assumes r: "si_reachable s" and tx: "tx \<in> set (si_open s)" "\<not> is_read_only tx" "(tab, r) \<in> written tx"
    and d: "drop_transaction (si_mgr s) tx = (tx', m)"
  shows "tx_id tx \<notin> active_tx_ids (si_mgr (close_tx tx m s))
    \<and> (\<forall>u ts. u \<noteq> tx_id tx \<longrightarrow>
         mark_row (tabs (close_tx tx m s) tab) r u ts = Inl (ActiveConflict r (tx_id tx)))"
proof -
  note inv = si_reachable_inv [OF r]
  have "\<not> finalized tx" using inv tx by (auto simp: si_inv_def tm_inv_def)
  then have "tx_id tx \<notin> active_tx_ids m" using d tx(2) by (auto simp: drop_transaction_def Let_def)
  moreover have "writer (tabs s tab) r = Some (tx_id tx)" "table_ok (tabs s tab)"
    using inv tx owns_rowsD(1) by (auto simp: si_inv_def)
  ultimately show ?thesis by (simp add: close_tx_def tbl.mark_conflict conflict_of_def)
qed

theorem dropped_writer_blocks_rows_witness:
  "\<exists>s tx tx' m. si_reachable s \<and> tx \<in> set (si_open s) \<and> drop_transaction (si_mgr s) tx = (tx', m)
     \<and> si_open (close_tx tx m s) = []
     \<and> mark_row (tabs (close_tx tx m s) 0) 7 9 100 = Inl (ActiveConflict 7 1)"
proof -
  obtain s1 tx where s1: "si_reachable s1" "si_open s1 = [tx]" "tx_id tx = 1" "\<not> is_read_only tx"
    "written tx = {(0, 7)}"
    using run_to_take_ts [OF si_init_facts(1-3), of 0 7] si_init_facts by auto
  obtain tx' m where d: "drop_transaction (si_mgr s1) tx = (tx', m)" by (cases "drop_transaction (si_mgr s1) tx")
  have "mark_row (tabs (close_tx tx m s1) 0) 7 9 100 = Inl (ActiveConflict 7 1)"
    using dropped_writer_blocks_rows [OF s1(1) _ s1(4) _ d, of 0 7] s1 by simp
  then show ?thesis
    using s1 d by (intro exI [of _ s1] exI [of _ tx] exI [of _ tx'] exI [of _ m]) (simp add: close_tx_def)
qed





end
