(* ===== verification/Buffer_Pool.thy ===== *)
theory Buffer_Pool
  imports Txn_Manager "HOL-Library.Monad_Syntax"
begin

text \<open>
  One shard of the buffer manager of \<open>storage/buffer_manager.rs\<close>: slots that hold page versions, the index
  from page to slots, clock eviction, and the files below it. A version is a commit timestamp, 0 for a page
  read from disk, or a transaction id with the top bit set for a version not yet committed. Shard locks make
  each method one step; a method that gives the lock back to wait is modelled as if nothing happened
  meanwhile. Reads and writes of files succeed. A frame lives in its slot, and a pin is the index of the slot.
\<close>

unbundle bit_operations_syntax

section \<open>State\<close>

type_synonym page_key = "u64 \<times> u64"

record frame =
  frame_data :: "byte list"
  version :: u64
  pin_count :: nat

record buffer_slot =
  slot_key :: "page_key option"
  slot_frame :: frame
  slot_dirty :: bool
  slot_referenced :: bool

record buffer_pool =
  page_to_slots :: "page_key \<rightharpoonup> nat list"
  file_handles :: "u64 set"
  slots :: "buffer_slot list"
  clock_ptr :: nat
  capacity :: nat
  max_capacity :: nat
  dirty_count :: nat
  free_candidates :: "nat list"

text \<open>The files: a page never written reads as zeros.\<close>

record disk =
  num_pages :: "u64 \<Rightarrow> u64"
  stored :: "page_key \<Rightarrow> byte list"

definition PAGE_SIZE :: nat where
  "PAGE_SIZE = 4096"

definition UNCOMMITTED_BIT :: u64 where
  "UNCOMMITTED_BIT = 0x8000000000000000"

abbreviation uncommitted :: "u64 \<Rightarrow> bool" where
  "uncommitted v \<equiv> v AND UNCOMMITTED_BIT \<noteq> 0"

definition zero_page :: "byte list" where
  "zero_page = replicate PAGE_SIZE 0"

definition new_frame :: "byte list \<Rightarrow> u64 \<Rightarrow> frame" where
  "new_frame bs v = \<lparr>frame_data = bs, version = v, pin_count = 0\<rparr>"

definition empty_slot :: buffer_slot where
  "empty_slot = \<lparr>slot_key = None, slot_frame = new_frame zero_page 0, slot_dirty = False, slot_referenced = False\<rparr>"

definition INITIAL_SLOTS_PER_SHARD :: nat where
  "INITIAL_SLOTS_PER_SHARD = 256"

definition new_buffer_pool :: "nat \<Rightarrow> buffer_pool" where
  "new_buffer_pool shard_capacity =
     (let initial_cap = min INITIAL_SLOTS_PER_SHARD shard_capacity
      in \<lparr>page_to_slots = Map.empty, file_handles = {}, slots = replicate initial_cap empty_slot,
          clock_ptr = 0, capacity = initial_cap, max_capacity = shard_capacity, dirty_count = 0,
          free_candidates = []\<rparr>)"

definition pool_shard_idx :: "nat \<Rightarrow> page_key \<Rightarrow> nat" where
  "pool_shard_idx num_shards key =
     (let h = fst key XOR snd key;
          h = h XOR drop_bit 33 h;
          h = h * 0xff51afd7ed558ccd;
          h = h XOR drop_bit 33 h;
          h = h * 0xc4ceb9fe1a85ec53;
          h = h XOR drop_bit 33 h
      in unat (h AND (of_nat num_shards - 1)))"

section \<open>Slots\<close>

definition upd_slot :: "nat \<Rightarrow> (buffer_slot \<Rightarrow> buffer_slot) \<Rightarrow> buffer_pool \<Rightarrow> buffer_pool" where
  "upd_slot i f pool = pool\<lparr>slots := (slots pool)[i := f (slots pool ! i)]\<rparr>"

abbreviation version_at :: "buffer_pool \<Rightarrow> nat \<Rightarrow> u64" where
  "version_at pool i \<equiv> version (slot_frame (slots pool ! i))"

definition decrement_dirty_count :: "buffer_pool \<Rightarrow> buffer_pool" where
  "decrement_dirty_count pool = pool\<lparr>dirty_count := dirty_count pool - 1\<rparr>"

definition pin_slot :: "nat \<Rightarrow> buffer_pool \<Rightarrow> buffer_pool" where
  "pin_slot i = upd_slot i (\<lambda>s. s\<lparr>slot_frame := (slot_frame s)\<lparr>pin_count := pin_count (slot_frame s) + 1\<rparr>\<rparr>)"

text \<open>\<open>fetch_sub\<close> wraps in the source; callers unpin what they pinned.\<close>

definition unpin_frame :: "nat \<Rightarrow> buffer_pool \<Rightarrow> buffer_pool" where
  "unpin_frame i = upd_slot i (\<lambda>s. s\<lparr>slot_frame := (slot_frame s)\<lparr>pin_count := pin_count (slot_frame s) - 1\<rparr>\<rparr>)"

text \<open>A slot given up: the frame is replaced by an empty one.\<close>

definition clear_slot :: "nat \<Rightarrow> buffer_pool \<Rightarrow> buffer_pool" where
  "clear_slot i pool =
     (let pool' = (if slot_dirty (slots pool ! i) then decrement_dirty_count pool else pool)
      in upd_slot i (\<lambda>_. empty_slot) pool')"

text \<open>The slot leaves the list of the page it held.\<close>

definition unlink_slot :: "nat \<Rightarrow> buffer_pool \<Rightarrow> buffer_pool" where
  "unlink_slot i pool =
     (case slot_key (slots pool ! i) of
        None \<Rightarrow> pool
      | Some old_key \<Rightarrow>
          (case page_to_slots pool old_key of
             None \<Rightarrow> pool
           | Some is \<Rightarrow> pool\<lparr>page_to_slots := (page_to_slots pool)(old_key \<mapsto> filter (\<lambda>j. j \<noteq> i) is)\<rparr>))"

definition link_slot :: "page_key \<Rightarrow> nat \<Rightarrow> buffer_pool \<Rightarrow> buffer_pool" where
  "link_slot key i pool =
     pool\<lparr>page_to_slots := (page_to_slots pool)(key \<mapsto>
        (case page_to_slots pool key of None \<Rightarrow> [] | Some is \<Rightarrow> is) @ [i])\<rparr>"

text \<open>The tail of \<open>pin_page\<close>, \<open>create_new_version\<close> and \<open>do_prefetch\<close>: a frame put into a reused slot.\<close>

definition install_frame :: "nat \<Rightarrow> page_key \<Rightarrow> frame \<Rightarrow> bool \<Rightarrow> buffer_pool \<Rightarrow> buffer_pool" where
  "install_frame i key fr d pool =
     link_slot key i (upd_slot i (\<lambda>_. \<lparr>slot_key = Some key, slot_frame = fr, slot_dirty = d, slot_referenced = True\<rparr>)
       (unlink_slot i pool))"

section \<open>Files\<close>

definition read_page :: "disk \<Rightarrow> page_key \<Rightarrow> byte list" where
  "read_page d key = stored d key"

definition write_page :: "page_key \<Rightarrow> byte list \<Rightarrow> disk \<Rightarrow> disk" where
  "write_page key bs d = d\<lparr>stored := (stored d)(key := bs)\<rparr>"

text \<open>A page at or past the end of the file is not read: it is new and all zeros.\<close>

definition load_page :: "disk \<Rightarrow> page_key \<Rightarrow> byte list" where
  "load_page d key = (if snd key < num_pages d (fst key) then read_page d key else zero_page)"

section \<open>Eviction\<close>

datatype evict_result = Found nat | NeedRetry

definition grow_pool :: "buffer_pool \<Rightarrow> buffer_pool" where
  "grow_pool pool =
     (let old_cap = capacity pool; new_cap = min (old_cap * 2) (max_capacity pool)
      in if new_cap \<le> old_cap then pool
         else pool\<lparr>slots := slots pool @ replicate (new_cap - old_cap) empty_slot,
                   free_candidates := free_candidates pool @ [old_cap..<new_cap],
                   capacity := new_cap\<rparr>)"

text \<open>One sweep of the clock hand over at most \<open>n\<close> slots.\<close>

fun clock_sweep :: "nat \<Rightarrow> buffer_pool \<Rightarrow> disk \<Rightarrow> nat option \<times> buffer_pool \<times> disk" where
  "clock_sweep 0 pool d = (None, pool, d)"
| "clock_sweep (Suc n) pool d =
     (let i = clock_ptr pool;
          pool = pool\<lparr>clock_ptr := (i + 1) mod capacity pool\<rparr>;
          s = slots pool ! i
      in if pin_count (slot_frame s) \<noteq> 0 then clock_sweep n pool d
         else if slot_referenced s
         then clock_sweep n (upd_slot i (\<lambda>s. s\<lparr>slot_referenced := False\<rparr>) pool) d
         else if slot_dirty s \<and> uncommitted (version (slot_frame s)) then clock_sweep n pool d
         else if slot_dirty s
         then (Some i, pool,
               case slot_key s of
                 Some key \<Rightarrow> if fst key \<in> file_handles pool then write_page key (frame_data (slot_frame s)) d else d
               | None \<Rightarrow> d)
         else (Some i, pool, d))"

text \<open>The outer loop: sweep, grow and sweep again. \<open>None\<close> is a loop that never returns.\<close>

partial_function (option) evict_loop :: "buffer_pool \<Rightarrow> disk \<Rightarrow> (evict_result \<times> buffer_pool \<times> disk) option" where [code]:
  "evict_loop pool d =
     (case clock_sweep (capacity pool) pool d of
        (Some i, pool, d) \<Rightarrow> Some (Found i, pool, d)
      | (None, pool, d) \<Rightarrow>
          if capacity pool < max_capacity pool then evict_loop (grow_pool pool) d
          else Some (NeedRetry, pool, d))"

definition evict_with_clock :: "buffer_pool \<Rightarrow> disk \<Rightarrow> (evict_result \<times> buffer_pool \<times> disk) option" where
  "evict_with_clock pool d =
     (case free_candidates pool of
        i # is \<Rightarrow>
          if slot_key (slots pool ! i) = None \<and> pin_count (slot_frame (slots pool ! i)) = 0
             \<and> \<not> slot_dirty (slots pool ! i)
          then Some (Found i, pool\<lparr>free_candidates := is\<rparr>, d)
          else evict_loop (pool\<lparr>free_candidates := is @ [i]\<rparr>) d
      | [] \<Rightarrow> evict_loop pool d)"

definition MAX_EVICT_RETRIES :: nat where
  "MAX_EVICT_RETRIES = 10"

text \<open>The retry loop of the callers.\<close>

fun find_slot :: "nat \<Rightarrow> buffer_pool \<Rightarrow> disk \<Rightarrow> (nat option \<times> buffer_pool \<times> disk) option" where
  "find_slot 0 pool d = Some (None, pool, d)"
| "find_slot (Suc n) pool d =
     (case evict_with_clock pool d of
        None \<Rightarrow> None
      | Some (Found i, pool, d) \<Rightarrow> Some (Some i, pool, d)
      | Some (NeedRetry, pool, d) \<Rightarrow> find_slot n pool d)"

section \<open>Pinning\<close>

text \<open>The loop of \<open>pin_page\<close> over the versions of a page, newest slot first.\<close>

fun best_visible :: "u64 \<Rightarrow> u64 \<Rightarrow> (nat \<Rightarrow> u64) \<Rightarrow> nat list \<Rightarrow> nat option \<Rightarrow> u64 \<Rightarrow> nat option" where
  "best_visible own rts ver [] best best_version = best"
| "best_visible own rts ver (i # is) best best_version =
     (if ver i = own then Some i
      else if \<not> uncommitted (ver i) \<and> ver i \<le> rts \<and> (ver i > best_version \<or> ver i = 0 \<and> best = None)
      then best_visible own rts ver is (Some i) (ver i)
      else best_visible own rts ver is best best_version)"

definition slots_of :: "buffer_pool \<Rightarrow> page_key \<Rightarrow> nat list" where
  "slots_of pool key = (case page_to_slots pool key of None \<Rightarrow> [] | Some is \<Rightarrow> is)"

definition visible_slot :: "buffer_pool \<Rightarrow> page_key \<Rightarrow> transaction \<Rightarrow> nat option" where
  "visible_slot pool key tx =
     best_visible (tx_id tx OR UNCOMMITTED_BIT) (read_ts tx) (version_at pool) (rev (slots_of pool key)) None 0"

abbreviation exhausted :: "'a result" where
  "exhausted \<equiv> Err (Internal ''Buffer pool exhausted'')"

definition pin_page ::
  "buffer_pool \<Rightarrow> disk \<Rightarrow> page_key \<Rightarrow> transaction \<Rightarrow> ((nat \<times> buffer_pool \<times> disk) result) option" where
  "pin_page pool d key tx =
     (case visible_slot pool key tx of
        Some i \<Rightarrow> Some (Ok (i, pin_slot i pool, d))
      | None \<Rightarrow> do {
          (found, pool, d) \<leftarrow> find_slot MAX_EVICT_RETRIES pool d;
          case found of
            None \<Rightarrow> Some exhausted
          | Some i \<Rightarrow>
              Some (Ok (i, pin_slot i (install_frame i key (new_frame (load_page d key) 0) False pool), d))
        })"

text \<open>
  The loop of \<open>create_new_version\<close>: the transaction's own version, or else the source of the copy, the newest
  committed version whatever the snapshot.
\<close>

fun copy_source :: "u64 \<Rightarrow> (nat \<Rightarrow> u64) \<Rightarrow> nat list \<Rightarrow> nat option \<Rightarrow> u64 \<Rightarrow> nat + nat option" where
  "copy_source own ver [] src best_version = Inr src"
| "copy_source own ver (i # is) src best_version =
     (if ver i = own then Inl i
      else if \<not> uncommitted (ver i) \<and> (ver i > best_version \<or> ver i = 0 \<and> src = None)
      then copy_source own ver is (Some i) (ver i)
      else copy_source own ver is src best_version)"

definition create_new_version ::
  "buffer_pool \<Rightarrow> disk \<Rightarrow> page_key \<Rightarrow> transaction \<Rightarrow> ((nat \<times> transaction \<times> buffer_pool \<times> disk) result) option" where
  "create_new_version pool d key tx =
     (let own = tx_id tx OR UNCOMMITTED_BIT;
          tx = tx\<lparr>modified_pages := modified_pages tx @ [key]\<rparr>
      in case copy_source own (version_at pool) (rev (slots_of pool key)) None 0 of
           Inl i \<Rightarrow> Some (Ok (i, tx, upd_slot i (\<lambda>s. s\<lparr>slot_referenced := True\<rparr>) (pin_slot i pool), d))
         | Inr src \<Rightarrow>
             (let source_data = (case src of Some j \<Rightarrow> frame_data (slot_frame (slots pool ! j)) | None \<Rightarrow> load_page d key);
                  pool = pool\<lparr>file_handles := insert (fst key) (file_handles pool)\<rparr>
              in do {
                   (found, pool, d) \<leftarrow> find_slot MAX_EVICT_RETRIES pool d;
                   case found of
                     None \<Rightarrow> Some exhausted
                   | Some i \<Rightarrow>
                       (let pool = install_frame i key (new_frame source_data own) True pool
                        in Some (Ok (i, tx, pin_slot i (pool\<lparr>dirty_count := dirty_count pool + 1\<rparr>), d)))
                 }))"

text \<open>A write through the pointer of a pinned frame.\<close>

definition write_frame :: "nat \<Rightarrow> byte list \<Rightarrow> buffer_pool \<Rightarrow> buffer_pool" where
  "write_frame i bs = upd_slot i (\<lambda>s. s\<lparr>slot_frame := (slot_frame s)\<lparr>frame_data := bs\<rparr>\<rparr>)"

text \<open>One page of \<open>do_prefetch\<close>.\<close>

definition prefetch_page :: "buffer_pool \<Rightarrow> disk \<Rightarrow> page_key \<Rightarrow> (buffer_pool \<times> disk) option" where
  "prefetch_page pool d key =
     (if page_to_slots pool key \<noteq> None \<or> fst key \<notin> file_handles pool \<or> \<not> snd key < num_pages d (fst key)
      then Some (pool, d)
      else
        (let fr = new_frame (read_page d key) 0
         in case evict_with_clock pool d of
              None \<Rightarrow> None
            | Some (Found i, pool, d) \<Rightarrow> Some (install_frame i key fr False pool, d)
            | Some (NeedRetry, pool, d) \<Rightarrow> Some (pool, d)))"

text \<open>The newest committed version, for the merge at commit; a miss yields a private frame read from disk.\<close>

fun latest_committed :: "(nat \<Rightarrow> u64) \<Rightarrow> nat list \<Rightarrow> nat option \<Rightarrow> u64 \<Rightarrow> nat option" where
  "latest_committed ver [] best best_version = best"
| "latest_committed ver (i # is) best best_version =
     (if \<not> uncommitted (ver i) \<and> ver i \<ge> best_version then latest_committed ver is (Some i) (ver i)
      else latest_committed ver is best best_version)"

definition pin_latest_committed :: "buffer_pool \<Rightarrow> disk \<Rightarrow> page_key \<Rightarrow> byte list \<times> nat option \<times> buffer_pool" where
  "pin_latest_committed pool d key =
     (case latest_committed (version_at pool) (slots_of pool key) None 0 of
        Some i \<Rightarrow> (frame_data (slot_frame (slots pool ! i)), Some i, pin_slot i pool)
      | None \<Rightarrow> (load_page d key, None, pool))"

definition pin_page_by_key :: "buffer_pool \<Rightarrow> page_key \<Rightarrow> u64 \<Rightarrow> (nat \<times> buffer_pool) option" where
  "pin_page_by_key pool key version_mark =
     (case find (\<lambda>i. version_at pool i = version_mark) (rev (slots_of pool key)) of
        Some i \<Rightarrow> Some (i, pin_slot i pool)
      | None \<Rightarrow> None)"

section \<open>Commit and rollback of versions\<close>

definition update_timestamps :: "page_key \<Rightarrow> u64 \<Rightarrow> u64 \<Rightarrow> buffer_pool \<Rightarrow> buffer_pool" where
  "update_timestamps key t cts pool =
     fold (\<lambda>i pool. if version_at pool i = t OR UNCOMMITTED_BIT
                    then upd_slot i (\<lambda>s. s\<lparr>slot_frame := (slot_frame s)\<lparr>version := cts\<rparr>\<rparr>) pool else pool)
       (slots_of pool key) pool"

text \<open>The slots of a page that are gone leave its list; an empty list leaves the index.\<close>

definition relink :: "page_key \<Rightarrow> nat list \<Rightarrow> buffer_pool \<Rightarrow> buffer_pool" where
  "relink key remaining pool =
     pool\<lparr>page_to_slots := (page_to_slots pool)(key := if remaining = [] then None else Some remaining)\<rparr>"

definition free_slot :: "nat \<Rightarrow> buffer_pool \<Rightarrow> buffer_pool" where
  "free_slot i pool = (let pool = clear_slot i pool in pool\<lparr>free_candidates := free_candidates pool @ [i]\<rparr>)"

definition evict_superseded_committed_versions :: "page_key \<Rightarrow> u64 \<Rightarrow> buffer_pool \<Rightarrow> buffer_pool" where
  "evict_superseded_committed_versions key keep_version pool =
     (case page_to_slots pool key of
        None \<Rightarrow> pool
      | Some is \<Rightarrow>
          (let pool = fold (\<lambda>i pool.
                 if \<not> uncommitted (version_at pool i) \<and> version_at pool i < keep_version
                    \<and> pin_count (slot_frame (slots pool ! i)) = 0
                 then free_slot i pool else pool) is pool
           in relink key (filter (\<lambda>i. slot_key (slots pool ! i) \<noteq> None) is) pool))"

definition rollback_slot :: "u64 \<Rightarrow> nat \<Rightarrow> buffer_pool \<Rightarrow> buffer_pool" where
  "rollback_slot t i pool =
     (if version_at pool i = t OR UNCOMMITTED_BIT then clear_slot i (unlink_slot i pool) else pool)"

definition rollback_versions :: "u64 \<Rightarrow> buffer_pool \<Rightarrow> buffer_pool" where
  "rollback_versions t pool = fold (rollback_slot t) [0..<length (slots pool)] pool"

definition invalidate_page :: "page_key \<Rightarrow> buffer_pool \<Rightarrow> buffer_pool" where
  "invalidate_page key pool =
     (case page_to_slots pool key of
        None \<Rightarrow> pool
      | Some is \<Rightarrow>
          (let pool = fold (\<lambda>i pool. if slot_key (slots pool ! i) = Some key then clear_slot i pool else pool) is pool
           in pool\<lparr>page_to_slots := (page_to_slots pool)(key := None)\<rparr>))"

section \<open>Flushing\<close>

definition mark_clean :: "nat \<Rightarrow> buffer_pool \<Rightarrow> buffer_pool" where
  "mark_clean i pool =
     upd_slot i (\<lambda>s. s\<lparr>slot_dirty := False\<rparr>)
       (if slot_dirty (slots pool ! i) then decrement_dirty_count pool else pool)"

text \<open>The loop body of \<open>flush_all\<close>, \<open>flush_all_with_handles\<close> and \<open>checkpoint_inner\<close>.\<close>

definition flush_slot :: "u64 set \<Rightarrow> nat \<Rightarrow> buffer_pool \<times> disk \<Rightarrow> buffer_pool \<times> disk" where
  "flush_slot handles i = (\<lambda>(pool, d).
     let s = slots pool ! i
     in if slot_dirty s \<and> \<not> uncommitted (version (slot_frame s)) then
          (case slot_key s of
             Some key \<Rightarrow>
               if fst key \<in> handles then (mark_clean i pool, write_page key (frame_data (slot_frame s)) d) else (pool, d)
           | None \<Rightarrow> (pool, d))
        else (pool, d))"

definition flush_all_with_handles :: "u64 set \<Rightarrow> buffer_pool \<Rightarrow> disk \<Rightarrow> buffer_pool \<times> disk" where
  "flush_all_with_handles handles pool d =
     (if handles = {} then (pool, d) else fold (flush_slot handles) [0..<length (slots pool)] (pool, d))"

definition flush_all :: "buffer_pool \<Rightarrow> disk \<Rightarrow> buffer_pool \<times> disk" where
  "flush_all pool d = fold (flush_slot (file_handles pool)) [0..<length (slots pool)] (pool, d)"

text \<open>
  The selection loop of \<open>flush_pages\<close>: per page the newest committed dirty version, and the others marked
  clean.
\<close>

definition select_newest ::
  "page_key set \<Rightarrow> nat \<Rightarrow> (page_key \<rightharpoonup> nat \<times> u64) \<times> buffer_pool \<Rightarrow> (page_key \<rightharpoonup> nat \<times> u64) \<times> buffer_pool" where
  "select_newest target_keys i = (\<lambda>(newest, pool).
     let s = slots pool ! i; v = version (slot_frame s)
     in case slot_key s of
          None \<Rightarrow> (newest, pool)
        | Some key \<Rightarrow>
            if \<not> slot_dirty s \<or> key \<notin> target_keys \<or> uncommitted v then (newest, pool)
            else (case newest key of
                    None \<Rightarrow> (newest(key \<mapsto> (i, v)), pool)
                  | Some (j, best) \<Rightarrow>
                      if best \<ge> v
                      then (newest, decrement_dirty_count (upd_slot i (\<lambda>s. s\<lparr>slot_dirty := False\<rparr>) pool))
                      else (newest(key \<mapsto> (i, v)),
                            decrement_dirty_count (upd_slot j (\<lambda>s. s\<lparr>slot_dirty := False\<rparr>) pool))))"

text \<open>The write loop over the selected versions; \<open>keys\<close> is the order in which the hash map yields them.\<close>

fun flush_selected ::
  "page_key list \<Rightarrow> (page_key \<rightharpoonup> nat \<times> u64) \<Rightarrow> buffer_pool \<Rightarrow> disk \<Rightarrow> buffer_pool \<times> disk" where
  "flush_selected [] newest pool d = (pool, d)"
| "flush_selected (key # keys) newest pool d =
     (case newest key of
        Some (i, _) \<Rightarrow>
          if fst key \<in> file_handles pool
          then flush_selected keys newest (mark_clean i pool) (write_page key (frame_data (slot_frame (slots pool ! i))) d)
          else flush_selected keys newest pool d
      | None \<Rightarrow> flush_selected keys newest pool d)"

definition flush_pages :: "page_key list \<Rightarrow> buffer_pool \<Rightarrow> disk \<Rightarrow> buffer_pool \<times> disk" where
  "flush_pages pages pool d =
     (let (newest, pool) = fold (select_newest (set pages)) [0..<length (slots pool)] (Map.empty, pool)
      in flush_selected (remdups pages) newest pool d)"

definition reset_referenced :: "buffer_pool \<Rightarrow> buffer_pool" where
  "reset_referenced pool = pool\<lparr>slots := map (\<lambda>s. s\<lparr>slot_referenced := False\<rparr>) (slots pool)\<rparr>"

section \<open>Reclaiming\<close>

text \<open>The highest committed version resident per page.\<close>

definition max_committed :: "buffer_slot list \<Rightarrow> page_key \<rightharpoonup> u64" where
  "max_committed ss =
     fold (\<lambda>s m. case slot_key s of
             None \<Rightarrow> m
           | Some k \<Rightarrow>
               (let v = version (slot_frame s)
                in if v \<noteq> 0 \<and> \<not> uncommitted v
                   then (let e = (case m k of None \<Rightarrow> 0 | Some e \<Rightarrow> e) in m(k \<mapsto> if v > e then v else e))
                   else m)) ss Map.empty"

definition reclaimable :: "u64 \<Rightarrow> buffer_pool \<Rightarrow> nat \<Rightarrow> bool" where
  "reclaimable min_active_ts pool i \<longleftrightarrow>
     (let s = slots pool ! i; v = version (slot_frame s)
      in pin_count (slot_frame s) = 0 \<and> v \<noteq> 0 \<and> \<not> uncommitted v \<and> v < min_active_ts
         \<and> (case slot_key s of
              None \<Rightarrow> False
            | Some key \<Rightarrow> v < (case max_committed (slots pool) key of None \<Rightarrow> 0 | Some e \<Rightarrow> e)))"

text \<open>The second phase checks the slot again: in one step nothing has changed since the first.\<close>

definition reclaim_expired_versions :: "u64 \<Rightarrow> buffer_pool \<Rightarrow> nat \<times> buffer_pool" where
  "reclaim_expired_versions min_active_ts pool =
     (let to_cleanup = filter (reclaimable min_active_ts pool) [0..<length (slots pool)]
      in (length to_cleanup, fold (\<lambda>i pool. free_slot i (unlink_slot i pool)) to_cleanup pool))"

definition has_uncommitted_in_range :: "buffer_pool \<Rightarrow> u64 \<Rightarrow> nat \<Rightarrow> nat \<Rightarrow> bool" where
  "has_uncommitted_in_range pool file_id first n \<longleftrightarrow>
     (\<exists>p \<in> set [first..<min (first + n) (2 ^ 64 - 1)].
        \<exists>i \<in> set (slots_of pool (file_id, of_nat p)). uncommitted (version_at pool i))"

text \<open>One page of \<open>evict_pages_for_file\<close>.\<close>

definition evict_page :: "page_key \<Rightarrow> buffer_pool \<times> disk \<Rightarrow> buffer_pool \<times> disk" where
  "evict_page key = (\<lambda>(pool, d).
     let is = slots_of pool key
     in if is = [] then (pool, d)
        else
          (let preserved = filter (\<lambda>i. uncommitted (version_at pool i)) is;
               (pool, d) = fold (\<lambda>i (pool, d).
                 if uncommitted (version_at pool i) then (pool, d)
                 else
                   (let s = slots pool ! i;
                        d = (case slot_key s of
                               Some k \<Rightarrow> if slot_dirty s \<and> fst k \<in> file_handles pool
                                 then write_page k (frame_data (slot_frame s)) d else d
                             | None \<Rightarrow> d)
                    in (free_slot i pool, d))) is (pool, d)
           in (relink key preserved pool, d)))"

definition evict_pages_for_file :: "u64 \<Rightarrow> nat \<Rightarrow> nat \<Rightarrow> buffer_pool \<Rightarrow> disk \<Rightarrow> buffer_pool \<times> disk" where
  "evict_pages_for_file file_id first n pool d =
     fold (\<lambda>p. evict_page (file_id, of_nat p)) [first..<first + n] (pool, d)"

text \<open>The transaction id under which \<open>log_page_update\<close> logs a page.\<close>

definition logged_tx_id :: "buffer_pool \<Rightarrow> page_key \<Rightarrow> u64" where
  "logged_tx_id pool key =
     fold (\<lambda>i best. let c = version_at pool i AND NOT UNCOMMITTED_BIT in if c > best then c else best)
       (slots_of pool key) 0"

end
