(* ===== verification/Buffer_Invariant.thy ===== *)
theory Buffer_Invariant
  imports Buffer_Pool
begin

text \<open>
  The invariant of a buffer pool shard: the page index lists exactly the slots that hold a page, slots hold
  at most one version per transaction and page, a version not yet committed is dirty, and a dirty slot can
  be written back. Every operation of the shard keeps it.
\<close>

declare split_paired_All [simp del] split_paired_Ex [simp del]

section \<open>The invariant\<close>

definition index_ok :: "buffer_pool \<Rightarrow> bool" where
  "index_ok pool \<longleftrightarrow> (\<forall>k. distinct (slots_of pool k)
     \<and> set (slots_of pool k) = {i. i < length (slots pool) \<and> slot_key (slots pool ! i) = Some k})"

definition shape_ok :: "buffer_pool \<Rightarrow> bool" where
  "shape_ok pool \<longleftrightarrow> length (slots pool) = capacity pool \<and> capacity pool \<le> max_capacity pool
     \<and> (capacity pool = 0 \<longrightarrow> max_capacity pool = 0) \<and> (0 < capacity pool \<longrightarrow> clock_ptr pool < capacity pool)
     \<and> (\<forall>i \<in> set (free_candidates pool). i < capacity pool)"

definition slot_ok :: "u64 set \<Rightarrow> buffer_slot \<Rightarrow> bool" where
  "slot_ok handles s \<longleftrightarrow> (uncommitted (version (slot_frame s)) \<longrightarrow> slot_dirty s)
     \<and> (slot_dirty s \<longrightarrow> (\<exists>k. slot_key s = Some k \<and> fst k \<in> handles))
     \<and> (slot_key s = None \<longrightarrow> version (slot_frame s) = 0)"

definition owner_unique :: "buffer_slot list \<Rightarrow> bool" where
  "owner_unique ss \<longleftrightarrow> (\<forall>i j. i < length ss \<longrightarrow> j < length ss \<longrightarrow> slot_key (ss ! i) = slot_key (ss ! j) \<longrightarrow>
     version (slot_frame (ss ! i)) = version (slot_frame (ss ! j)) \<longrightarrow>
     uncommitted (version (slot_frame (ss ! i))) \<longrightarrow> i = j)"

definition pool_inv :: "buffer_pool \<Rightarrow> bool" where
  "pool_inv pool \<longleftrightarrow> shape_ok pool \<and> index_ok pool \<and> (\<forall>s \<in> set (slots pool). slot_ok (file_handles pool) s)
     \<and> owner_unique (slots pool)"

lemmas inv_defs = pool_inv_def shape_ok_def index_ok_def slot_ok_def owner_unique_def

lemma slots_ofD:
  assumes "index_ok pool" "i \<in> set (slots_of pool k)"
  shows "i < length (slots pool)" and "slot_key (slots pool ! i) = Some k"
  using assms by (auto simp: index_ok_def)

lemma slots_of_iff:
  "index_ok pool \<Longrightarrow> i \<in> set (slots_of pool k) \<longleftrightarrow> i < length (slots pool) \<and> slot_key (slots pool ! i) = Some k"
  by (auto simp: index_ok_def)

lemma slots_of_cong: "page_to_slots p = page_to_slots q \<Longrightarrow> slots_of p k = slots_of q k"
  by (simp add: slots_of_def)

section \<open>Fields the operations leave alone\<close>

lemma upd_slot_simps [simp]:
  "page_to_slots (upd_slot i f pool) = page_to_slots pool" "file_handles (upd_slot i f pool) = file_handles pool"
  "slots (upd_slot i f pool) = (slots pool)[i := f (slots pool ! i)]" "clock_ptr (upd_slot i f pool) = clock_ptr pool"
  "capacity (upd_slot i f pool) = capacity pool" "max_capacity (upd_slot i f pool) = max_capacity pool"
  "dirty_count (upd_slot i f pool) = dirty_count pool" "free_candidates (upd_slot i f pool) = free_candidates pool"
  "slots_of (upd_slot i f pool) k = slots_of pool k"
  by (simp_all add: upd_slot_def slots_of_def)

lemma decrement_simps [simp]:
  "page_to_slots (decrement_dirty_count pool) = page_to_slots pool"
  "file_handles (decrement_dirty_count pool) = file_handles pool"
  "slots (decrement_dirty_count pool) = slots pool" "clock_ptr (decrement_dirty_count pool) = clock_ptr pool"
  "capacity (decrement_dirty_count pool) = capacity pool"
  "max_capacity (decrement_dirty_count pool) = max_capacity pool"
  "free_candidates (decrement_dirty_count pool) = free_candidates pool"
  "slots_of (decrement_dirty_count pool) k = slots_of pool k"
  by (simp_all add: decrement_dirty_count_def slots_of_def)

lemma clear_slot_simps [simp]:
  "page_to_slots (clear_slot i pool) = page_to_slots pool" "file_handles (clear_slot i pool) = file_handles pool"
  "slots (clear_slot i pool) = (slots pool)[i := empty_slot]" "clock_ptr (clear_slot i pool) = clock_ptr pool"
  "capacity (clear_slot i pool) = capacity pool" "max_capacity (clear_slot i pool) = max_capacity pool"
  "free_candidates (clear_slot i pool) = free_candidates pool" "slots_of (clear_slot i pool) k = slots_of pool k"
  by (simp_all add: clear_slot_def Let_def slots_of_def)

lemma free_slot_simps [simp]:
  "page_to_slots (free_slot i pool) = page_to_slots pool" "file_handles (free_slot i pool) = file_handles pool"
  "slots (free_slot i pool) = (slots pool)[i := empty_slot]" "clock_ptr (free_slot i pool) = clock_ptr pool"
  "capacity (free_slot i pool) = capacity pool" "max_capacity (free_slot i pool) = max_capacity pool"
  "free_candidates (free_slot i pool) = free_candidates pool @ [i]" "slots_of (free_slot i pool) k = slots_of pool k"
  by (simp_all add: free_slot_def Let_def slots_of_def)

lemma unlink_slot_simps [simp]:
  "file_handles (unlink_slot i pool) = file_handles pool" "slots (unlink_slot i pool) = slots pool"
  "clock_ptr (unlink_slot i pool) = clock_ptr pool" "capacity (unlink_slot i pool) = capacity pool"
  "max_capacity (unlink_slot i pool) = max_capacity pool"
  "free_candidates (unlink_slot i pool) = free_candidates pool"
  by (auto simp: unlink_slot_def split: option.splits)

lemma link_slot_simps [simp]:
  "file_handles (link_slot k i pool) = file_handles pool" "slots (link_slot k i pool) = slots pool"
  "clock_ptr (link_slot k i pool) = clock_ptr pool" "capacity (link_slot k i pool) = capacity pool"
  "max_capacity (link_slot k i pool) = max_capacity pool"
  "free_candidates (link_slot k i pool) = free_candidates pool"
  by (simp_all add: link_slot_def)

lemma relink_simps [simp]:
  "file_handles (relink k is pool) = file_handles pool" "slots (relink k is pool) = slots pool"
  "clock_ptr (relink k is pool) = clock_ptr pool" "capacity (relink k is pool) = capacity pool"
  "max_capacity (relink k is pool) = max_capacity pool" "free_candidates (relink k is pool) = free_candidates pool"
  by (simp_all add: relink_def)

lemma slots_of_link: "slots_of (link_slot k i pool) k' = (if k' = k then slots_of pool k @ [i] else slots_of pool k')"
  by (simp add: link_slot_def slots_of_def)

lemma slots_of_relink: "slots_of (relink k is pool) k' = (if k' = k then is else slots_of pool k')"
  by (simp add: relink_def slots_of_def)

lemma slots_of_unlink:
  assumes "index_ok pool" "i < length (slots pool)"
  shows "slots_of (unlink_slot i pool) k = filter (\<lambda>j. j \<noteq> i) (slots_of pool k)"
proof (cases "slot_key (slots pool ! i) = Some k")
  case True
  then show ?thesis by (auto simp: unlink_slot_def slots_of_def split: option.splits)
next
  case False
  then have "i \<notin> set (slots_of pool k)" using slots_ofD(2) [OF assms(1)] by blast
  then have "filter (\<lambda>j. j \<noteq> i) (slots_of pool k) = slots_of pool k"
    by (intro filter_True ballI notI) simp
  moreover have "slots_of (unlink_slot i pool) k = slots_of pool k"
    using False by (auto simp: unlink_slot_def slots_of_def split: option.splits)
  ultimately show ?thesis by simp
qed

section \<open>Preservation: single slots\<close>

lemma index_ok_upd:
  assumes "index_ok pool" "slot_key (f (slots pool ! i)) = slot_key (slots pool ! i)" "i < length (slots pool)"
  shows "index_ok (upd_slot i f pool)"
  using assms by (auto simp: index_ok_def nth_list_update split: if_splits)

lemma index_ok_unlink_set:
  assumes "index_ok pool" "i < length (slots pool)" "slot_key s = None"
    and "page_to_slots pool' = page_to_slots (unlink_slot i pool)" "slots pool' = (slots pool)[i := s]"
  shows "index_ok pool'"
  using assms slots_of_unlink [OF assms(1,2)] slots_of_cong [OF assms(4)]
  by (auto simp: index_ok_def nth_list_update)

lemma index_ok_install:
  assumes "index_ok pool" "i < length (slots pool)"
  shows "index_ok (install_frame i key fr d pool)"
  using assms slots_of_unlink [OF assms]
  by (auto simp: index_ok_def install_frame_def slots_of_link nth_list_update)

lemma install_frame_simps [simp]:
  "file_handles (install_frame i k fr d pool) = file_handles pool"
  "slots (install_frame i k fr d pool)
     = (slots pool)[i := \<lparr>slot_key = Some k, slot_frame = fr, slot_dirty = d, slot_referenced = True\<rparr>]"
  "clock_ptr (install_frame i k fr d pool) = clock_ptr pool" "capacity (install_frame i k fr d pool) = capacity pool"
  "max_capacity (install_frame i k fr d pool) = max_capacity pool"
  "free_candidates (install_frame i k fr d pool) = free_candidates pool"
  by (simp_all add: install_frame_def)

lemma empty_slot_ok [simp]: "slot_ok handles empty_slot"
  by (simp add: slot_ok_def empty_slot_def new_frame_def)

lemma slots_ok_update:
  "\<forall>s \<in> set ss. slot_ok h s \<Longrightarrow> slot_ok h s' \<Longrightarrow> \<forall>s \<in> set (ss[i := s']). slot_ok h s"
  using set_update_subset_insert by fastforce

text \<open>A slot may change its owner mark only to one no other slot of the page has.\<close>

lemma owner_unique_update:
  assumes "owner_unique ss"
    and "\<And>j. uncommitted (version (slot_frame s')) \<Longrightarrow> j < length ss \<Longrightarrow> j \<noteq> i \<Longrightarrow>
      slot_key (ss ! j) = slot_key s' \<Longrightarrow> version (slot_frame (ss ! j)) \<noteq> version (slot_frame s')"
  shows "owner_unique (ss[i := s'])"
  unfolding owner_unique_def
proof (intro allI impI)
  fix a b
  assume h: "a < length (ss[i := s'])" "b < length (ss[i := s'])"
    "slot_key (ss[i := s'] ! a) = slot_key (ss[i := s'] ! b)"
    "version (slot_frame (ss[i := s'] ! a)) = version (slot_frame (ss[i := s'] ! b))"
    "uncommitted (version (slot_frame (ss[i := s'] ! a)))"
  show "a = b"
    using h assms(1) assms(2) [of a] assms(2) [of b]
    by (cases "a = i"; cases "b = i") (auto simp: owner_unique_def)
qed

lemma owner_unique_same:
  assumes "owner_unique ss" "slot_key s' = slot_key (ss ! i)" "version (slot_frame s') = version (slot_frame (ss ! i))"
    "i < length ss"
  shows "owner_unique (ss[i := s'])"
  using assms(1) assms(2-) by (intro owner_unique_update) (auto simp: owner_unique_def)

text \<open>The workhorse: an operation that changes one slot and keeps its page and version.\<close>

lemma pool_inv_upd:
  assumes "pool_inv pool" "i < length (slots pool)"
    and "slot_key (f (slots pool ! i)) = slot_key (slots pool ! i)"
    and "version (slot_frame (f (slots pool ! i))) = version (slot_frame (slots pool ! i))"
    and "slot_ok (file_handles pool) (f (slots pool ! i))"
  shows "pool_inv (upd_slot i f pool)"
  using assms index_ok_upd [of pool f i] slots_ok_update [of "slots pool" "file_handles pool" "f (slots pool ! i)" i]
    owner_unique_same [of "slots pool" "f (slots pool ! i)" i]
  by (simp add: pool_inv_def shape_ok_def)

lemma slot_ok_nth: "pool_inv pool \<Longrightarrow> i < length (slots pool) \<Longrightarrow> slot_ok (file_handles pool) (slots pool ! i)"
  by (simp add: pool_inv_def)

lemma pool_inv_pin: "pool_inv pool \<Longrightarrow> i < length (slots pool) \<Longrightarrow> pool_inv (pin_slot i pool)"
  unfolding pin_slot_def using slot_ok_nth [of pool i] by (intro pool_inv_upd) (auto simp: slot_ok_def)

lemma pool_inv_unpin: "pool_inv pool \<Longrightarrow> i < length (slots pool) \<Longrightarrow> pool_inv (unpin_frame i pool)"
  unfolding unpin_frame_def using slot_ok_nth [of pool i] by (intro pool_inv_upd) (auto simp: slot_ok_def)

lemma pool_inv_write_frame: "pool_inv pool \<Longrightarrow> i < length (slots pool) \<Longrightarrow> pool_inv (write_frame i bs pool)"
  unfolding write_frame_def using slot_ok_nth [of pool i] by (intro pool_inv_upd) (auto simp: slot_ok_def)

lemma pool_inv_clear_unlinked:
  assumes "pool_inv pool" "i < length (slots pool)"
  shows "pool_inv (clear_slot i (unlink_slot i pool))" and "pool_inv (free_slot i (unlink_slot i pool))"
proof -
  have "index_ok (clear_slot i (unlink_slot i pool))" "index_ok (free_slot i (unlink_slot i pool))"
    using assms by (auto intro!: index_ok_unlink_set [of pool i empty_slot] simp: pool_inv_def empty_slot_def)
  moreover have "owner_unique ((slots pool)[i := empty_slot])"
    using assms by (intro owner_unique_update) (auto simp: pool_inv_def empty_slot_def new_frame_def)
  moreover have "\<forall>s \<in> set ((slots pool)[i := empty_slot]). slot_ok (file_handles pool) s"
    using assms by (intro slots_ok_update) (auto simp: pool_inv_def)
  ultimately show "pool_inv (clear_slot i (unlink_slot i pool))" "pool_inv (free_slot i (unlink_slot i pool))"
    using assms by (auto simp: pool_inv_def shape_ok_def)
qed

lemma pool_inv_install:
  assumes "pool_inv pool" "i < length (slots pool)"
    and "slot_ok (file_handles pool) \<lparr>slot_key = Some k, slot_frame = fr, slot_dirty = d, slot_referenced = True\<rparr>"
    and "\<And>j. uncommitted (version fr) \<Longrightarrow> j < length (slots pool) \<Longrightarrow> slot_key (slots pool ! j) = Some k \<Longrightarrow>
      version_at pool j \<noteq> version fr"
  shows "pool_inv (install_frame i k fr d pool)"
proof -
  let ?s = "\<lparr>slot_key = Some k, slot_frame = fr, slot_dirty = d, slot_referenced = True\<rparr>"
  have inv: "shape_ok pool" "index_ok pool" "\<forall>s \<in> set (slots pool). slot_ok (file_handles pool) s" "owner_unique (slots pool)"
    using assms(1) by (auto simp: pool_inv_def)
  have "owner_unique ((slots pool)[i := ?s])"
    by (rule owner_unique_update [OF inv(4)]) (use assms(4) in force)
  moreover have "\<forall>s \<in> set ((slots pool)[i := ?s]). slot_ok (file_handles pool) s"
    using inv(3) assms(3) by (rule slots_ok_update)
  moreover have "shape_ok (install_frame i k fr d pool)" using inv(1) by (simp add: shape_ok_def)
  ultimately show ?thesis
    using index_ok_install [OF inv(2) assms(2)] unfolding pool_inv_def install_frame_simps by blast
qed

section \<open>Eviction\<close>

text \<open>
  Looking for a slot clears referenced bits, moves the hand, may add empty slots, and changes no frame.
\<close>

definition strip :: "buffer_slot \<Rightarrow> buffer_slot" where
  "strip s = s\<lparr>slot_referenced := False\<rparr>"

lemma strip_simps [simp]:
  "slot_key (strip s) = slot_key s" "slot_frame (strip s) = slot_frame s" "slot_dirty (strip s) = slot_dirty s"
  "slot_ok h (strip s) = slot_ok h s"
  by (simp_all add: strip_def slot_ok_def)

lemma strip_empty [simp]: "strip empty_slot = empty_slot"
  by (simp add: strip_def empty_slot_def)

definition pool_ext :: "buffer_pool \<Rightarrow> buffer_pool \<Rightarrow> bool" where
  "pool_ext pool pool' \<longleftrightarrow> (\<exists>m. map strip (slots pool') = map strip (slots pool) @ replicate m empty_slot)
     \<and> page_to_slots pool' = page_to_slots pool \<and> file_handles pool' = file_handles pool"

lemma pool_ext_refl [simp]: "slots p' = slots p \<Longrightarrow> page_to_slots p' = page_to_slots p \<Longrightarrow> file_handles p' = file_handles p \<Longrightarrow> pool_ext p p'"
  unfolding pool_ext_def by (auto intro: exI [of _ 0])

lemma pool_ext_trans: "pool_ext p q \<Longrightarrow> pool_ext q r \<Longrightarrow> pool_ext p r"
  unfolding pool_ext_def by (auto simp: replicate_add [symmetric])

lemma pool_ext_nth:
  assumes "pool_ext p q"
  shows "length (slots p) \<le> length (slots q)"
    and "i < length (slots p) \<Longrightarrow> strip (slots q ! i) = strip (slots p ! i)"
    and "length (slots p) \<le> i \<Longrightarrow> i < length (slots q) \<Longrightarrow> strip (slots q ! i) = empty_slot"
proof -
  obtain m where m: "map strip (slots q) = map strip (slots p) @ replicate m empty_slot"
    using assms by (auto simp: pool_ext_def)
  have len: "length (slots q) = length (slots p) + m" using arg_cong [OF m, of length] by simp
  then show "length (slots p) \<le> length (slots q)" by simp
  have nth: "strip (slots q ! i) = (map strip (slots p) @ replicate m empty_slot) ! i" if "i < length (slots q)" for i
    using that by (simp flip: m)
  show "i < length (slots p) \<Longrightarrow> strip (slots q ! i) = strip (slots p ! i)"
    using nth [of i] len by (simp add: nth_append)
  show "length (slots p) \<le> i \<Longrightarrow> i < length (slots q) \<Longrightarrow> strip (slots q ! i) = empty_slot"
    using nth [of i] len by (simp add: nth_append)
qed

lemma pool_ext_slot:
  assumes "pool_ext p q" "i < length (slots p)"
  shows "slot_key (slots q ! i) = slot_key (slots p ! i)" "slot_frame (slots q ! i) = slot_frame (slots p ! i)"
    "slot_dirty (slots q ! i) = slot_dirty (slots p ! i)"
  using pool_ext_nth(2) [OF assms] by (metis strip_simps)+

lemma pool_ext_new_slot:
  assumes "pool_ext p q" "length (slots p) \<le> i" "i < length (slots q)"
  shows "slot_key (slots q ! i) = None" "version_at q i = 0"
  using arg_cong [OF pool_ext_nth(3) [OF assms], of slot_key]
    arg_cong [OF pool_ext_nth(3) [OF assms], of "\<lambda>s. version (slot_frame s)"]
  by (simp_all add: empty_slot_def new_frame_def)

lemma pool_ext_slots_of: "pool_ext p q \<Longrightarrow> slots_of q k = slots_of p k"
  by (auto simp: pool_ext_def intro: slots_of_cong)

lemma pool_inv_ext:
  assumes "pool_inv p" "pool_ext p q" "shape_ok q"
  shows "pool_inv q"
proof -
  note nth = pool_ext_nth [OF assms(2)] and sl = pool_ext_slot [OF assms(2)] and new = pool_ext_new_slot [OF assms(2)]
  have "{i. i < length (slots q) \<and> slot_key (slots q ! i) = Some k} = {i. i < length (slots p) \<and> slot_key (slots p ! i) = Some k}" for k
  proof (intro Collect_cong iffI conjI; elim conjE)
    fix i assume i: "i < length (slots q)" "slot_key (slots q ! i) = Some k"
    show "i < length (slots p)" using i new(1) [of i] by (cases "i < length (slots p)") auto
    then show "slot_key (slots p ! i) = Some k" using i sl(1) by simp
  next
    fix i assume i: "i < length (slots p)" "slot_key (slots p ! i) = Some k"
    show "i < length (slots q)" using i nth(1) by simp
    show "slot_key (slots q ! i) = Some k" using i sl(1) by simp
  qed
  then have "index_ok q"
    using assms(1) pool_ext_slots_of [OF assms(2)] by (simp add: pool_inv_def index_ok_def)
  moreover have "slot_ok (file_handles q) (slots q ! i)" if "i < length (slots q)" for i
  proof (cases "i < length (slots p)")
    case True
    then have "slot_ok (file_handles p) (strip (slots q ! i))" using slot_ok_nth [OF assms(1)] nth(2) [OF True] by simp
    then show ?thesis using assms(2) by (simp add: pool_ext_def)
  next
    case False
    then have "slot_ok (file_handles q) (strip (slots q ! i))" using nth(3) [of i] that by simp
    then show ?thesis by simp
  qed
  then have "\<forall>s \<in> set (slots q). slot_ok (file_handles q) s" by (auto simp: in_set_conv_nth)
  moreover have "owner_unique (slots q)"
    unfolding owner_unique_def
  proof (intro allI impI)
    fix i j
    assume h: "i < length (slots q)" "j < length (slots q)" "slot_key (slots q ! i) = slot_key (slots q ! j)"
      "version_at q i = version_at q j" "uncommitted (version_at q i)"
    have old: "a < length (slots p)" if "a < length (slots q)" "uncommitted (version_at q a)" for a
      using new(2) [of a] that by (cases "a < length (slots p)") auto
    have "i < length (slots p)" "j < length (slots p)" using old h by auto
    then show "i = j" using h sl assms(1) by (auto simp: pool_inv_def owner_unique_def)
  qed
  ultimately show ?thesis using assms(3) by (simp add: pool_inv_def)
qed

text \<open>What writing back the evicted slot does to the files.\<close>

definition write_back :: "buffer_pool \<Rightarrow> nat \<Rightarrow> disk \<Rightarrow> disk" where
  "write_back pool i d =
     (let s = slots pool ! i
      in case slot_key s of
           Some key \<Rightarrow> if slot_dirty s \<and> fst key \<in> file_handles pool then write_page key (frame_data (slot_frame s)) d else d
         | None \<Rightarrow> d)"

definition evictable :: "buffer_pool \<Rightarrow> nat \<Rightarrow> bool" where
  "evictable pool i \<longleftrightarrow> i < length (slots pool) \<and> pin_count (slot_frame (slots pool ! i)) = 0
     \<and> \<not> (slot_dirty (slots pool ! i) \<and> uncommitted (version_at pool i))"

lemma pool_ext_clear_ref:
  assumes "i < length (slots pool)"
  shows "pool_ext pool (upd_slot i (\<lambda>s. s\<lparr>slot_referenced := False\<rparr>) pool)"
  unfolding pool_ext_def using assms
  by (intro conjI exI [of _ 0]) (auto simp: strip_def map_update list_update_same_conv)

lemma clock_sweep_spec:
  "shape_ok pool \<Longrightarrow> 0 < capacity pool \<or> n = 0 \<Longrightarrow> clock_sweep n pool d = (r, pool', d') \<Longrightarrow>
   pool_ext pool pool' \<and> shape_ok pool' \<and> capacity pool' = capacity pool \<and> max_capacity pool' = max_capacity pool
   \<and> (case r of None \<Rightarrow> d' = d | Some i \<Rightarrow> evictable pool' i \<and> d' = write_back pool' i d)"
proof (induction n arbitrary: pool)
  case 0
  then show ?case by simp
next
  case (Suc n)
  define i where "i = clock_ptr pool"
  define p1 where "p1 = pool\<lparr>clock_ptr := (i + 1) mod capacity pool\<rparr>"
  define s where "s = slots p1 ! i"
  have cap: "0 < capacity pool" "i < length (slots p1)" using Suc.prems(1,2) by (auto simp: shape_ok_def i_def p1_def)
  have p1: "shape_ok p1" "pool_ext pool p1" "capacity p1 = capacity pool" "max_capacity p1 = max_capacity pool"
    using Suc.prems(1) cap by (auto simp: shape_ok_def p1_def)
  have run: "(if pin_count (slot_frame s) \<noteq> 0 then clock_sweep n p1 d
         else if slot_referenced s then clock_sweep n (upd_slot i (\<lambda>s. s\<lparr>slot_referenced := False\<rparr>) p1) d
         else if slot_dirty s \<and> uncommitted (version (slot_frame s)) then clock_sweep n p1 d
         else if slot_dirty s
         then (Some i, p1, case slot_key s of
                 Some key \<Rightarrow> if fst key \<in> file_handles p1 then write_page key (frame_data (slot_frame s)) d else d
               | None \<Rightarrow> d)
         else (Some i, p1, d)) = (r, pool', d')"
    using Suc.prems(3) unfolding clock_sweep.simps(2) Let_def p1_def s_def i_def .
  have go: ?case if "clock_sweep n q d = (r, pool', d')" "shape_ok q" "pool_ext pool q" "capacity q = capacity pool"
    "max_capacity q = max_capacity pool" for q
    using Suc.IH [OF that(2) _ that(1)] that(3-) cap(1) pool_ext_trans by auto
  have ref: "pool_ext pool (upd_slot i (\<lambda>s. s\<lparr>slot_referenced := False\<rparr>) p1)"
    using pool_ext_trans [OF p1(2) pool_ext_clear_ref [OF cap(2)]] .
  show ?case
  proof (cases "pin_count (slot_frame s) \<noteq> 0 \<or> slot_referenced s \<or> slot_dirty s \<and> uncommitted (version (slot_frame s))")
    case True
    then show ?thesis
      using run go [of p1] go [of "upd_slot i (\<lambda>s. s\<lparr>slot_referenced := False\<rparr>) p1"] p1 ref
      by (auto simp: shape_ok_def split: if_splits)
  next
    case False
    then have r: "r = Some i" "pool' = p1"
      "d' = (if slot_dirty s then (case slot_key s of
                 Some key \<Rightarrow> if fst key \<in> file_handles p1 then write_page key (frame_data (slot_frame s)) d else d
               | None \<Rightarrow> d) else d)" using run by (auto split: if_splits)
    have "evictable p1 i" using False cap(2) by (auto simp: evictable_def s_def)
    moreover have "d' = write_back p1 i d"
      using r(3) by (cases "slot_key s") (auto simp: write_back_def Let_def simp flip: s_def)
    ultimately show ?thesis using r(1,2) p1 by simp
  qed
qed

lemma grow_pool_spec:
  assumes "shape_ok pool" "0 < capacity pool" "capacity pool < max_capacity pool"
  shows "pool_ext pool (grow_pool pool)" "shape_ok (grow_pool pool)" "capacity pool < capacity (grow_pool pool)"
    "max_capacity (grow_pool pool) = max_capacity pool"
  using assms by (auto simp: grow_pool_def Let_def pool_ext_def shape_ok_def map_replicate_const)

lemma evict_loop_spec:
  "shape_ok pool \<Longrightarrow>
   \<exists>r pool' d'. evict_loop pool d = Some (r, pool', d') \<and> pool_ext pool pool' \<and> shape_ok pool'
     \<and> (case r of NeedRetry \<Rightarrow> d' = d | Found i \<Rightarrow> evictable pool' i \<and> d' = write_back pool' i d)"
proof (induction "max_capacity pool - capacity pool" arbitrary: pool rule: less_induct)
  case less
  obtain r p1 d1 where sw: "clock_sweep (capacity pool) pool d = (r, p1, d1)" by (metis prod_cases3)
  have spec: "pool_ext pool p1" "shape_ok p1" "capacity p1 = capacity pool" "max_capacity p1 = max_capacity pool"
    "case r of None \<Rightarrow> d1 = d | Some i \<Rightarrow> evictable p1 i \<and> d1 = write_back p1 i d"
    using clock_sweep_spec [OF less.prems _ sw] by auto
  show ?case
  proof (cases r)
    case (Some i)
    then show ?thesis using spec sw by (subst evict_loop.simps) auto
  next
    case None
    then have d1: "d1 = d" using spec(5) by simp
    show ?thesis
    proof (cases "capacity p1 < max_capacity p1")
      case False
      then show ?thesis using spec sw None by (subst evict_loop.simps) auto
    next
      case True
      then have pos: "0 < capacity p1" using spec(2) by (auto simp: shape_ok_def)
      note g = grow_pool_spec [OF spec(2) pos True]
      have "max_capacity (grow_pool p1) - capacity (grow_pool p1) < max_capacity pool - capacity pool"
        using g(3,4) True spec(3,4) by simp
      from less.hyps [OF this g(2)] obtain r' p2 d2 where
        "evict_loop (grow_pool p1) d = Some (r', p2, d2)" "pool_ext (grow_pool p1) p2" "shape_ok p2"
        "case r' of NeedRetry \<Rightarrow> d2 = d | Found i \<Rightarrow> evictable p2 i \<and> d2 = write_back p2 i d" by auto
      moreover have "evict_loop pool d = evict_loop (grow_pool p1) d"
        using sw None True d1 by (subst evict_loop.simps) simp
      ultimately show ?thesis using pool_ext_trans [OF pool_ext_trans [OF spec(1) g(1)]] by auto
    qed
  qed
qed

lemma evict_with_clock_spec:
  assumes "shape_ok pool"
  shows "\<exists>r pool' d'. evict_with_clock pool d = Some (r, pool', d') \<and> pool_ext pool pool' \<and> shape_ok pool'
     \<and> (case r of NeedRetry \<Rightarrow> d' = d | Found i \<Rightarrow> evictable pool' i \<and> d' = write_back pool' i d)"
proof (cases "free_candidates pool")
  case Nil
  then show ?thesis using evict_loop_spec [OF assms] by (simp add: evict_with_clock_def)
next
  case (Cons i "is")
  then have i: "i < length (slots pool)" using assms by (simp add: shape_ok_def)
  show ?thesis
  proof (cases "slot_key (slots pool ! i) = None \<and> pin_count (slot_frame (slots pool ! i)) = 0 \<and> \<not> slot_dirty (slots pool ! i)")
    case True
    let ?p = "pool\<lparr>free_candidates := is\<rparr>"
    have "evictable ?p i" "write_back ?p i d = d" using True i by (auto simp: evictable_def write_back_def Let_def)
    moreover have "pool_ext pool ?p" "shape_ok ?p" using assms Cons by (auto simp: shape_ok_def)
    ultimately show ?thesis using True Cons by (auto simp: evict_with_clock_def)
  next
    case False
    let ?p = "pool\<lparr>free_candidates := is @ [i]\<rparr>"
    have ext: "pool_ext pool ?p" and ok: "shape_ok ?p" using assms Cons i by (auto simp: shape_ok_def)
    have "evict_with_clock pool d = evict_loop ?p d" using False Cons by (auto simp: evict_with_clock_def)
    then show ?thesis using evict_loop_spec [OF ok, of d] pool_ext_trans [OF ext] by auto
  qed
qed

lemma find_slot_spec:
  "shape_ok pool \<Longrightarrow>
   \<exists>r pool' d'. find_slot n pool d = Some (r, pool', d') \<and> pool_ext pool pool' \<and> shape_ok pool'
     \<and> (case r of None \<Rightarrow> d' = d | Some i \<Rightarrow> evictable pool' i \<and> d' = write_back pool' i d)"
proof (induction n arbitrary: pool)
  case 0
  then show ?case by simp
next
  case (Suc n)
  obtain r p1 d1 where ev: "evict_with_clock pool d = Some (r, p1, d1)" "pool_ext pool p1" "shape_ok p1"
    "case r of NeedRetry \<Rightarrow> d1 = d | Found i \<Rightarrow> evictable p1 i \<and> d1 = write_back p1 i d"
    using evict_with_clock_spec [OF Suc.prems] by blast
  show ?case
  proof (cases r)
    case (Found i)
    then show ?thesis using ev by auto
  next
    case NeedRetry
    then show ?thesis using ev Suc.IH [OF ev(3)] pool_ext_trans [OF ev(2)] by auto
  qed
qed

end
