(* ===== verification/Buffer_Versions.thy ===== *)
theory Buffer_Versions
  imports Buffer_Invariant
begin

text \<open>
  What pinning returns and what it leaves alone: \<open>pin_page\<close> serves the transaction's own version, else the
  newest resident version of its snapshot, else the page as it is on disk; looking for a slot never touches a
  version that is not committed.
\<close>

section \<open>The version chosen\<close>

definition holding :: "buffer_pool \<Rightarrow> page_key \<Rightarrow> nat set" where
  "holding pool key = {i. i < length (slots pool) \<and> slot_key (slots pool ! i) = Some key}"

lemma set_slots_of: "index_ok pool \<Longrightarrow> set (slots_of pool key) = holding pool key"
  by (simp add: index_ok_def holding_def)

abbreviation data_at :: "buffer_pool \<Rightarrow> nat \<Rightarrow> byte list" where
  "data_at pool i \<equiv> frame_data (slot_frame (slots pool ! i))"

abbreviation own_mark :: "transaction \<Rightarrow> u64" where
  "own_mark tx \<equiv> tx_id tx OR UNCOMMITTED_BIT"

lemma UNCOMMITTED_BIT_nonzero [simp]: "UNCOMMITTED_BIT \<noteq> 0"
  by (simp add: UNCOMMITTED_BIT_def)

lemma uncommitted_mark [simp]: "uncommitted (w OR UNCOMMITTED_BIT)"
proof -
  have "bit ((w OR UNCOMMITTED_BIT) AND UNCOMMITTED_BIT) 63"
    by (simp add: UNCOMMITTED_BIT_def bit_simps)
  then show ?thesis by (metis bit_0_eq bot_apply bot_bool_def)
qed

lemma best_visible_own:
  "i \<in> set is \<Longrightarrow> ver i = own \<Longrightarrow> \<exists>j \<in> set is. best_visible own rts ver is best bv = Some j \<and> ver j = own"
  by (induction "is" arbitrary: best bv) auto

lemma best_visible_other:
  "\<forall>i \<in> set is. ver i \<noteq> own \<Longrightarrow> (case best of None \<Rightarrow> bv = 0 | Some b \<Rightarrow> ver b = bv) \<Longrightarrow>
   (case best_visible own rts ver is best bv of
      None \<Rightarrow> best = None \<and> (\<forall>j \<in> set is. uncommitted (ver j) \<or> rts < ver j)
    | Some i \<Rightarrow> (best = Some i \<or> i \<in> set is \<and> \<not> uncommitted (ver i) \<and> ver i \<le> rts) \<and> bv \<le> ver i
        \<and> (\<forall>j \<in> set is. \<not> uncommitted (ver j) \<longrightarrow> ver j \<le> rts \<longrightarrow> ver j \<le> ver i))"
proof (induction "is" arbitrary: best bv)
  case Nil
  then show ?case by (auto split: option.splits)
next
  case (Cons i "is")
  show ?case
  proof (cases "\<not> uncommitted (ver i) \<and> ver i \<le> rts \<and> (ver i > bv \<or> ver i = 0 \<and> best = None)")
    case True
    then show ?thesis using Cons.IH [where best = "Some i" and bv = "ver i"] Cons.prems
      by (auto split: option.splits)
  next
    case False
    have "best_visible own rts ver (i # is) best bv = best_visible own rts ver is best bv"
      using False Cons.prems(1) by auto
    then show ?thesis using Cons.IH [where best = best and bv = bv] Cons.prems False
      by (auto split: option.splits simp: not_less)
  qed
qed

lemma visible_slot_cases:
  assumes "index_ok pool"
  obtains (own) i where "visible_slot pool key tx = Some i" "i \<in> holding pool key" "version_at pool i = own_mark tx"
  | (snapshot) i where "visible_slot pool key tx = Some i" "i \<in> holding pool key"
      "\<forall>j \<in> holding pool key. version_at pool j \<noteq> own_mark tx"
      "\<not> uncommitted (version_at pool i)" "version_at pool i \<le> read_ts tx"
      "\<forall>j \<in> holding pool key. \<not> uncommitted (version_at pool j) \<longrightarrow> version_at pool j \<le> read_ts tx \<longrightarrow>
         version_at pool j \<le> version_at pool i"
  | (miss) "visible_slot pool key tx = None" "\<forall>j \<in> holding pool key. version_at pool j \<noteq> own_mark tx"
      "\<forall>j \<in> holding pool key. uncommitted (version_at pool j) \<or> read_ts tx < version_at pool j"
proof -
  note S = set_slots_of [OF assms, of key]
  let ?b = "best_visible (own_mark tx) (read_ts tx) (version_at pool) (rev (slots_of pool key)) None 0"
  show ?thesis
  proof (cases "\<exists>j \<in> holding pool key. version_at pool j = own_mark tx")
    case True
    then obtain j where "j \<in> set (rev (slots_of pool key))" "version_at pool j = own_mark tx" using S by auto
    from best_visible_own [where ver = "version_at pool", OF this] show ?thesis using own S by (auto simp: visible_slot_def)
  next
    case False
    then have "\<forall>i \<in> set (rev (slots_of pool key)). version_at pool i \<noteq> own_mark tx" using S by auto
    from best_visible_other [where best = None and bv = 0 and rts = "read_ts tx", OF this]
    show ?thesis using snapshot miss False S by (cases ?b) (auto simp: visible_slot_def)
  qed
qed

lemma visible_slot_holding:
  assumes "index_ok pool" "visible_slot pool key tx = Some i"
  shows "i \<in> holding pool key"
  by (rule visible_slot_cases [OF assms(1), of key tx]) (use assms(2) in auto)

section \<open>What pinning does\<close>

lemma pin_page_cases:
  assumes "pool_inv pool"
  obtains (hit) i where "visible_slot pool key tx = Some i" "i \<in> holding pool key"
      "pin_page pool d key tx = Some (Ok (i, pin_slot i pool, d))"
  | (load) i p1 where "visible_slot pool key tx = None" "pool_ext pool p1" "pool_inv p1" "evictable p1 i"
      "pin_page pool d key tx = Some (Ok (i,
         pin_slot i (install_frame i key (new_frame (load_page (write_back p1 i d) key) 0) False p1), write_back p1 i d))"
  | (full) "visible_slot pool key tx = None" "pin_page pool d key tx = Some exhausted"
proof (cases "visible_slot pool key tx")
  case (Some i)
  moreover have "i \<in> holding pool key"
    using assms Some by (intro visible_slot_holding) (auto simp: pool_inv_def)
  ultimately show ?thesis using hit by (simp add: pin_page_def)
next
  case None
  have "shape_ok pool" using assms by (simp add: pool_inv_def)
  from find_slot_spec [OF this, of MAX_EVICT_RETRIES d]
  obtain r p1 d1 where f: "find_slot MAX_EVICT_RETRIES pool d = Some (r, p1, d1)" "pool_ext pool p1" "shape_ok p1"
    "case r of None \<Rightarrow> d1 = d | Some i \<Rightarrow> evictable p1 i \<and> d1 = write_back p1 i d" by blast
  then have "pool_inv p1" using pool_inv_ext [OF assms] by blast
  then show ?thesis using None f load full by (cases r) (auto simp: pin_page_def)
qed

lemma uncommitted_not_evictable:
  "pool_inv pool \<Longrightarrow> evictable pool i \<Longrightarrow> \<not> uncommitted (version_at pool i)"
  using slot_ok_nth [of pool i] by (auto simp: evictable_def slot_ok_def)

lemma pin_slot_simps [simp]:
  "slots (pin_slot i pool) = (slots pool)[i := (slots pool ! i)\<lparr>slot_frame := (slot_frame (slots pool ! i))\<lparr>pin_count := pin_count (slot_frame (slots pool ! i)) + 1\<rparr>\<rparr>]"
  "file_handles (pin_slot i pool) = file_handles pool"
  by (simp_all add: pin_slot_def)

text \<open>The versions an operation must not touch.\<close>

definition keeps_uncommitted :: "buffer_pool \<Rightarrow> buffer_pool \<Rightarrow> bool" where
  "keeps_uncommitted pool pool' \<longleftrightarrow> (\<forall>j < length (slots pool). uncommitted (version_at pool j) \<longrightarrow>
     j < length (slots pool') \<and> slot_key (slots pool' ! j) = slot_key (slots pool ! j)
     \<and> version_at pool' j = version_at pool j \<and> data_at pool' j = data_at pool j)"

lemma keeps_refl [simp]: "keeps_uncommitted pool pool"
  by (simp add: keeps_uncommitted_def)

lemma keeps_trans: "keeps_uncommitted p q \<Longrightarrow> keeps_uncommitted q r \<Longrightarrow> keeps_uncommitted p r"
  by (auto simp: keeps_uncommitted_def)

lemma keeps_ext:
  assumes "pool_ext p q"
  shows "keeps_uncommitted p q"
  using pool_ext_slot [OF assms] pool_ext_nth(1) [OF assms] by (auto simp: keeps_uncommitted_def)

lemma keeps_pin: "i < length (slots pool) \<Longrightarrow> keeps_uncommitted pool (pin_slot i pool)"
  by (auto simp: keeps_uncommitted_def nth_list_update)

lemma keeps_install:
  assumes "\<not> uncommitted (version_at pool i)"
  shows "keeps_uncommitted pool (install_frame i k fr d pool)"
  unfolding keeps_uncommitted_def
proof (intro allI impI)
  fix j assume "j < length (slots pool)" "uncommitted (version_at pool j)"
  moreover from this have "i \<noteq> j" using assms by auto
  ultimately show "j < length (slots (install_frame i k fr d pool))
      \<and> slot_key (slots (install_frame i k fr d pool) ! j) = slot_key (slots pool ! j)
      \<and> version_at (install_frame i k fr d pool) j = version_at pool j
      \<and> data_at (install_frame i k fr d pool) j = data_at pool j" by simp
qed

lemma pool_inv_load:
  assumes "pool_inv p1" "evictable p1 i"
  shows "pool_inv (install_frame i key (new_frame bs 0) False p1)"
  using assms by (intro pool_inv_install) (auto simp: evictable_def slot_ok_def new_frame_def)

lemma pool_inv_pin_page:
  assumes "pool_inv pool" "pin_page pool d key tx = Some (Ok (i, pool', d'))"
  shows "pool_inv pool'" and "keeps_uncommitted pool pool'"
proof -
  have "pool_inv pool' \<and> keeps_uncommitted pool pool'"
  proof (rule pin_page_cases [OF assms(1), of key tx d])
    fix j assume "j \<in> holding pool key" "pin_page pool d key tx = Some (Ok (j, pin_slot j pool, d))"
    then show ?thesis using assms pool_inv_pin keeps_pin by (auto simp: holding_def)
  next
    fix j p1
    let ?p = "install_frame j key (new_frame (load_page (write_back p1 j d) key) 0) False p1"
    assume h: "pool_ext pool p1" "pool_inv p1" "evictable p1 j"
      "pin_page pool d key tx = Some (Ok (j, pin_slot j ?p, write_back p1 j d))"
    have j: "j < length (slots ?p)" using h(3) by (simp add: evictable_def)
    have "keeps_uncommitted pool ?p"
      using keeps_trans [OF keeps_ext [OF h(1)] keeps_install] uncommitted_not_evictable [OF h(2,3)] by blast
    then show ?thesis
      using h(4) assms(2) pool_inv_pin [OF pool_inv_load [OF h(2,3)] j] keeps_trans [OF _ keeps_pin [OF j]] by auto
  qed (use assms(2) in auto)
  then show "pool_inv pool'" "keeps_uncommitted pool pool'" by auto
qed

section \<open>Copy on write\<close>

lemma copy_source_own: "i \<in> set is \<Longrightarrow> ver i = own \<Longrightarrow> \<exists>j \<in> set is. copy_source own ver is src bv = Inl j \<and> ver j = own"
  by (induction "is" arbitrary: src bv) auto

lemma copy_source_other:
  "\<forall>i \<in> set is. ver i \<noteq> own \<Longrightarrow> (case src of None \<Rightarrow> bv = 0 | Some b \<Rightarrow> ver b = bv) \<Longrightarrow>
   (case copy_source own ver is src bv of
        Inl _ \<Rightarrow> False
      | Inr None \<Rightarrow> src = None \<and> (\<forall>j \<in> set is. uncommitted (ver j))
      | Inr (Some i) \<Rightarrow> (src = Some i \<or> i \<in> set is \<and> \<not> uncommitted (ver i)) \<and> bv \<le> ver i
          \<and> (\<forall>j \<in> set is. \<not> uncommitted (ver j) \<longrightarrow> ver j \<le> ver i))"
proof (induction "is" arbitrary: src bv)
  case Nil
  then show ?case by (auto split: option.splits sum.splits)
next
  case (Cons i "is")
  show ?case
  proof (cases "\<not> uncommitted (ver i) \<and> (ver i > bv \<or> ver i = 0 \<and> src = None)")
    case True
    then show ?thesis using Cons.IH [where src = "Some i" and bv = "ver i"] Cons.prems
      by (auto split: option.splits sum.splits)
  next
    case False
    have "copy_source own ver (i # is) src bv = copy_source own ver is src bv" using False Cons.prems(1) by auto
    then show ?thesis using Cons.IH [where src = src and bv = bv] Cons.prems False
      by (auto split: option.splits sum.splits simp: not_less)
  qed
qed

text \<open>The content a new version starts from: the newest committed version, or the file.\<close>

definition committed_source :: "buffer_pool \<Rightarrow> disk \<Rightarrow> page_key \<Rightarrow> byte list \<Rightarrow> bool" where
  "committed_source pool d key bs \<longleftrightarrow>
     (if \<forall>j \<in> holding pool key. uncommitted (version_at pool j) then bs = load_page d key
      else \<exists>i \<in> holding pool key. \<not> uncommitted (version_at pool i) \<and> bs = data_at pool i
        \<and> (\<forall>j \<in> holding pool key. \<not> uncommitted (version_at pool j) \<longrightarrow> version_at pool j \<le> version_at pool i))"

lemma create_cases:
  assumes "pool_inv pool"
  obtains (own) i where "i \<in> holding pool key" "version_at pool i = own_mark tx"
      "create_new_version pool d key tx = Some (Ok (i, tx\<lparr>modified_pages := modified_pages tx @ [key]\<rparr>,
         upd_slot i (\<lambda>s. s\<lparr>slot_referenced := True\<rparr>) (pin_slot i pool), d))"
  | (copy) i p1 bs where "\<forall>j \<in> holding pool key. version_at pool j \<noteq> own_mark tx" "committed_source pool d key bs"
      "pool_ext (pool\<lparr>file_handles := insert (fst key) (file_handles pool)\<rparr>) p1" "pool_inv p1" "evictable p1 i"
      "create_new_version pool d key tx = Some (Ok (i, tx\<lparr>modified_pages := modified_pages tx @ [key]\<rparr>,
         pin_slot i (let p = install_frame i key (new_frame bs (own_mark tx)) True p1
                     in p\<lparr>dirty_count := dirty_count p + 1\<rparr>), write_back p1 i d))"
  | (full) "create_new_version pool d key tx = Some exhausted"
proof -
  have ix: "index_ok pool" using assms by (simp add: pool_inv_def)
  note S = set_slots_of [OF ix, of key]
  show ?thesis
  proof (cases "\<exists>j \<in> holding pool key. version_at pool j = own_mark tx")
    case True
    then obtain j where "j \<in> set (rev (slots_of pool key))" "version_at pool j = own_mark tx" using S by auto
    from copy_source_own [where ver = "version_at pool" and src = None and bv = 0, OF this] show ?thesis
      using own S by (auto simp: create_new_version_def Let_def)
  next
    case False
    then have no: "\<forall>i \<in> set (rev (slots_of pool key)). version_at pool i \<noteq> own_mark tx" using S by auto
    obtain r where r: "copy_source (own_mark tx) (version_at pool) (rev (slots_of pool key)) None 0 = Inr r"
      and rs: "case r of None \<Rightarrow> \<forall>j \<in> holding pool key. uncommitted (version_at pool j)
        | Some i \<Rightarrow> i \<in> holding pool key \<and> \<not> uncommitted (version_at pool i)
            \<and> (\<forall>j \<in> holding pool key. \<not> uncommitted (version_at pool j) \<longrightarrow> version_at pool j \<le> version_at pool i)"
      using copy_source_other [where src = None and bv = 0, OF no] S that by (auto split: option.splits sum.splits)
    define bs where "bs = (case r of Some j \<Rightarrow> data_at pool j | None \<Rightarrow> load_page d key)"
    let ?ph = "pool\<lparr>file_handles := insert (fst key) (file_handles pool)\<rparr>"
    have src: "committed_source pool d key bs" using rs by (auto simp: committed_source_def bs_def split: option.splits)
    have p0: "pool_inv ?ph" using assms by (auto simp: inv_defs slots_of_def)
    then have "shape_ok ?ph" by (simp add: pool_inv_def)
    from find_slot_spec [OF this, of MAX_EVICT_RETRIES d]
    obtain q p1 d1 where f: "find_slot MAX_EVICT_RETRIES ?ph d = Some (q, p1, d1)" "pool_ext ?ph p1" "shape_ok p1"
      "case q of None \<Rightarrow> d1 = d | Some i \<Rightarrow> evictable p1 i \<and> d1 = write_back p1 i d" by blast
    have p1: "pool_inv p1" using pool_inv_ext [OF p0] f by blast
    show ?thesis
    proof (cases q)
      case None
      then show ?thesis using full f(1) r by (simp add: create_new_version_def Let_def)
    next
      case (Some i)
      have "\<forall>j \<in> holding pool key. version_at pool j \<noteq> own_mark tx" using False by blast
      then show ?thesis
        using copy [of bs p1 i] src f Some p1 r by (simp add: create_new_version_def Let_def bs_def)
    qed
  qed
qed

lemma pool_inv_create:
  assumes "pool_inv pool" "create_new_version pool d key tx = Some (Ok (i, tx', pool', d'))"
  shows "pool_inv pool'" and "keeps_uncommitted pool pool'"
proof -
  have "pool_inv pool' \<and> keeps_uncommitted pool pool'"
  proof (rule create_cases [OF assms(1), of key tx d])
    fix j
    assume j: "j \<in> holding pool key" "create_new_version pool d key tx = Some (Ok (j,
      tx\<lparr>modified_pages := modified_pages tx @ [key]\<rparr>, upd_slot j (\<lambda>s. s\<lparr>slot_referenced := True\<rparr>) (pin_slot j pool), d))"
    then have l: "j < length (slots (pin_slot j pool))" and pin: "pool_inv (pin_slot j pool)"
      using pool_inv_pin [OF assms(1)] by (auto simp: holding_def)
    have "pool_inv (upd_slot j (\<lambda>s. s\<lparr>slot_referenced := True\<rparr>) (pin_slot j pool))"
      using pool_inv_upd [OF pin l, of "\<lambda>s. s\<lparr>slot_referenced := True\<rparr>"] slot_ok_nth [OF pin l] by (simp add: slot_ok_def)
    moreover have "keeps_uncommitted pool (upd_slot j (\<lambda>s. s\<lparr>slot_referenced := True\<rparr>) (pin_slot j pool))"
      using l by (auto simp: keeps_uncommitted_def nth_list_update)
    ultimately show ?thesis using assms(2) j(2) by auto
  next
    fix j p1 bs
    let ?ph = "pool\<lparr>file_handles := insert (fst key) (file_handles pool)\<rparr>"
    let ?p = "install_frame j key (new_frame bs (own_mark tx)) True p1"
    assume h: "\<forall>j \<in> holding pool key. version_at pool j \<noteq> own_mark tx" "pool_ext ?ph p1" "pool_inv p1" "evictable p1 j"
      "create_new_version pool d key tx = Some (Ok (j, tx\<lparr>modified_pages := modified_pages tx @ [key]\<rparr>,
         pin_slot j (let p = ?p in p\<lparr>dirty_count := dirty_count p + 1\<rparr>), write_back p1 j d))"
    let ?q = "?p\<lparr>dirty_count := dirty_count ?p + 1\<rparr>"
    have j: "j < length (slots ?q)" using h(4) by (simp add: evictable_def)
    have key: "fst key \<in> file_handles p1" using h(2) by (simp add: pool_ext_def)
    have fresh: "version_at p1 a \<noteq> own_mark tx" if "a < length (slots p1)" "slot_key (slots p1 ! a) = Some key" for a
    proof (cases "a < length (slots ?ph)")
      case True
      then have "a \<in> holding pool key" using pool_ext_slot(1) [OF h(2)] that by (simp add: holding_def)
      then show ?thesis using h(1) pool_ext_slot(2) [OF h(2) True] by auto
    next
      case False
      then show ?thesis using pool_ext_new_slot(1) [OF h(2), of a] that by simp
    qed
    have "pool_inv ?p"
      using h(3) j key fresh by (intro pool_inv_install) (auto simp: slot_ok_def new_frame_def)
    then have q: "pool_inv ?q" by (simp add: inv_defs slots_of_def)
    have "keeps_uncommitted pool ?ph" by (simp add: keeps_uncommitted_def)
    moreover have "keeps_uncommitted p1 ?p" using keeps_install uncommitted_not_evictable [OF h(3,4)] by blast
    moreover have "keeps_uncommitted ?p ?q" by (simp add: keeps_uncommitted_def)
    ultimately have "keeps_uncommitted pool ?q" using keeps_trans keeps_ext [OF h(2)] by blast
    then show ?thesis
      using h(5) assms(2) pool_inv_pin [OF q j] keeps_trans [OF _ keeps_pin [OF j]] by (auto simp: Let_def)
  qed (use assms(2) in auto)
  then show "pool_inv pool'" "keeps_uncommitted pool pool'" by auto
qed

lemma pool_inv_prefetch:
  assumes "pool_inv pool" "prefetch_page pool d key = Some (pool', d')"
  shows "pool_inv pool'" and "keeps_uncommitted pool pool'"
proof -
  have "shape_ok pool" using assms(1) by (simp add: pool_inv_def)
  from evict_with_clock_spec [OF this, of d]
  obtain r p1 d1 where ev: "evict_with_clock pool d = Some (r, p1, d1)" "pool_ext pool p1" "shape_ok p1"
    "case r of NeedRetry \<Rightarrow> d1 = d | Found i \<Rightarrow> evictable p1 i \<and> d1 = write_back p1 i d" by blast
  have p1: "pool_inv p1" "keeps_uncommitted pool p1" using pool_inv_ext [OF assms(1)] keeps_ext ev by auto
  have "pool_inv (install_frame i key (new_frame bs 0) False p1)"
    "keeps_uncommitted pool (install_frame i key (new_frame bs 0) False p1)" if "evictable p1 i" for i bs
    using pool_inv_load [OF p1(1) that] keeps_trans [OF p1(2) keeps_install [OF uncommitted_not_evictable [OF p1(1) that]]]
    by auto
  then show "pool_inv pool'" "keeps_uncommitted pool pool'"
    using assms ev p1 by (auto simp: prefetch_page_def Let_def split: if_splits evict_result.splits)
qed

end
