(* ===== verification/Buffer_Steps.thy ===== *)
theory Buffer_Steps
  imports Buffer_Versions
begin

text \<open>
  The remaining operations of a buffer pool shard keep its invariant, and the shard as a step relation over
  all its operations. The properties of the shard follow from the invariant.
\<close>

section \<open>Slots given up\<close>

definition clear_all :: "nat set \<Rightarrow> buffer_slot list \<Rightarrow> buffer_slot list" where
  "clear_all S ss = map (\<lambda>i. if i \<in> S then empty_slot else ss ! i) [0..<length ss]"

lemma length_clear_all [simp]: "length (clear_all S ss) = length ss"
  by (simp add: clear_all_def)

lemma nth_clear_all [simp]: "i < length ss \<Longrightarrow> clear_all S ss ! i = (if i \<in> S then empty_slot else ss ! i)"
  by (simp add: clear_all_def)

lemma pool_inv_clear_all:
  assumes inv: "pool_inv pool" and sl: "slots p' = clear_all S (slots pool)"
    and ix: "\<And>k. slots_of p' k = filter (\<lambda>i. i \<notin> S) (slots_of pool k)"
    and h: "file_handles p' = file_handles pool" and sh: "shape_ok p'"
  shows "pool_inv p'"
proof -
  have "set (slots_of pool k) = {i. i < length (slots pool) \<and> slot_key (slots pool ! i) = Some k}"
    "distinct (slots_of pool k)" for k
    using inv by (auto simp: pool_inv_def index_ok_def)
  then have "index_ok p'" using sl ix by (auto simp: index_ok_def empty_slot_def split: if_splits)
  moreover have "\<forall>s \<in> set (slots p'). slot_ok (file_handles p') s"
    using slot_ok_nth [OF inv] sl h by (auto simp: in_set_conv_nth)
  moreover have "owner_unique (slots p')"
    using inv sl by (auto simp: pool_inv_def owner_unique_def empty_slot_def new_frame_def)
  ultimately show ?thesis using sh by (simp add: pool_inv_def)
qed

text \<open>
  The loops that give up the slots of a list for which \<open>Q\<close> holds; \<open>g\<close> is \<open>clear_slot\<close> or \<open>free_slot\<close>.
\<close>

definition clears :: "(nat \<Rightarrow> buffer_pool \<Rightarrow> buffer_pool) \<Rightarrow> bool" where
  "clears g \<longleftrightarrow> (\<forall>i p. slots (g i p) = (slots p)[i := empty_slot] \<and> page_to_slots (g i p) = page_to_slots p
     \<and> file_handles (g i p) = file_handles p \<and> clock_ptr (g i p) = clock_ptr p \<and> capacity (g i p) = capacity p
     \<and> max_capacity (g i p) = max_capacity p \<and> set (free_candidates (g i p)) \<subseteq> insert i (set (free_candidates p)))"

lemma clears_clear_slot: "clears clear_slot" and clears_free_slot: "clears free_slot"
  by (auto simp: clears_def)

lemma fold_clears:
  fixes g :: "nat \<Rightarrow> buffer_pool \<Rightarrow> buffer_pool" and Q :: "buffer_slot \<Rightarrow> bool"
  assumes g: "clears g"
  defines "f \<equiv> \<lambda>i p. if Q (slots p ! i) then g i p else p"
  shows "distinct is \<Longrightarrow> set is \<subseteq> {..<length (slots pool)} \<Longrightarrow>
    slots (fold f is pool) = clear_all {i \<in> set is. Q (slots pool ! i)} (slots pool)
    \<and> page_to_slots (fold f is pool) = page_to_slots pool \<and> file_handles (fold f is pool) = file_handles pool
    \<and> (shape_ok pool \<longrightarrow> shape_ok (fold f is pool))"
proof (induction "is" arbitrary: pool)
  case Nil
  then show ?case by (auto simp: clear_all_def intro: nth_equalityI)
next
  case (Cons i "is")
  have len: "length (slots (f i pool)) = length (slots pool)" using g by (simp add: f_def clears_def)
  have sl: "slots (f i pool) = (if Q (slots pool ! i) then (slots pool)[i := empty_slot] else slots pool)"
    using g by (simp add: f_def clears_def)
  have rest: "slots (f i pool) ! j = slots pool ! j" if "j \<in> set is" for j
    using that Cons.prems by (cases "i = j") (auto simp: sl)
  have shape: "shape_ok (f i pool)" if "shape_ok pool"
  proof -
    have "i < capacity pool" using that Cons.prems(2) by (auto simp: shape_ok_def)
    moreover have "set (free_candidates (f i pool)) \<subseteq> insert i (set (free_candidates pool))"
      using g by (auto simp: f_def clears_def)
    moreover have "capacity (f i pool) = capacity pool" "max_capacity (f i pool) = max_capacity pool"
      "clock_ptr (f i pool) = clock_ptr pool" using g by (auto simp: f_def clears_def)
    ultimately show ?thesis using that len by (auto simp: shape_ok_def)
  qed
  have IH: "slots (fold f is (f i pool)) = clear_all {j \<in> set is. Q (slots (f i pool) ! j)} (slots (f i pool))
    \<and> page_to_slots (fold f is (f i pool)) = page_to_slots (f i pool)
    \<and> file_handles (fold f is (f i pool)) = file_handles (f i pool)
    \<and> (shape_ok (f i pool) \<longrightarrow> shape_ok (fold f is (f i pool)))"
    using Cons.IH [of "f i pool"] Cons.prems len by simp
  have "{j \<in> set is. Q (slots (f i pool) ! j)} = {j \<in> set is. Q (slots pool ! j)}" using rest by auto
  then have "slots (fold f (i # is) pool) = clear_all {j \<in> set (i # is). Q (slots pool ! j)} (slots pool)"
    using IH Cons.prems len by (intro nth_equalityI) (auto simp: sl nth_list_update)
  moreover have "page_to_slots (f i pool) = page_to_slots pool" "file_handles (f i pool) = file_handles pool"
    using g by (auto simp: f_def clears_def)
  ultimately show ?case using IH shape by simp
qed

lemma filter_not_in_other:
  "pool_inv pool \<Longrightarrow> S \<subseteq> set (slots_of pool key) \<Longrightarrow> k \<noteq> key \<Longrightarrow>
   filter (\<lambda>i. i \<notin> S) (slots_of pool k) = slots_of pool k"
  by (rule filter_True) (auto simp: pool_inv_def index_ok_def)

lemma slots_of_props:
  assumes "pool_inv pool"
  shows "distinct (slots_of pool key)" "set (slots_of pool key) \<subseteq> {..<length (slots pool)}"
  using assms by (auto simp: pool_inv_def index_ok_def)

lemma shape_ok_relink [simp]: "shape_ok (relink k is p) = shape_ok p"
  by (simp add: shape_ok_def)

lemma pool_inv_relink_cleared:
  assumes inv: "pool_inv pool" and g: "clears g"
    and p: "p = fold (\<lambda>i p. if Q (slots p ! i) then g i p else p) (slots_of pool key) pool"
    and rest: "remaining = filter (\<lambda>i. \<not> Q (slots pool ! i)) (slots_of pool key)"
  shows "pool_inv (relink key remaining p)"
proof (rule pool_inv_clear_all [OF inv])
  note fc = fold_clears [OF g slots_of_props [OF inv, of key], of Q]
  let ?S = "{i \<in> set (slots_of pool key). Q (slots pool ! i)}"
  show "slots (relink key remaining p) = clear_all ?S (slots pool)" using fc p by simp
  show "file_handles (relink key remaining p) = file_handles pool" using fc p by simp
  show "shape_ok (relink key remaining p)" using fc p inv by (simp add: pool_inv_def)
  show "slots_of (relink key remaining p) k = filter (\<lambda>i. i \<notin> ?S) (slots_of pool k)" for k
  proof (cases "k = key")
    case True
    then show ?thesis by (auto simp: slots_of_relink rest intro!: filter_cong)
  next
    case False
    have "slots_of p k = slots_of pool k" using fc p by (intro slots_of_cong) simp
    then show ?thesis using False filter_not_in_other [OF inv _ False, of ?S] by (simp add: slots_of_relink)
  qed
qed

lemma pool_inv_evict_superseded:
  assumes "pool_inv pool"
  shows "pool_inv (evict_superseded_committed_versions key v pool)"
proof (cases "page_to_slots pool key")
  case None
  then show ?thesis using assms by (simp add: evict_superseded_committed_versions_def)
next
  case (Some "is")
  let ?Q = "\<lambda>s. \<not> uncommitted (version (slot_frame s)) \<and> version (slot_frame s) < v \<and> pin_count (slot_frame s) = 0"
  have is': "is = slots_of pool key" using Some by (simp add: slots_of_def)
  define p where "p = fold (\<lambda>i p. if ?Q (slots p ! i) then free_slot i p else p) (slots_of pool key) pool"
  have "slots p = clear_all {i \<in> set (slots_of pool key). ?Q (slots pool ! i)} (slots pool)"
    using fold_clears [OF clears_free_slot slots_of_props [OF assms, of key], of ?Q] by (simp add: p_def)
  moreover have "slot_key (slots pool ! i) = Some key \<and> i < length (slots pool)" if "i \<in> set (slots_of pool key)" for i
    using that assms slots_ofD by (auto simp: pool_inv_def)
  ultimately have "filter (\<lambda>i. slot_key (slots p ! i) \<noteq> None) is = filter (\<lambda>i. \<not> ?Q (slots pool ! i)) (slots_of pool key)"
    unfolding is' by (intro filter_cong refl) (simp add: empty_slot_def)
  then have "pool_inv (relink key (filter (\<lambda>i. slot_key (slots p ! i) \<noteq> None) is) p)"
    using pool_inv_relink_cleared [OF assms clears_free_slot p_def refl] by simp
  moreover have "evict_superseded_committed_versions key v pool
      = relink key (filter (\<lambda>i. slot_key (slots p ! i) \<noteq> None) is) p"
    unfolding evict_superseded_committed_versions_def Some option.case Let_def p_def is' by (rule refl)
  ultimately show ?thesis by simp
qed

lemma pool_inv_invalidate:
  assumes "pool_inv pool"
  shows "pool_inv (invalidate_page key pool)"
proof (cases "page_to_slots pool key")
  case None
  then show ?thesis using assms by (simp add: invalidate_page_def)
next
  case (Some "is")
  have is': "is = slots_of pool key" using Some by (simp add: slots_of_def)
  let ?Q = "\<lambda>s. slot_key s = Some key"
  have "filter (\<lambda>i. \<not> ?Q (slots pool ! i)) (slots_of pool key) = []"
    using assms by (auto simp: pool_inv_def filter_empty_conv dest: slots_ofD)
  then show ?thesis
    using pool_inv_relink_cleared [OF assms clears_clear_slot refl refl, where Q = ?Q and key = key] Some
    by (simp add: invalidate_page_def relink_def is' Let_def)
qed

lemma pool_inv_rollback_slot:
  assumes "pool_inv pool" "i < length (slots pool)"
  shows "pool_inv (rollback_slot t i pool)" and "length (slots (rollback_slot t i pool)) = length (slots pool)"
  using assms pool_inv_clear_unlinked(1) [OF assms] by (auto simp: rollback_slot_def)

lemma pool_inv_fold:
  assumes "\<And>i p. pool_inv p \<Longrightarrow> i < length (slots p) \<Longrightarrow> pool_inv (f i p) \<and> length (slots (f i p)) = length (slots p)"
  shows "pool_inv pool \<Longrightarrow> set is \<subseteq> {..<length (slots pool)} \<Longrightarrow>
    pool_inv (fold f is pool) \<and> length (slots (fold f is pool)) = length (slots pool)"
  using assms by (induction "is" arbitrary: pool) auto

lemma pool_inv_rollback: "pool_inv pool \<Longrightarrow> pool_inv (rollback_versions t pool)"
  using pool_inv_fold [of "rollback_slot t" pool "[0..<length (slots pool)]"] pool_inv_rollback_slot
  by (auto simp: rollback_versions_def atLeast0LessThan)

lemma pool_inv_reclaim: "pool_inv pool \<Longrightarrow> pool_inv (snd (reclaim_expired_versions m pool))"
  using pool_inv_fold [of "\<lambda>i p. free_slot i (unlink_slot i p)" pool "filter (reclaimable m pool) [0..<length (slots pool)]"]
    pool_inv_clear_unlinked(2) by (auto simp: reclaim_expired_versions_def Let_def)

lemma pool_inv_set_committed:
  assumes "pool_inv pool" "i < length (slots pool)" "\<not> uncommitted cts" "slot_key (slots pool ! i) \<noteq> None"
  shows "pool_inv (upd_slot i (\<lambda>s. s\<lparr>slot_frame := (slot_frame s)\<lparr>version := cts\<rparr>\<rparr>) pool)"
proof -
  let ?s = "(slots pool ! i)\<lparr>slot_frame := (slot_frame (slots pool ! i))\<lparr>version := cts\<rparr>\<rparr>"
  have "owner_unique ((slots pool)[i := ?s])"
    using assms by (intro owner_unique_update) (auto simp: pool_inv_def)
  moreover have "\<forall>s \<in> set ((slots pool)[i := ?s]). slot_ok (file_handles pool) s"
    using assms slot_ok_nth [OF assms(1,2)] by (intro slots_ok_update) (auto simp: pool_inv_def slot_ok_def)
  ultimately show ?thesis
    using assms index_ok_upd [of pool "\<lambda>s. s\<lparr>slot_frame := (slot_frame s)\<lparr>version := cts\<rparr>\<rparr>" i]
    by (simp add: pool_inv_def shape_ok_def)
qed

lemma pool_inv_update_timestamps:
  assumes "pool_inv pool" "\<not> uncommitted cts"
  shows "pool_inv (update_timestamps key t cts pool)"
proof -
  let ?f = "\<lambda>i pool. if version_at pool i = t OR UNCOMMITTED_BIT
                    then upd_slot i (\<lambda>s. s\<lparr>slot_frame := (slot_frame s)\<lparr>version := cts\<rparr>\<rparr>) pool else pool"
  have "pool_inv (?f i p) \<and> length (slots (?f i p)) = length (slots p)" if "pool_inv p" "i < length (slots p)" for i p
  proof (cases "version_at p i = t OR UNCOMMITTED_BIT")
    case True
    then have "uncommitted (version_at p i)" by simp
    then have "slot_key (slots p ! i) \<noteq> None" using slot_ok_nth [OF that] by (auto simp: slot_ok_def)
    then show ?thesis using pool_inv_set_committed [OF that assms(2)] True by simp
  qed (use that in simp)
  from pool_inv_fold [of ?f, OF this assms(1) slots_of_props(2) [OF assms(1)], of key]
  show ?thesis by (simp add: update_timestamps_def)
qed

lemma pool_inv_mark_clean:
  assumes "pool_inv pool" "i < length (slots pool)" "\<not> uncommitted (version_at pool i)"
  shows "pool_inv (mark_clean i pool)"
    and "pool_inv (decrement_dirty_count (upd_slot i (\<lambda>s. s\<lparr>slot_dirty := False\<rparr>) pool))"
proof -
  have "pool_inv (upd_slot i (\<lambda>s. s\<lparr>slot_dirty := False\<rparr>) pool)"
    using assms slot_ok_nth [OF assms(1,2)] by (intro pool_inv_upd) (auto simp: slot_ok_def)
  then show "pool_inv (mark_clean i pool)"
    "pool_inv (decrement_dirty_count (upd_slot i (\<lambda>s. s\<lparr>slot_dirty := False\<rparr>) pool))"
    by (auto simp: mark_clean_def inv_defs)
qed

lemma mark_clean_simps [simp]:
  "slots (mark_clean i pool) = (slots pool)[i := (slots pool ! i)\<lparr>slot_dirty := False\<rparr>]"
  "file_handles (mark_clean i pool) = file_handles pool" "page_to_slots (mark_clean i pool) = page_to_slots pool"
  by (simp_all add: mark_clean_def)

lemma pool_inv_flush_fold:
  "pool_inv pool \<Longrightarrow> set is \<subseteq> {..<length (slots pool)} \<Longrightarrow> pool_inv (fst (fold (flush_slot handles) is (pool, d)))"
proof (induction "is" arbitrary: pool d)
  case Nil
  then show ?case by simp
next
  case (Cons i "is")
  obtain p1 d1 where fs: "flush_slot handles i (pool, d) = (p1, d1)" by fastforce
  then have "p1 = pool \<or> p1 = mark_clean i pool \<and> \<not> uncommitted (version_at pool i)"
    by (auto simp: flush_slot_def Let_def split: if_splits option.splits)
  then have "pool_inv p1" "length (slots p1) = length (slots pool)"
    using Cons.prems pool_inv_mark_clean(1) by auto
  then show ?case using Cons.IH [of p1 d1] Cons.prems fs by simp
qed

lemma pool_inv_flush: "pool_inv pool \<Longrightarrow> pool_inv (fst (flush_all pool d))"
  "pool_inv pool \<Longrightarrow> pool_inv (fst (flush_all_with_handles handles pool d))"
  using pool_inv_flush_fold [of pool "[0..<length (slots pool)]"]
  by (auto simp: flush_all_def flush_all_with_handles_def atLeast0LessThan)

lemma pool_inv_reset: "pool_inv pool \<Longrightarrow> pool_inv (reset_referenced pool)"
  by (rule pool_inv_ext [of pool])
    (auto simp: reset_referenced_def pool_ext_def pool_inv_def shape_ok_def strip_def intro!: exI [of _ 0])

lemma evict_page_fst:
  "fst (fold (\<lambda>i (p, d). if uncommitted (version_at p i) then (p, d) else (free_slot i p, h i p d)) is (pool, d))
   = fold (\<lambda>i p. if \<not> uncommitted (version (slot_frame (slots p ! i))) then free_slot i p else p) is pool"
  by (induction "is" arbitrary: pool d) auto

lemma pool_inv_evict_page:
  assumes "pool_inv pool"
  shows "pool_inv (fst (evict_page key (pool, d)))"
proof (cases "slots_of pool key = []")
  case True
  then show ?thesis using assms by (simp add: evict_page_def)
next
  case False
  let ?Q = "\<lambda>s. \<not> uncommitted (version (slot_frame s))"
  let ?h = "\<lambda>i p d. case slot_key (slots p ! i) of
       Some k \<Rightarrow> if slot_dirty (slots p ! i) \<and> fst k \<in> file_handles p then write_page k (data_at p i) d else d
     | None \<Rightarrow> d"
  have "fst (evict_page key (pool, d)) = relink key (filter (\<lambda>i. \<not> ?Q (slots pool ! i)) (slots_of pool key))
      (fst (fold (\<lambda>i (p, d). if uncommitted (version_at p i) then (p, d) else (free_slot i p, ?h i p d)) (slots_of pool key) (pool, d)))"
    using False unfolding evict_page_def Let_def by (simp add: case_prod_beta)
  then show ?thesis
    unfolding evict_page_fst using pool_inv_relink_cleared [OF assms clears_free_slot refl refl, where Q = ?Q] by simp
qed

section \<open>Flushing the pages of a commit\<close>

text \<open>The committed dirty versions of the pages to flush.\<close>

definition candidate :: "buffer_pool \<Rightarrow> page_key set \<Rightarrow> page_key \<Rightarrow> nat \<Rightarrow> bool" where
  "candidate pool targets k i \<longleftrightarrow> i < length (slots pool) \<and> slot_dirty (slots pool ! i)
     \<and> slot_key (slots pool ! i) = Some k \<and> k \<in> targets \<and> \<not> uncommitted (version_at pool i)"

definition chosen :: "buffer_pool \<Rightarrow> page_key set \<Rightarrow> nat \<Rightarrow> page_key \<Rightarrow> (nat \<times> u64) option \<Rightarrow> bool" where
  "chosen orig targets n k r \<longleftrightarrow>
     (case r of
        None \<Rightarrow> \<forall>i < n. \<not> candidate orig targets k i
      | Some (j, v) \<Rightarrow> j < n \<and> candidate orig targets k j \<and> v = version_at orig j
          \<and> (\<forall>i < n. candidate orig targets k i \<longrightarrow> version_at orig i \<le> v))"

lemma chosen_skip: "\<not> candidate orig targets k n \<Longrightarrow> chosen orig targets (Suc n) k r = chosen orig targets n k r"
  by (auto simp: chosen_def less_Suc_eq split: option.splits)

lemma chosen_first: "candidate orig targets k n \<Longrightarrow> chosen orig targets n k None \<Longrightarrow>
    chosen orig targets (Suc n) k (Some (n, version_at orig n))"
  by (auto simp: chosen_def less_Suc_eq)

lemma chosen_keep: "version_at orig n \<le> v \<Longrightarrow> chosen orig targets n k (Some (j, v)) \<Longrightarrow>
    chosen orig targets (Suc n) k (Some (j, v))"
  by (auto simp: chosen_def less_Suc_eq)

lemma chosen_newer: "candidate orig targets k n \<Longrightarrow> v < version_at orig n \<Longrightarrow> chosen orig targets n k (Some (j, v)) \<Longrightarrow>
    chosen orig targets (Suc n) k (Some (n, version_at orig n))"
  by (auto simp: chosen_def less_Suc_eq)

definition same_but_clean :: "buffer_pool \<Rightarrow> nat \<Rightarrow> buffer_pool \<Rightarrow> bool" where
  "same_but_clean orig n pool \<longleftrightarrow> pool_inv pool \<and> length (slots pool) = length (slots orig)
     \<and> file_handles pool = file_handles orig
     \<and> (\<forall>i < length (slots orig). slot_key (slots pool ! i) = slot_key (slots orig ! i)
          \<and> slot_frame (slots pool ! i) = slot_frame (slots orig ! i))
     \<and> (\<forall>i \<ge> n. i < length (slots orig) \<longrightarrow> slots pool ! i = slots orig ! i)"

lemma same_but_clean_Suc: "same_but_clean orig n pool \<Longrightarrow> same_but_clean orig (Suc n) pool"
  by (auto simp: same_but_clean_def)

lemma same_but_clean_clean:
  assumes "same_but_clean orig n pool" "i \<le> n" "i < length (slots orig)" "\<not> uncommitted (version_at orig i)"
  shows "same_but_clean orig (Suc n) (decrement_dirty_count (upd_slot i (\<lambda>s. s\<lparr>slot_dirty := False\<rparr>) pool))"
proof -
  have "pool_inv (decrement_dirty_count (upd_slot i (\<lambda>s. s\<lparr>slot_dirty := False\<rparr>) pool))"
    using assms by (intro pool_inv_mark_clean(2)) (auto simp: same_but_clean_def)
  then show ?thesis using assms by (auto simp: same_but_clean_def nth_list_update)
qed

definition select_inv ::
  "buffer_pool \<Rightarrow> page_key set \<Rightarrow> nat \<Rightarrow> (page_key \<rightharpoonup> nat \<times> u64) \<times> buffer_pool \<Rightarrow> bool" where
  "select_inv orig targets n st \<longleftrightarrow> same_but_clean orig n (snd st) \<and> (\<forall>k. chosen orig targets n k (fst st k))"

lemma select_inv_step:
  assumes inv: "select_inv orig targets n (newest, pool)" and n: "n < length (slots orig)"
  shows "select_inv orig targets (Suc n) (select_newest targets n (newest, pool))"
proof -
  have same: "same_but_clean orig n pool" and ch: "\<And>k. chosen orig targets n k (newest k)"
    using inv by (auto simp: select_inv_def)
  have sn: "slots pool ! n = slots orig ! n" using same n by (simp add: same_but_clean_def)
  show ?thesis
  proof (cases "\<exists>k. candidate orig targets k n")
    case False
    then have "select_newest targets n (newest, pool) = (newest, pool)"
      using sn n by (auto simp: select_newest_def candidate_def Let_def split: option.splits)
    then show ?thesis using same_but_clean_Suc [OF same] ch False chosen_skip by (simp add: select_inv_def)
  next
    case True
    then obtain k where k: "candidate orig targets k n" by blast
    then have other: "k' \<noteq> k \<Longrightarrow> chosen orig targets (Suc n) k' (newest k')" for k'
      using ch [of k'] chosen_skip [of orig targets k' n] by (auto simp: candidate_def)
    let ?clean = "\<lambda>i. decrement_dirty_count (upd_slot i (\<lambda>s. s\<lparr>slot_dirty := False\<rparr>) pool)"
    have run: "select_newest targets n (newest, pool) =
      (case newest k of
         None \<Rightarrow> (newest(k \<mapsto> (n, version_at orig n)), pool)
       | Some (j, best) \<Rightarrow> if best \<ge> version_at orig n then (newest, ?clean n)
                            else (newest(k \<mapsto> (n, version_at orig n)), ?clean j))"
      using k sn by (simp add: select_newest_def candidate_def Let_def split: option.split prod.split)
    show ?thesis
    proof (cases "newest k")
      case None
      then have "chosen orig targets (Suc n) k (Some (n, version_at orig n))"
        using chosen_first [OF k] ch [of k] by simp
      then show ?thesis using run None other same_but_clean_Suc [OF same] by (simp add: select_inv_def)
    next
      case (Some jb)
      obtain j best where jb: "newest k = Some (j, best)" using Some by (cases jb) auto
      then have chj: "chosen orig targets n k (Some (j, best))" using ch [of k] by simp
      then have j: "j < n" "candidate orig targets k j" by (auto simp: chosen_def)
      have cl: "same_but_clean orig (Suc n) (?clean n)" "same_but_clean orig (Suc n) (?clean j)"
        using same_but_clean_clean [OF same] k j by (auto simp: candidate_def)
      show ?thesis
      proof (cases "best \<ge> version_at orig n")
        case True
        then have "chosen orig targets (Suc n) k' (newest k')" for k'
          using chosen_keep [OF True chj] other jb by (cases "k' = k") auto
        then show ?thesis using run jb True cl(1) by (simp add: select_inv_def)
      next
        case False
        then have "chosen orig targets (Suc n) k (Some (n, version_at orig n))"
          using chosen_newer [OF k _ chj] by simp
        then show ?thesis using run jb False cl(2) other by (simp add: select_inv_def)
      qed
    qed
  qed
qed

lemma select_inv_fold:
  "select_inv orig targets m st \<Longrightarrow> n \<le> length (slots orig) \<Longrightarrow> m \<le> n \<Longrightarrow>
   select_inv orig targets n (fold (select_newest targets) [m..<n] st)"
proof (induction "n - m" arbitrary: m st)
  case 0
  then show ?case by simp
next
  case (Suc d)
  obtain newest pool where st: "st = (newest, pool)" by fastforce
  have "[m..<n] = m # [Suc m..<n]" using Suc by (simp add: upt_rec)
  moreover have "select_inv orig targets (Suc m) (select_newest targets m st)"
    using select_inv_step [of orig targets m newest pool] Suc.prems Suc.hyps(2) st by simp
  ultimately show ?case using Suc.hyps(1) [of "Suc m"] Suc.hyps(2) Suc.prems by simp
qed

text \<open>The write loop keeps frames and writes the chosen version of each page.\<close>

lemma flush_selected_spec:
  "pool_inv pool \<Longrightarrow> distinct keys \<Longrightarrow>
   \<forall>k j v. newest k = Some (j, v) \<longrightarrow> j < length (slots pool) \<and> \<not> uncommitted (version_at pool j) \<Longrightarrow>
   pool_inv (fst (flush_selected keys newest pool d))
   \<and> num_pages (snd (flush_selected keys newest pool d)) = num_pages d
   \<and> stored (snd (flush_selected keys newest pool d)) = (\<lambda>k.
        if k \<in> set keys \<and> fst k \<in> file_handles pool
        then (case newest k of Some (j, _) \<Rightarrow> data_at pool j | None \<Rightarrow> stored d k) else stored d k)"
proof (induction keys arbitrary: pool d)
  case Nil
  then show ?case by simp
next
  case (Cons key keys)
  show ?case
  proof (cases "fst key \<in> file_handles pool \<and> newest key \<noteq> None")
    case False
    then have "flush_selected (key # keys) newest pool d = flush_selected keys newest pool d"
      by (auto split: option.splits)
    moreover have "(if k \<in> set (key # keys) \<and> fst k \<in> file_handles pool
        then (case newest k of Some (j, _) \<Rightarrow> data_at pool j | None \<Rightarrow> stored d k) else stored d k)
      = (if k \<in> set keys \<and> fst k \<in> file_handles pool
        then (case newest k of Some (j, _) \<Rightarrow> data_at pool j | None \<Rightarrow> stored d k) else stored d k)" for k
      using False by (cases "k = key") auto
    ultimately show ?thesis using Cons.IH [of pool d] Cons.prems by simp
  next
    case True
    then obtain i v where i: "newest key = Some (i, v)" by auto
    let ?p = "mark_clean i pool" and ?d = "write_page key (data_at pool i) d"
    have fs: "flush_selected (key # keys) newest pool d = flush_selected keys newest ?p ?d" using i True by simp
    have il: "i < length (slots pool)" "\<not> uncommitted (version_at pool i)" using Cons.prems(3) i by blast+
    have frame: "slot_frame (slots ?p ! j) = slot_frame (slots pool ! j)" if "j < length (slots pool)" for j
      using that il by (auto simp: nth_list_update)
    have inv: "pool_inv ?p" using pool_inv_mark_clean(1) [OF Cons.prems(1) il] .
    have ok: "\<forall>k j v. newest k = Some (j, v) \<longrightarrow> j < length (slots ?p) \<and> \<not> uncommitted (version_at ?p j)"
      using Cons.prems(3) frame by simp
    have IH: "pool_inv (fst (flush_selected keys newest ?p ?d))"
      "num_pages (snd (flush_selected keys newest ?p ?d)) = num_pages ?d"
      "stored (snd (flush_selected keys newest ?p ?d)) = (\<lambda>k.
        if k \<in> set keys \<and> fst k \<in> file_handles ?p
        then (case newest k of Some (j, _) \<Rightarrow> data_at ?p j | None \<Rightarrow> stored ?d k) else stored ?d k)"
      using Cons.IH [OF inv _ ok, of ?d] Cons.prems(2) by simp_all
    have dat: "(case newest k of Some (j, _) \<Rightarrow> data_at ?p j | None \<Rightarrow> x) = (case newest k of Some (j, _) \<Rightarrow> data_at pool j | None \<Rightarrow> x)" for k x
    proof (cases "newest k")
      case (Some jv)
      then obtain j v where "newest k = Some (j, v)" by (cases jv) auto
      moreover from this have "j < length (slots pool)" using Cons.prems(3) by blast
      ultimately show ?thesis using frame [of j] by simp
    qed simp
    have "(case newest k of Some (j, _) \<Rightarrow> data_at pool j | None \<Rightarrow> stored ?d k)
        = (case newest k of Some (j, _) \<Rightarrow> data_at pool j | None \<Rightarrow> stored d k)" if "k \<noteq> key" for k
      using that by (cases "newest k") (simp_all add: write_page_def)
    then have "stored (snd (flush_selected keys newest ?p ?d)) k = (if k \<in> set (key # keys) \<and> fst k \<in> file_handles pool
        then (case newest k of Some (j, _) \<Rightarrow> data_at pool j | None \<Rightarrow> stored d k) else stored d k)" for k
      unfolding IH(3) dat using i True Cons.prems(2) by (cases "k = key") (simp_all add: write_page_def)
    then show ?thesis unfolding fs using IH(1,2) by (auto simp: write_page_def)
  qed
qed

lemma flush_pages_spec:
  assumes "pool_inv pool"
  shows "pool_inv (fst (flush_pages pages pool d))"
    and "key \<in> set pages \<Longrightarrow> fst key \<in> file_handles pool \<Longrightarrow> candidate pool (set pages) key i \<Longrightarrow>
      (\<And>j. candidate pool (set pages) key j \<Longrightarrow> j \<noteq> i \<Longrightarrow> version_at pool j < version_at pool i) \<Longrightarrow>
      stored (snd (flush_pages pages pool d)) key = data_at pool i"
    and "key \<notin> set pages \<Longrightarrow> stored (snd (flush_pages pages pool d)) key = stored d key"
proof -
  obtain newest p1 where sel: "fold (select_newest (set pages)) [0..<length (slots pool)] (Map.empty, pool) = (newest, p1)"
    by fastforce
  have "select_inv pool (set pages) 0 (Map.empty, pool)"
    using assms by (simp add: select_inv_def same_but_clean_def chosen_def)
  then have si: "select_inv pool (set pages) (length (slots pool)) (newest, p1)"
    using select_inv_fold [of pool "set pages" 0 "(Map.empty, pool)" "length (slots pool)"] sel by simp
  then have same: "same_but_clean pool (length (slots pool)) p1"
    and ch: "\<And>k. chosen pool (set pages) (length (slots pool)) k (newest k)" by (auto simp: select_inv_def)
  have fr: "j < length (slots p1) \<and> \<not> uncommitted (version_at p1 j) \<and> data_at p1 j = data_at pool j"
    if "newest k = Some (j, v)" for k j v
    using ch [of k] that same by (auto simp: chosen_def candidate_def same_but_clean_def)
  have p1: "pool_inv p1" "file_handles p1 = file_handles pool" using same by (auto simp: same_but_clean_def)
  have fp: "flush_pages pages pool d = flush_selected (remdups pages) newest p1 d" using sel by (simp add: flush_pages_def)
  have fs: "pool_inv (fst (flush_selected (remdups pages) newest p1 d))"
    "stored (snd (flush_selected (remdups pages) newest p1 d)) = (\<lambda>k.
        if k \<in> set (remdups pages) \<and> fst k \<in> file_handles p1
        then (case newest k of Some (j, _) \<Rightarrow> data_at p1 j | None \<Rightarrow> stored d k) else stored d k)"
    using flush_selected_spec [OF p1(1), of "remdups pages" newest d] fr by simp_all
  show "pool_inv (fst (flush_pages pages pool d))" using fp fs by simp
  show "key \<notin> set pages \<Longrightarrow> stored (snd (flush_pages pages pool d)) key = stored d key" using fp fs by simp
  assume k: "key \<in> set pages" "fst key \<in> file_handles pool" "candidate pool (set pages) key i"
    and mx: "\<And>j. candidate pool (set pages) key j \<Longrightarrow> j \<noteq> i \<Longrightarrow> version_at pool j < version_at pool i"
  obtain j where j: "newest key = Some (j, version_at pool j)" "candidate pool (set pages) key j"
    "version_at pool i \<le> version_at pool j"
    using ch [of key] k(3) by (cases "newest key") (auto simp: chosen_def candidate_def)
  then have "j = i" using mx [of j] by fastforce
  then show "stored (snd (flush_pages pages pool d)) key = data_at pool i"
    using fp fs k j fr [of key j] p1(2) by simp
qed

end
