(* ===== verification/Buffer_Properties.thy ===== *)
theory Buffer_Properties
  imports Buffer_Steps
begin

text \<open>
  The buffer pool shard as a state machine over all its operations, and its properties: the invariant, the
  termination of the clock sweep, the version a reader gets, the safety of versions not yet committed, and
  what a flush leaves on disk.
\<close>

section \<open>The state machine\<close>

inductive pool_step :: "buffer_pool \<times> disk \<Rightarrow> buffer_pool \<times> disk \<Rightarrow> bool" where
  st_pin: "pin_page pool d key tx = Some (Ok (i, pool', d')) \<Longrightarrow> pool_step (pool, d) (pool', d')"
| st_create: "create_new_version pool d key tx = Some (Ok (i, tx', pool', d')) \<Longrightarrow> pool_step (pool, d) (pool', d')"
| st_write: "i < length (slots pool) \<Longrightarrow> pool_step (pool, d) (write_frame i bs pool, d)"
| st_unpin: "i < length (slots pool) \<Longrightarrow> pool_step (pool, d) (unpin_frame i pool, d)"
| st_prefetch: "prefetch_page pool d key = Some (pool', d') \<Longrightarrow> pool_step (pool, d) (pool', d')"
| st_latest: "pin_latest_committed pool d key = (bs, r, pool') \<Longrightarrow> pool_step (pool, d) (pool', d)"
| st_by_key: "pin_page_by_key pool key v = Some (i, pool') \<Longrightarrow> pool_step (pool, d) (pool', d)"
| st_commit: "\<not> uncommitted cts \<Longrightarrow> pool_step (pool, d) (update_timestamps key t cts pool, d)"
| st_superseded: "pool_step (pool, d) (evict_superseded_committed_versions key v pool, d)"
| st_rollback: "pool_step (pool, d) (rollback_versions t pool, d)"
| st_invalidate: "pool_step (pool, d) (invalidate_page key pool, d)"
| st_reclaim: "pool_step (pool, d) (snd (reclaim_expired_versions m pool), d)"
| st_evict_page: "pool_step (pool, d) (evict_page key (pool, d))"
| st_flush_all: "pool_step (pool, d) (flush_all pool d)"
| st_flush_handles: "pool_step (pool, d) (flush_all_with_handles handles pool d)"
| st_flush_pages: "pool_step (pool, d) (flush_pages pages pool d)"
| st_reset: "pool_step (pool, d) (reset_referenced pool, d)"
| st_extend: "pool_step (pool, d) (pool, d\<lparr>num_pages := n\<rparr>)"

inductive pool_reachable :: "nat \<Rightarrow> disk \<Rightarrow> buffer_pool \<times> disk \<Rightarrow> bool" for cap d0 where
  pr_init: "pool_reachable cap d0 (new_buffer_pool cap, d0)"
| pr_step: "pool_reachable cap d0 s \<Longrightarrow> pool_step s s' \<Longrightarrow> pool_reachable cap d0 s'"

lemma pool_inv_new: "pool_inv (new_buffer_pool cap)"
  by (auto simp: new_buffer_pool_def Let_def inv_defs slots_of_def empty_slot_def new_frame_def INITIAL_SLOTS_PER_SHARD_def)

lemma latest_committed_mem: "latest_committed ver is best bv = Some i \<Longrightarrow> best = Some i \<or> i \<in> set is"
  by (induction "is" arbitrary: best bv) (auto split: if_splits)

lemma pool_inv_latest:
  assumes "pool_inv pool" "pin_latest_committed pool d key = (bs, r, pool')"
  shows "pool_inv pool'"
proof (cases "latest_committed (version_at pool) (slots_of pool key) None 0")
  case None
  then show ?thesis using assms by (simp add: pin_latest_committed_def)
next
  case (Some i)
  then have "i < length (slots pool)"
    using latest_committed_mem [of "version_at pool" "slots_of pool key" None 0 i] slots_of_props(2) [OF assms(1), of key] by auto
  then show ?thesis using pool_inv_pin [OF assms(1)] Some assms(2) by (auto simp: pin_latest_committed_def)
qed

lemma pool_inv_by_key:
  assumes "pool_inv pool" "pin_page_by_key pool key v = Some (i, pool')"
  shows "pool_inv pool'"
proof -
  have "i \<in> set (slots_of pool key)" "pool' = pin_slot i pool"
    using assms(2) by (auto simp: pin_page_by_key_def find_Some_iff split: option.splits)
      (metis length_rev nth_mem set_rev)
  then show ?thesis using pool_inv_pin [OF assms(1)] slots_of_props(2) [OF assms(1), of key] by auto
qed

lemma pool_step_inv:
  assumes "pool_step s s'" "pool_inv (fst s)"
  shows "pool_inv (fst s')"
  using assms
proof (induction rule: pool_step.induct)
  case (st_evict_page pool d key)
  then show ?case using pool_inv_evict_page by simp
qed (auto intro: pool_inv_pin_page(1) pool_inv_create(1) pool_inv_write_frame pool_inv_unpin pool_inv_prefetch(1)
      pool_inv_latest pool_inv_by_key pool_inv_update_timestamps pool_inv_evict_superseded pool_inv_rollback
      pool_inv_invalidate pool_inv_reclaim pool_inv_flush flush_pages_spec(1) pool_inv_reset)



text \<open>
  C21 [evict_terminates]. The search for a slot always ends, growing the pool a bounded number of times, and a
  slot it finds is inside the pool, not pinned, and holds no version that is still uncommitted.
\<close>

theorem evict_terminates:
  assumes "pool_inv pool"
  shows "\<exists>r pool' d'. evict_with_clock pool d = Some (r, pool', d')
    \<and> capacity pool' \<le> max_capacity pool'
    \<and> (case r of
         Found i \<Rightarrow> i < capacity pool' \<and> pin_count (slot_frame (slots pool' ! i)) = 0 \<and> \<not> uncommitted (version_at pool' i)
       | NeedRetry \<Rightarrow> d' = d)"
proof -
  have "shape_ok pool" using assms by (simp add: pool_inv_def)
  from evict_with_clock_spec [OF this, of d] obtain r p d' where
    ev: "evict_with_clock pool d = Some (r, p, d')" "pool_ext pool p" "shape_ok p"
    "case r of NeedRetry \<Rightarrow> d' = d | Found i \<Rightarrow> evictable p i \<and> d' = write_back p i d" by blast
  have "pool_inv p" using pool_inv_ext [OF assms ev(2,3)] .
  then have "evictable p i \<Longrightarrow> i < capacity p \<and> pin_count (slot_frame (slots p ! i)) = 0 \<and> \<not> uncommitted (version_at p i)" for i
    using ev(3) uncommitted_not_evictable [of p i] by (auto simp: shape_ok_def evictable_def)
  moreover have "capacity p \<le> max_capacity p" using ev(3) by (simp add: shape_ok_def)
  ultimately show ?thesis using ev(1,4) by (cases r) auto
qed

theorem evict_terminates_witness:
  "\<exists>r pool' d'. evict_with_clock (new_buffer_pool 300) \<lparr>num_pages = (\<lambda>_. 0), stored = (\<lambda>_. zero_page)\<rparr> = Some (r, pool', d')"
  using evict_terminates [OF pool_inv_new] by blast

text \<open>
  C16 [pin_page_snapshot]. The frame a transaction pins holds the requested page and is pinned. It is the
  transaction's own version when the pool holds one; otherwise the newest committed version that is not
  newer than its snapshot; and when no such version is in the pool, the page as the file holds it.
\<close>

theorem pin_page_snapshot:
  assumes "pool_inv pool" "pin_page pool d key tx = Some (Ok (i, pool', d'))"
  shows "slot_key (slots pool' ! i) = Some key \<and> 0 < pin_count (slot_frame (slots pool' ! i))
    \<and> (if \<exists>j. j \<in> holding pool key \<and> version_at pool j = own_mark tx
       then version_at pool' i = own_mark tx \<and> data_at pool' i = data_at pool i
       else if \<exists>j. j \<in> holding pool key \<and> \<not> uncommitted (version_at pool j) \<and> version_at pool j \<le> read_ts tx
       then i \<in> holding pool key \<and> version_at pool' i = version_at pool i \<and> data_at pool' i = data_at pool i
         \<and> version_at pool i
             = Max {version_at pool j | j. j \<in> holding pool key \<and> \<not> uncommitted (version_at pool j) \<and> version_at pool j \<le> read_ts tx}
       else version_at pool' i = 0 \<and> data_at pool' i = load_page d' key)"
proof -
  have ix: "index_ok pool" using assms(1) by (simp add: pool_inv_def)
  have hold: "slot_key (slots (pin_slot i pool) ! i) = Some key \<and> 0 < pin_count (slot_frame (slots (pin_slot i pool) ! i))
      \<and> version_at (pin_slot i pool) i = version_at pool i \<and> data_at (pin_slot i pool) i = data_at pool i"
    if "i \<in> holding pool key" using that by (auto simp: holding_def)
  show ?thesis
  proof (cases "visible_slot pool key tx")
    case (Some i')
    then have i': "i' = i" "pool' = pin_slot i pool" "d' = d" using assms(2) by (auto simp: pin_page_def)
    show ?thesis
    proof (rule visible_slot_cases [OF ix, of key tx])
      fix j assume "visible_slot pool key tx = Some j" "j \<in> holding pool key" "version_at pool j = own_mark tx"
      then show ?thesis using Some i' hold by auto
    next
      fix j assume h: "visible_slot pool key tx = Some j" "j \<in> holding pool key"
        "\<forall>j \<in> holding pool key. version_at pool j \<noteq> own_mark tx"
        "\<not> uncommitted (version_at pool j)" "version_at pool j \<le> read_ts tx"
        "\<forall>a \<in> holding pool key. \<not> uncommitted (version_at pool a) \<longrightarrow> version_at pool a \<le> read_ts tx \<longrightarrow>
           version_at pool a \<le> version_at pool j"
      let ?V = "{version_at pool j | j. j \<in> holding pool key \<and> \<not> uncommitted (version_at pool j) \<and> version_at pool j \<le> read_ts tx}"
      have j: "j = i" using h(1) Some i' by simp
      have "finite ?V" by simp
      then have mx: "Max ?V = version_at pool i" using h j by (intro Max_eqI) auto
      have own: "\<not> (\<exists>a. a \<in> holding pool key \<and> version_at pool a = own_mark tx)" using h(3) by blast
      have seen: "\<exists>a. a \<in> holding pool key \<and> \<not> uncommitted (version_at pool a) \<and> version_at pool a \<le> read_ts tx"
        using h(2,4,5) by blast
      show ?thesis unfolding if_not_P [OF own] if_P [OF seen] using i' hold h(2) j mx by simp
    qed (use Some in simp)
  next
    case None
    then have no: "\<not> (\<exists>j. j \<in> holding pool key \<and> version_at pool j = own_mark tx)"
      "\<not> (\<exists>j. j \<in> holding pool key \<and> \<not> uncommitted (version_at pool j) \<and> version_at pool j \<le> read_ts tx)"
      by - (rule visible_slot_cases [OF ix, of key tx], auto)+
    show ?thesis
    proof (rule pin_page_cases [OF assms(1), of key tx d])
      fix j p1
      let ?p = "install_frame j key (new_frame (load_page (write_back p1 j d) key) 0) False p1"
      assume "evictable p1 j" "pin_page pool d key tx = Some (Ok (j, pin_slot j ?p, write_back p1 j d))"
      then have j: "j = i" "pool' = pin_slot i ?p" "d' = write_back p1 i d" "i < length (slots p1)"
        using assms(2) by (auto simp: evictable_def)
      show ?thesis unfolding if_not_P [OF no(1)] if_not_P [OF no(2)] using j by (simp add: new_frame_def)
    qed (use None assms(2) in auto)
  qed
qed

definition example_slot :: "page_key \<Rightarrow> u64 \<Rightarrow> byte list \<Rightarrow> buffer_slot" where
  "example_slot key v bs = \<lparr>slot_key = Some key, slot_frame = new_frame bs v, slot_dirty = uncommitted v, slot_referenced = False\<rparr>"

text \<open>A pool with two committed versions of a page and a version of transaction 9.\<close>

definition example_pool :: buffer_pool where
  "example_pool = \<lparr>page_to_slots = [(7, 0) \<mapsto> [0, 1, 2]], file_handles = {7},
     slots = [example_slot (7, 0) 3 [30], example_slot (7, 0) 5 [50], example_slot (7, 0) (9 OR UNCOMMITTED_BIT) [90]],
     clock_ptr = 0, capacity = 3, max_capacity = 4, dirty_count = 1, free_candidates = []\<rparr>"

lemma pool_inv_example: "pool_inv example_pool"
proof -
  note defs = example_pool_def example_slot_def new_frame_def
  have len: "length (slots example_pool) = 3" by (simp add: defs)
  have cases3: "i = 0 \<or> i = 1 \<or> i = 2" if "i < 3" for i :: nat using that by linarith
  have key: "slot_key (slots example_pool ! i) = Some (7, 0)" if "i < 3" for i
    using cases3 [OF that] by (elim disjE) (simp_all add: defs)
  have unc: "i = 2" if "i < 3" "uncommitted (version_at example_pool i)" for i
    using cases3 [OF that(1)] that(2) by (elim disjE) (simp_all add: defs UNCOMMITTED_BIT_def)
  have so: "slots_of example_pool k = (if k = (7, 0) then [0, 1, 2] else [])" for k
    by (simp add: slots_of_def defs)
  have "{0, 1, 2} = {i :: nat. i < 3}" using cases3 by auto
  then have "distinct (slots_of example_pool k) \<and> set (slots_of example_pool k)
      = {i. i < length (slots example_pool) \<and> slot_key (slots example_pool ! i) = Some k}" for k
    using key by (cases "k = (7, 0)") (auto simp: so len)
  then have "index_ok example_pool" by (simp add: index_ok_def)
  moreover have "owner_unique (slots example_pool)"
    unfolding owner_unique_def len using unc by metis
  moreover have "slot_ok (file_handles example_pool) (slots example_pool ! i)" if "i < 3" for i
    using cases3 [OF that] by (elim disjE) (simp_all add: slot_ok_def defs UNCOMMITTED_BIT_def)
  then have "\<forall>s \<in> set (slots example_pool). slot_ok (file_handles example_pool) s"
    by (auto simp: in_set_conv_nth len)
  ultimately show ?thesis by (simp add: pool_inv_def shape_ok_def) (simp add: defs)
qed

theorem pin_page_snapshot_witness:
  "\<exists>i pool' d'. pin_page example_pool \<lparr>num_pages = (\<lambda>_. 0), stored = (\<lambda>_. zero_page)\<rparr> (7, 0) (new_transaction 9 False 4)
     = Some (Ok (i, pool', d')) \<and> data_at pool' i = [90]"
proof -
  let ?tx = "new_transaction 9 False 4"
  let ?d = "\<lparr>num_pages = (\<lambda>_. 0), stored = (\<lambda>_. zero_page)\<rparr>"
  have p: "pin_page example_pool ?d (7, 0) ?tx = Some (Ok (2, pin_slot 2 example_pool, ?d))"
    by (simp add: pin_page_def visible_slot_def slots_of_def example_pool_def example_slot_def new_frame_def new_transaction_def)
  have own: "\<exists>j. j \<in> holding example_pool (7, 0) \<and> version_at example_pool j = own_mark ?tx"
    by (intro exI [of _ 2]) (simp add: holding_def example_pool_def example_slot_def new_frame_def new_transaction_def)
  have "data_at (pin_slot 2 example_pool) 2 = data_at example_pool 2"
    using pin_page_snapshot [OF pool_inv_example p] own by auto
  then show ?thesis using p by (simp add: example_pool_def example_slot_def new_frame_def)
qed

text \<open>
  C7 [uncommitted_versions_survive]. No pin, copy on write or prefetch, by any transaction, evicts or changes
  a version that is not committed yet, whatever the pressure on the pool.
\<close>

theorem uncommitted_versions_survive:
  assumes "pool_inv pool" "j < length (slots pool)" "uncommitted (version_at pool j)"
    and "(\<exists>i key tx. pin_page pool d key tx = Some (Ok (i, pool', d')))
       \<or> (\<exists>i key tx tx'. create_new_version pool d key tx = Some (Ok (i, tx', pool', d')))
       \<or> (\<exists>key. prefetch_page pool d key = Some (pool', d'))"
  shows "j < length (slots pool') \<and> slot_key (slots pool' ! j) = slot_key (slots pool ! j)
    \<and> version_at pool' j = version_at pool j \<and> data_at pool' j = data_at pool j"
proof -
  have "keeps_uncommitted pool pool'"
    using assms(1,4) pool_inv_pin_page(2) pool_inv_create(2) pool_inv_prefetch(2) by blast
  then show ?thesis using assms(2,3) by (simp add: keeps_uncommitted_def)
qed

theorem uncommitted_versions_survive_witness:
  "data_at (pin_slot 0 example_pool) 2 = [90]"
proof -
  let ?d = "\<lparr>num_pages = (\<lambda>_. 0), stored = (\<lambda>_. zero_page)\<rparr>"
  have "pin_page example_pool ?d (7, 0) (new_transaction 4 False 4) = Some (Ok (0, pin_slot 0 example_pool, ?d))"
    by (simp add: pin_page_def visible_slot_def slots_of_def example_pool_def example_slot_def new_frame_def
        new_transaction_def UNCOMMITTED_BIT_def)
  then have "data_at (pin_slot 0 example_pool) 2 = data_at example_pool 2"
    using uncommitted_versions_survive [OF pool_inv_example, of 2 ?d "pin_slot 0 example_pool" ?d]
    by (force simp: example_pool_def example_slot_def new_frame_def)
  then show ?thesis by (simp add: example_pool_def example_slot_def new_frame_def)
qed

text \<open>
  C20 [flush_pages_durable]. After the flush at commit the file holds, for every page flushed, the newest
  committed version that was dirty in the pool, older ones never overwrite it, and pages not named are not
  written.
\<close>

theorem flush_pages_durable:
  assumes "pool_inv pool" "flush_pages pages pool d = (pool', d')"
  shows "(key \<notin> set pages \<longrightarrow> stored d' key = stored d key)
    \<and> (candidate pool (set pages) key i \<and> (\<forall>j. candidate pool (set pages) key j \<and> j \<noteq> i \<longrightarrow> version_at pool j < version_at pool i)
       \<longrightarrow> stored d' key = data_at pool i)"
proof -
  have "fst key \<in> file_handles pool" if "candidate pool (set pages) key i"
    using that slot_ok_nth [OF assms(1), of i] by (auto simp: candidate_def slot_ok_def)
  moreover have d': "d' = snd (flush_pages pages pool d)" using assms(2) by simp
  moreover have "candidate pool (set pages) key i \<Longrightarrow> key \<in> set pages" by (simp add: candidate_def)
  ultimately show ?thesis
    unfolding d' using flush_pages_spec(2) [OF assms(1), of key pages i d] flush_pages_spec(3) [OF assms(1), of key pages d]
    by blast
qed

theorem flush_pages_durable_witness:
  "stored (snd (flush_pages [(7, 0)] (upd_slot 1 (\<lambda>s. s\<lparr>slot_dirty := True\<rparr>) example_pool)
     \<lparr>num_pages = (\<lambda>_. 1), stored = (\<lambda>_. [1])\<rparr>)) (7, 0) = [50]"
proof -
  let ?p = "upd_slot 1 (\<lambda>s. s\<lparr>slot_dirty := True\<rparr>) example_pool" and ?d = "\<lparr>num_pages = (\<lambda>_. 1), stored = (\<lambda>_. [1])\<rparr>"
  note defs = example_pool_def example_slot_def new_frame_def
  have inv: "pool_inv ?p"
    by (rule pool_inv_upd [OF pool_inv_example]) (simp_all add: defs slot_ok_def)
  have c: "candidate ?p (set [(7, 0)]) (7, 0) 1" by (simp add: candidate_def defs UNCOMMITTED_BIT_def)
  have u: "\<not> candidate ?p (set [(7, 0)]) (7, 0) j" if "j \<noteq> 1" for j
  proof -
    have "j = 0 \<or> j = 2 \<or> 3 \<le> j" using that by linarith
    then show ?thesis by (elim disjE) (simp_all add: candidate_def defs UNCOMMITTED_BIT_def)
  qed
  obtain p' d' where f: "flush_pages [(7, 0)] ?p ?d = (p', d')" by fastforce
  have "stored d' (7, 0) = data_at ?p 1"
    using flush_pages_durable [OF inv f, of "(7, 0)" 1] c u by blast
  then show ?thesis using f by (simp add: defs)
qed

end
