(* ===== verification/Page_Commit.thy ===== *)
theory Page_Commit
  imports Buffer_Properties
begin

text \<open>
  The page part of \<open>TransactionManager::commit\<close>: every page the transaction wrote rows of is rebuilt from the
  latest committed version and the recorded row writes, stamped with the commit timestamp, and flushed. The
  pages of a transaction are taken to lie in one shard of the buffer pool, and to fit in it.
\<close>

section \<open>Operations\<close>

definition apply_row_mod :: "page_row_mod \<Rightarrow> byte list \<Rightarrow> byte list" where
  "apply_row_mod m merged =
     (let es = element_size m;
          vpp = max (values_per_page m) 1;
          off = unat (prm_row_id m mod vpp) * es
      in if off + es \<le> 4096 then write_at off (take es (row_data m)) merged else merged)"

definition mod_key :: "page_row_mod \<Rightarrow> page_key" where
  "mod_key m = (prm_file_id m, prm_page_idx m)"

text \<open>One page group of the merge phase: the frame stays pinned.\<close>

definition merge_page ::
  "page_key \<Rightarrow> page_row_mod list \<Rightarrow> transaction \<Rightarrow> buffer_pool \<Rightarrow> disk \<Rightarrow> ((nat \<times> transaction \<times> buffer_pool \<times> disk) result) option" where
  "merge_page key mods tx pool d =
     (let (latest, pin, pool) = pin_latest_committed pool d key;
          merged = fold apply_row_mod mods latest;
          pool = (case pin of Some i \<Rightarrow> unpin_frame i pool | None \<Rightarrow> pool)
      in do {
           r \<leftarrow> create_new_version pool d key tx;
           case r of
             Err e \<Rightarrow> Some (Err e)
           | Ok (i, tx, pool, d) \<Rightarrow> Some (Ok (i, tx, write_frame i merged pool, d))
         })"

fun merge_pages ::
  "page_key list \<Rightarrow> transaction \<Rightarrow> buffer_pool \<Rightarrow> disk \<Rightarrow> ((nat list \<times> transaction \<times> buffer_pool \<times> disk) result) option" where
  "merge_pages [] tx pool d = Some (Ok ([], tx, pool, d))"
| "merge_pages (key # keys) tx pool d = do {
     r \<leftarrow> merge_page key (filter (\<lambda>m. mod_key m = key) (modified_page_rows tx)) tx pool d;
     case r of
       Err e \<Rightarrow> Some (Err e)
     | Ok (i, tx, pool, d) \<Rightarrow> do {
         r \<leftarrow> merge_pages keys tx pool d;
         case r of
           Err e \<Rightarrow> Some (Err e)
         | Ok (is, tx, pool, d) \<Rightarrow> Some (Ok (i # is, tx, pool, d))
       }
   }"

fun pin_modified :: "page_key list \<Rightarrow> u64 \<Rightarrow> buffer_pool \<Rightarrow> nat list \<times> buffer_pool" where
  "pin_modified [] own pool = ([], pool)"
| "pin_modified (key # keys) own pool =
     (case pin_page_by_key pool key own of
        None \<Rightarrow> pin_modified keys own pool
      | Some (i, pool) \<Rightarrow> (let (is, pool) = pin_modified keys own pool in (i # is, pool)))"

text \<open>The phases after the merge, with the list of pages written.\<close>

definition publish_pages :: "page_key list \<Rightarrow> u64 \<Rightarrow> u64 \<Rightarrow> nat list \<Rightarrow> buffer_pool \<Rightarrow> disk \<Rightarrow> buffer_pool \<times> disk" where
  "publish_pages pages t cts merge_pinned pool d =
     (let (pinned, pool) = pin_modified pages (t OR UNCOMMITTED_BIT) pool;
          pool = fold (\<lambda>key. update_timestamps key t cts) pages pool;
          (pool, d) = (if pages = [] then (pool, d) else flush_pages pages pool d);
          pool = fold unpin_frame merge_pinned (fold unpin_frame pinned pool);
          pool = fold (\<lambda>key. evict_superseded_committed_versions key cts) pages pool
      in (pool, d))"

text \<open>\<open>known\<close> are the files the storage manager has a handle for.\<close>

definition commit_pages ::
  "u64 set \<Rightarrow> transaction \<Rightarrow> u64 \<Rightarrow> buffer_pool \<Rightarrow> disk \<Rightarrow> ((transaction \<times> buffer_pool \<times> disk) result) option" where
  "commit_pages known tx cts pool d = do {
     r \<leftarrow> merge_pages (filter (\<lambda>k. fst k \<in> known) (remdups (map mod_key (modified_page_rows tx)))) tx pool d;
     case r of
       Err e \<Rightarrow> Some (Err e)
     | Ok (merge_pinned, tx, pool, d) \<Rightarrow>
         (case publish_pages (modified_pages tx) (tx_id tx) cts merge_pinned pool d of
            (pool, d) \<Rightarrow> Some (Ok (tx, pool, d)))
   }"

section \<open>Row writes\<close>

definition mod_range :: "page_row_mod \<Rightarrow> nat set" where
  "mod_range m = {unat (prm_row_id m mod max (values_per_page m) 1) * element_size m
     ..< unat (prm_row_id m mod max (values_per_page m) 1) * element_size m + element_size m}"

definition mod_ok :: "page_row_mod \<Rightarrow> bool" where
  "mod_ok m \<longleftrightarrow> element_size m \<le> length (row_data m)
     \<and> unat (prm_row_id m mod max (values_per_page m) 1) * element_size m + element_size m \<le> 4096"

lemma length_apply_row_mod: "mod_ok m \<Longrightarrow> length bs = 4096 \<Longrightarrow> length (apply_row_mod m bs) = 4096"
  by (simp add: apply_row_mod_def mod_ok_def Let_def min_def)

lemma nth_apply_row_mod:
  assumes "mod_ok m" "length bs = 4096" "p < 4096"
  shows "apply_row_mod m bs ! p = (if p \<in> mod_range m
     then row_data m ! (p - unat (prm_row_id m mod max (values_per_page m) 1) * element_size m) else bs ! p)"
  using assms by (auto simp: apply_row_mod_def mod_ok_def mod_range_def Let_def nth_write_at min_def)

lemma fold_apply_row_mod:
  "\<forall>m \<in> set mods. mod_ok m \<Longrightarrow> length bs = 4096 \<Longrightarrow> length (fold apply_row_mod mods bs) = 4096
   \<and> (\<forall>p < 4096. (\<forall>m \<in> set mods. p \<notin> mod_range m) \<longrightarrow> fold apply_row_mod mods bs ! p = bs ! p)"
  by (induction mods arbitrary: bs) (auto simp: length_apply_row_mod nth_apply_row_mod)

section \<open>The merge phase\<close>

lemma unpin_pin: "i < length (slots pool) \<Longrightarrow> unpin_frame i (pin_slot i pool) = pool"
  by (simp add: unpin_frame_def pin_slot_def upd_slot_def)

lemma holding_not_new:
  assumes "pool_ext p q" "j \<in> holding q key"
  shows "j \<in> holding p key"
proof -
  have "j < length (slots p)"
    using pool_ext_new_slot(1) [OF assms(1), of j] assms(2) by (cases "j < length (slots p)") (auto simp: holding_def)
  then show ?thesis using assms pool_ext_slot(1) [OF assms(1)] by (simp add: holding_def)
qed

lemma create_result:
  assumes inv: "pool_inv pool" and cr: "create_new_version pool d key tx = Some (Ok (i, tx', pool', d'))"
  shows "i \<in> holding pool' key" and "version_at pool' i = own_mark tx"
    and "tx' = tx\<lparr>modified_pages := modified_pages tx @ [key]\<rparr>"
    and "\<And>j. j \<in> holding pool' key \<Longrightarrow> \<not> uncommitted (version_at pool' j) \<Longrightarrow>
      j \<in> holding pool key \<and> version_at pool j = version_at pool' j"
proof -
  have "i \<in> holding pool' key \<and> version_at pool' i = own_mark tx \<and> tx' = tx\<lparr>modified_pages := modified_pages tx @ [key]\<rparr>
    \<and> (\<forall>j \<in> holding pool' key. \<not> uncommitted (version_at pool' j) \<longrightarrow> j \<in> holding pool key \<and> version_at pool j = version_at pool' j)"
  proof (rule create_cases [OF inv, of key tx d])
    fix j assume "j \<in> holding pool key" "version_at pool j = own_mark tx" "create_new_version pool d key tx =
      Some (Ok (j, tx\<lparr>modified_pages := modified_pages tx @ [key]\<rparr>,
        upd_slot j (\<lambda>s. s\<lparr>slot_referenced := True\<rparr>) (pin_slot j pool), d))"
    then show ?thesis using cr by (auto simp: holding_def nth_list_update split: if_splits)
  next
    fix j p1 bs
    let ?ph = "pool\<lparr>file_handles := insert (fst key) (file_handles pool)\<rparr>"
    let ?p = "install_frame j key (new_frame bs (own_mark tx)) True p1"
    assume h: "pool_ext ?ph p1" "pool_inv p1" "evictable p1 j"
      "create_new_version pool d key tx = Some (Ok (j, tx\<lparr>modified_pages := modified_pages tx @ [key]\<rparr>,
         pin_slot j (let p = ?p in p\<lparr>dirty_count := dirty_count p + 1\<rparr>), write_back p1 j d))"
    then have e: "i = j" "tx' = tx\<lparr>modified_pages := modified_pages tx @ [key]\<rparr>"
      "pool' = pin_slot j (?p\<lparr>dirty_count := dirty_count ?p + 1\<rparr>)" "j < length (slots p1)"
      using cr by (auto simp: Let_def evictable_def)
    have "a \<in> holding pool key \<and> version_at pool a = version_at pool' a"
      if a: "a \<in> holding pool' key" "\<not> uncommitted (version_at pool' a)" for a
    proof -
      have "a \<noteq> j" using a(2) e by (auto simp: new_frame_def)
      then have "slots pool' ! a = slots p1 ! a" using e by simp
      moreover have "a \<in> holding ?ph key"
        using a(1) \<open>a \<noteq> j\<close> e holding_not_new [OF h(1)] by (auto simp: holding_def)
      ultimately show ?thesis using pool_ext_slot(2) [OF h(1), of a] by (auto simp: holding_def)
    qed
    then show ?thesis using e by (auto simp: holding_def new_frame_def)
  qed (use cr in auto)
  then show "i \<in> holding pool' key" "version_at pool' i = own_mark tx"
    "tx' = tx\<lparr>modified_pages := modified_pages tx @ [key]\<rparr>"
    "\<And>j. j \<in> holding pool' key \<Longrightarrow> \<not> uncommitted (version_at pool' j) \<Longrightarrow>
      j \<in> holding pool key \<and> version_at pool j = version_at pool' j" by auto
qed

abbreviation latest :: "buffer_pool \<Rightarrow> disk \<Rightarrow> page_key \<Rightarrow> byte list" where
  "latest pool d key \<equiv> fst (pin_latest_committed pool d key)"

lemma merge_page_result:
  assumes inv: "pool_inv pool" and mp: "merge_page key mods tx pool d = Some (Ok (i, tx', pool', d'))"
  shows "pool_inv pool'" "i \<in> holding pool' key" "version_at pool' i = own_mark tx"
    "data_at pool' i = fold apply_row_mod mods (latest pool d key)" "tx' = tx\<lparr>modified_pages := modified_pages tx @ [key]\<rparr>"
    "\<And>j. j \<in> holding pool' key \<Longrightarrow> \<not> uncommitted (version_at pool' j) \<Longrightarrow>
      j \<in> holding pool key \<and> version_at pool j = version_at pool' j"
proof -
  obtain bs r p0 where pl: "pin_latest_committed pool d key = (bs, r, p0)" by (metis prod_cases3)
  have "(case r of Some i \<Rightarrow> unpin_frame i p0 | None \<Rightarrow> p0) = pool"
  proof (cases "latest_committed (version_at pool) (slots_of pool key) None 0")
    case (Some a)
    then have "a < length (slots pool)"
      using latest_committed_mem [of "version_at pool" "slots_of pool key" None 0 a] slots_of_props(2) [OF inv, of key] by auto
    moreover have "r = Some a" "p0 = pin_slot a pool" using pl Some by (simp_all add: pin_latest_committed_def)
    ultimately show ?thesis by (simp add: unpin_pin)
  qed (use pl in \<open>auto simp: pin_latest_committed_def\<close>)
  then have "(create_new_version pool d key tx \<bind> (\<lambda>r. case r of
      Err e \<Rightarrow> Some (Err e) | Ok (i, tx, pool, d) \<Rightarrow> Some (Ok (i, tx, write_frame i (fold apply_row_mod mods bs) pool, d))))
      = Some (Ok (i, tx', pool', d'))"
    using pl mp by (simp add: merge_page_def Let_def)
  then obtain p1 where cr: "create_new_version pool d key tx = Some (Ok (i, tx', p1, d'))"
    and p': "pool' = write_frame i (fold apply_row_mod mods bs) p1"
    by (cases "create_new_version pool d key tx"; cases "the (create_new_version pool d key tx)") auto
  note c = create_result [OF inv cr]
  have il: "i < length (slots p1)" using c(1) by (simp add: holding_def)
  have sl: "slots pool' = (slots p1)[i := (slots p1 ! i)\<lparr>slot_frame := (slot_frame (slots p1 ! i))\<lparr>frame_data := fold apply_row_mod mods bs\<rparr>\<rparr>]"
    using p' by (simp add: write_frame_def)
  then have fr: "slot_key (slots pool' ! j) = slot_key (slots p1 ! j)" "version_at pool' j = version_at p1 j" if "j < length (slots p1)" for j
    using that il by (auto simp: nth_list_update)
  have "length (slots pool') = length (slots p1)" using sl by simp
  then have hold: "holding pool' key = holding p1 key" unfolding holding_def using fr(1) by auto
  show "pool_inv pool'" using p' pool_inv_write_frame [OF pool_inv_create(1) [OF inv cr] il] by simp
  show "i \<in> holding pool' key" using hold c(1) by simp
  show "version_at pool' i = own_mark tx" using fr il c(2) by simp
  show "data_at pool' i = fold apply_row_mod mods (latest pool d key)" using sl il pl by simp
  show "tx' = tx\<lparr>modified_pages := modified_pages tx @ [key]\<rparr>" using c(3) .
  show "j \<in> holding pool key \<and> version_at pool j = version_at pool' j"
    if "j \<in> holding pool' key" "\<not> uncommitted (version_at pool' j)" for j
  proof -
    have j: "j \<in> holding p1 key" using that(1) hold by simp
    then have "version_at pool' j = version_at p1 j" using fr(2) by (simp add: holding_def)
    then show ?thesis using c(4) [OF j] that(2) by simp
  qed
qed

section \<open>The publishing phases\<close>

text \<open>The slots keep what they hold, except that slots other than \<open>i\<close> may be given up.\<close>

definition keeps_slot :: "nat \<Rightarrow> buffer_pool \<Rightarrow> buffer_pool \<Rightarrow> bool" where
  "keeps_slot i p q \<longleftrightarrow> length (slots q) = length (slots p) \<and> (\<forall>j < length (slots p).
     slot_key (slots q ! j) = slot_key (slots p ! j) \<and> version_at q j = version_at p j \<and> data_at q j = data_at p j
     \<or> j \<noteq> i \<and> slot_key (slots q ! j) = None)"

lemma keeps_slot_refl [simp]: "keeps_slot i p p"
  by (simp add: keeps_slot_def)

lemma keeps_slot_trans [trans]: "keeps_slot i p q \<Longrightarrow> keeps_slot i q r \<Longrightarrow> keeps_slot i p r"
  by (simp add: keeps_slot_def) metis

lemma keeps_slot_upd:
  assumes "\<And>s. slot_key (f s) = slot_key s \<and> version (slot_frame (f s)) = version (slot_frame s)
    \<and> frame_data (slot_frame (f s)) = frame_data (slot_frame s)" "slots q = slots (upd_slot a f p)"
  shows "keeps_slot i p q"
  using assms by (cases "a < length (slots p)") (simp_all add: keeps_slot_def nth_list_update)

lemma keeps_slot_pin [simp]: "keeps_slot i p (pin_slot a p)" and keeps_slot_unpin [simp]: "keeps_slot i p (unpin_frame a p)"
  and keeps_slot_clean [simp]: "keeps_slot i p (mark_clean a p)"
  and keeps_slot_dirty [simp]: "keeps_slot i p (decrement_dirty_count (upd_slot a (\<lambda>s. s\<lparr>slot_dirty := False\<rparr>) p))"
  by (rule keeps_slot_upd [where a = a], (simp_all add: pin_slot_def unpin_frame_def mark_clean_def) [2])+

lemma keeps_slot_fold:
  assumes "\<And>x p. keeps_slot i p (f x p)"
  shows "keeps_slot i p (fold f xs p)"
  by (induction xs arbitrary: p) (auto intro: keeps_slot_trans assms)

lemma keeps_slot_pin_modified: "keeps_slot i p (snd (pin_modified keys own p))"
proof (induction keys arbitrary: p)
  case (Cons k keys)
  show ?case
  proof (cases "pin_page_by_key p k own")
    case None
    then show ?thesis using Cons by simp
  next
    case (Some jp)
    then obtain j where "jp = (j, pin_slot j p)" by (auto simp: pin_page_by_key_def split: option.splits)
    then show ?thesis using Some Cons [of "pin_slot j p"] keeps_slot_trans [OF keeps_slot_pin]
      by (simp split: prod.splits) fastforce
  qed
qed simp

lemma keeps_slot_flush:
  assumes "pool_inv pool"
  shows "keeps_slot i pool (fst (flush_pages pages pool d))"
proof -
  have sel: "keeps_slot i p (fst (flush_selected ks newest p d))" for ks newest p d
  proof (induction ks arbitrary: p d)
    case (Cons k ks)
    show ?case
    proof (cases "fst k \<in> file_handles p \<and> newest k \<noteq> None")
      case True
      then obtain a v where "newest k = Some (a, v)" by auto
      then show ?thesis using True keeps_slot_trans [OF keeps_slot_clean Cons] by simp
    qed (use Cons in \<open>auto split: option.splits\<close>)
  qed simp
  obtain newest p1 where s: "fold (select_newest (set pages)) [0..<length (slots pool)] (Map.empty, pool) = (newest, p1)"
    by fastforce
  have "select_inv pool (set pages) 0 (Map.empty, pool)"
    using assms by (simp add: select_inv_def same_but_clean_def chosen_def)
  then have "same_but_clean pool (length (slots pool)) p1"
    using select_inv_fold [of pool "set pages" 0 "(Map.empty, pool)" "length (slots pool)"] s by (simp add: select_inv_def)
  then have "keeps_slot i pool p1" by (simp add: same_but_clean_def keeps_slot_def)
  then show ?thesis using s keeps_slot_trans [OF _ sel] by (simp add: flush_pages_def)
qed

lemma keeps_slot_evict_superseded:
  assumes inv: "pool_inv pool" and i: "\<not> version_at pool i < v"
  shows "keeps_slot i pool (evict_superseded_committed_versions key v pool)"
proof (cases "page_to_slots pool key")
  case None
  then show ?thesis by (simp add: evict_superseded_committed_versions_def)
next
  case (Some "is")
  let ?Q = "\<lambda>s. \<not> uncommitted (version (slot_frame s)) \<and> version (slot_frame s) < v \<and> pin_count (slot_frame s) = 0"
  have is': "is = slots_of pool key" using Some by (simp add: slots_of_def)
  define p where "p = fold (\<lambda>i p. if ?Q (slots p ! i) then free_slot i p else p) is pool"
  have "slots p = clear_all {i \<in> set is. ?Q (slots pool ! i)} (slots pool)"
    using fold_clears [OF clears_free_slot slots_of_props [OF inv, of key], of ?Q] by (simp add: p_def is')
  moreover have "slots (evict_superseded_committed_versions key v pool) = slots p"
    unfolding evict_superseded_committed_versions_def Some option.case Let_def p_def by (simp add: relink_def)
  ultimately show ?thesis using i by (auto simp: keeps_slot_def empty_slot_def)
qed

lemma keeps_slot_evict_fold:
  "pool_inv pool \<Longrightarrow> \<not> version_at pool i < v \<Longrightarrow> i < length (slots pool) \<Longrightarrow>
   keeps_slot i pool (fold (\<lambda>key. evict_superseded_committed_versions key v) keys pool)
   \<and> pool_inv (fold (\<lambda>key. evict_superseded_committed_versions key v) keys pool)"
proof (induction keys arbitrary: pool)
  case (Cons k keys)
  let ?p = "evict_superseded_committed_versions k v pool"
  have k: "keeps_slot i pool ?p" using keeps_slot_evict_superseded [OF Cons.prems(1,2)] .
  then have "\<not> version_at ?p i < v" "i < length (slots ?p)" using Cons.prems by (auto simp: keeps_slot_def)
  then show ?case using Cons.IH [OF pool_inv_evict_superseded [OF Cons.prems(1)]] keeps_slot_trans [OF k] by simp
qed simp

text \<open>Stamping the pages: every version the transaction owns on them gets the commit timestamp.\<close>

definition stamp :: "page_key set \<Rightarrow> u64 \<Rightarrow> u64 \<Rightarrow> buffer_slot \<Rightarrow> buffer_slot" where
  "stamp ks own cts s = (if (\<exists>k \<in> ks. slot_key s = Some k) \<and> version (slot_frame s) = own
     then s\<lparr>slot_frame := (slot_frame s)\<lparr>version := cts\<rparr>\<rparr> else s)"

lemma slots_update_fold:
  fixes own cts :: u64
  defines "f \<equiv> \<lambda>i pool. if version_at pool i = own
      then upd_slot i (\<lambda>s. s\<lparr>slot_frame := (slot_frame s)\<lparr>version := cts\<rparr>\<rparr>) pool else pool"
  assumes ne: "cts \<noteq> own"
  shows "set is \<subseteq> {..<length (slots pool)} \<Longrightarrow> file_handles (fold f is pool) = file_handles pool
    \<and> page_to_slots (fold f is pool) = page_to_slots pool
    \<and> length (slots (fold f is pool)) = length (slots pool)
    \<and> (\<forall>j < length (slots pool). slots (fold f is pool) ! j = (if j \<in> set is \<and> version_at pool j = own
         then (slots pool ! j)\<lparr>slot_frame := (slot_frame (slots pool ! j))\<lparr>version := cts\<rparr>\<rparr> else slots pool ! j))"
proof (induction "is" arbitrary: pool)
  case (Cons i "is")
  then have i: "i < length (slots pool)" by simp
  have l: "length (slots (f i pool)) = length (slots pool)" "file_handles (f i pool) = file_handles pool"
    "page_to_slots (f i pool) = page_to_slots pool"
    by (simp_all add: f_def)
  have s: "slots (f i pool) ! j = (if j = i \<and> version_at pool j = own
      then (slots pool ! j)\<lparr>slot_frame := (slot_frame (slots pool ! j))\<lparr>version := cts\<rparr>\<rparr> else slots pool ! j)"
    if "j < length (slots pool)" for j using that i by (auto simp: f_def nth_list_update)
  show ?case using Cons.IH [of "f i pool"] Cons.prems l s ne by auto
qed simp

lemma slots_update_timestamps:
  assumes inv: "pool_inv pool" and c: "\<not> uncommitted cts"
  shows "slots (update_timestamps key t cts pool) = map (stamp {key} (t OR UNCOMMITTED_BIT) cts) (slots pool)"
    and "file_handles (update_timestamps key t cts pool) = file_handles pool"
proof -
  have ne: "cts \<noteq> t OR UNCOMMITTED_BIT" using c by auto
  have "j \<in> set (slots_of pool key) \<longleftrightarrow> slot_key (slots pool ! j) = Some key" if "j < length (slots pool)" for j
    using that inv by (auto simp: pool_inv_def index_ok_def)
  then show "slots (update_timestamps key t cts pool) = map (stamp {key} (t OR UNCOMMITTED_BIT) cts) (slots pool)"
    using slots_update_fold [OF ne slots_of_props(2) [OF inv, of key]]
    by (intro nth_equalityI) (simp_all add: update_timestamps_def stamp_def)
  show "file_handles (update_timestamps key t cts pool) = file_handles pool"
    using slots_update_fold [OF ne slots_of_props(2) [OF inv, of key]] by (simp add: update_timestamps_def)
qed

lemma slots_stamp_all:
  "pool_inv pool \<Longrightarrow> \<not> uncommitted cts \<Longrightarrow>
   slots (fold (\<lambda>key. update_timestamps key t cts) pages pool) = map (stamp (set pages) (t OR UNCOMMITTED_BIT) cts) (slots pool)
   \<and> file_handles (fold (\<lambda>key. update_timestamps key t cts) pages pool) = file_handles pool
   \<and> pool_inv (fold (\<lambda>key. update_timestamps key t cts) pages pool)"
proof (induction pages arbitrary: pool)
  case Nil
  have "stamp {} (t OR UNCOMMITTED_BIT) cts = id" by (simp add: stamp_def fun_eq_iff)
  then show ?case using Nil by simp
next
  case (Cons k pages)
  have ne: "cts \<noteq> t OR UNCOMMITTED_BIT" using Cons.prems(2) by auto
  then have "stamp (set pages) (t OR UNCOMMITTED_BIT) cts \<circ> stamp {k} (t OR UNCOMMITTED_BIT) cts
      = stamp (set (k # pages)) (t OR UNCOMMITTED_BIT) cts"
    by (auto simp: stamp_def fun_eq_iff)
  then show ?case
    using Cons.IH [of "update_timestamps k t cts pool"] pool_inv_update_timestamps [OF Cons.prems] Cons.prems(2)
      slots_update_timestamps [OF Cons.prems, of k t] by (simp add: comp_def fun_eq_iff)
qed

lemma pool_inv_unpin_any: "pool_inv pool \<Longrightarrow> pool_inv (unpin_frame i pool)"
  using pool_inv_unpin [of pool i] by (cases "i < length (slots pool)") (simp_all add: unpin_frame_def upd_slot_def list_update_beyond)

lemma pool_inv_unpins: "pool_inv pool \<Longrightarrow> pool_inv (fold unpin_frame is pool)"
  by (induction "is" arbitrary: pool) (simp_all add: pool_inv_unpin_any)

lemma pool_inv_pin_modified: "pool_inv pool \<Longrightarrow> pool_inv (snd (pin_modified keys own pool))"
proof (induction keys arbitrary: pool)
  case (Cons k keys)
  show ?case
  proof (cases "pin_page_by_key pool k own")
    case None
    then show ?thesis using Cons by simp
  next
    case (Some jp)
    then obtain j q where "pin_page_by_key pool k own = Some (j, q)" by (cases jp) simp
    moreover from this have "pool_inv (snd (pin_modified keys own q))" using Cons pool_inv_by_key by blast
    ultimately show ?thesis by (simp split: prod.splits) (metis snd_conv)
  qed
qed simp

lemma publish_result:
  assumes inv: "pool_inv pool" and c: "\<not> uncommitted cts" and k: "key \<in> set pages"
    and i: "i \<in> holding pool key" "version_at pool i = t OR UNCOMMITTED_BIT"
    and old: "\<forall>j \<in> holding pool key. \<not> uncommitted (version_at pool j) \<longrightarrow> version_at pool j < cts"
    and pub: "publish_pages pages t cts pins pool d = (pool', d')"
  shows "stored d' key = data_at pool i" and "pool_inv pool'" and "i \<in> holding pool' key"
    and "version_at pool' i = cts" and "data_at pool' i = data_at pool i"
    and "\<forall>j \<in> holding pool' key. j \<noteq> i \<and> \<not> uncommitted (version_at pool' j) \<longrightarrow> version_at pool' j < cts"
proof -
  let ?own = "t OR UNCOMMITTED_BIT"
  obtain pinned p1 where pm: "pin_modified pages ?own pool = (pinned, p1)" by fastforce
  define p2 where "p2 = fold (\<lambda>key. update_timestamps key t cts) pages p1"
  obtain p3 d3 where fl: "flush_pages pages p2 d = (p3, d3)" by fastforce
  define p4 where "p4 = fold unpin_frame pins (fold unpin_frame pinned p3)"
  have e: "pool' = fold (\<lambda>key. evict_superseded_committed_versions key cts) pages p4" "d' = d3"
    using pub pm fl k by (auto simp: publish_pages_def p2_def p4_def Let_def split: if_splits)
  have p1: "pool_inv p1" "keeps_slot i pool p1"
    using pool_inv_pin_modified [OF inv] keeps_slot_pin_modified [of i pool pages ?own] pm by (metis snd_conv)+
  have il: "i < length (slots pool)" "slot_key (slots pool ! i) = Some key" using i by (auto simp: holding_def)
  have st: "slots p2 = map (stamp (set pages) ?own cts) (slots p1)" "pool_inv p2"
    using slots_stamp_all [OF p1(1) c] by (auto simp: p2_def)
  have l1: "length (slots p1) = length (slots pool)" using p1 by (simp add: keeps_slot_def)
  have i1: "slot_key (slots p1 ! i) = Some key" "version_at p1 i = ?own" "data_at p1 i = data_at pool i"
    using p1(2) il i(2) by (auto simp: keeps_slot_def)
  then have "slot_dirty (slots p1 ! i)" using slot_ok_nth [OF p1(1), of i] il l1 by (auto simp: slot_ok_def)
  then have i2: "i < length (slots p2)" "slot_key (slots p2 ! i) = Some key" "version_at p2 i = cts"
    "data_at p2 i = data_at pool i" "slot_dirty (slots p2 ! i)"
    using st i1 il l1 k by (auto simp: stamp_def)
  have o2: "version_at p2 j < cts" if "j \<in> holding p2 key" "j \<noteq> i" "\<not> uncommitted (version_at p2 j)" for j
  proof -
    have j: "j < length (slots p1)" "slot_key (slots p1 ! j) = Some key" using that(1) st by (auto simp: holding_def stamp_def split: if_splits)
    then have "j \<in> holding pool key" "version_at p1 j = version_at pool j" using p1(2) l1 by (auto simp: holding_def keeps_slot_def)
    moreover have "version_at p1 j \<noteq> ?own"
      using p1(1) j that(2) i1 il l1 by (auto simp: pool_inv_def owner_unique_def)
    ultimately show ?thesis using old that(3) st j by (auto simp: stamp_def)
  qed
  have ch: "fst key \<in> file_handles p2" using slot_ok_nth [OF st(2) i2(1)] i2 by (auto simp: slot_ok_def)
  have "stored d3 key = data_at p2 i"
    using flush_pages_spec(2) [OF st(2) k ch, of i d] i2 o2 k c fl by (auto simp: candidate_def holding_def)
  then show "stored d' key = data_at pool i" using e i2 by simp
  have p3: "pool_inv p3" "keeps_slot i p2 p3"
    using flush_pages_spec(1) [OF st(2), of pages d] keeps_slot_flush [OF st(2), of i pages d] fl by auto
  have k4: "keeps_slot i p3 p4" unfolding p4_def
    by (rule keeps_slot_trans [OF keeps_slot_fold keeps_slot_fold]) simp_all
  have "pool_inv p4" using p3 pool_inv_unpins by (simp add: p4_def)
  moreover have k24: "keeps_slot i p2 p4" using keeps_slot_trans [OF p3(2) k4] .
  then have "\<not> version_at p4 i < cts" "i < length (slots p4)" using i2 by (auto simp: keeps_slot_def)
  ultimately have f: "pool_inv pool'" "keeps_slot i p4 pool'" using keeps_slot_evict_fold e by auto
  then have k25: "keeps_slot i p2 pool'" using keeps_slot_trans [OF k24] by simp
  show "pool_inv pool'" using f by simp
  show "i \<in> holding pool' key" "version_at pool' i = cts" "data_at pool' i = data_at pool i"
    using k25 i2 by (auto simp: keeps_slot_def holding_def)
  show "\<forall>j \<in> holding pool' key. j \<noteq> i \<and> \<not> uncommitted (version_at pool' j) \<longrightarrow> version_at pool' j < cts"
    using k25 o2 by (auto simp: keeps_slot_def holding_def)
qed

text \<open>The latest committed version of a page is the one with the highest timestamp.\<close>

lemma latest_committed_max:
  "latest_committed ver is (Some b) (ver b) = Some r \<Longrightarrow> \<not> uncommitted (ver b) \<Longrightarrow>
   \<not> uncommitted (ver r) \<and> ver b \<le> ver r \<and> (\<forall>j \<in> set is. \<not> uncommitted (ver j) \<longrightarrow> ver j \<le> ver r)"
proof (induction "is" arbitrary: b)
  case (Cons a "is")
  show ?case
  proof (cases "\<not> uncommitted (ver a) \<and> ver b \<le> ver a")
    case True
    then show ?thesis using Cons.IH [of a] Cons.prems(1) by force
  next
    case False
    then show ?thesis using Cons.IH [of b] Cons.prems by force
  qed
qed simp

lemma latest_committed_first:
  assumes "i \<in> set is" "\<not> uncommitted (ver i)"
  shows "\<exists>r. latest_committed ver is None 0 = Some r \<and> ver i \<le> ver r \<and> r \<in> set is \<and> \<not> uncommitted (ver r)"
  using assms
proof (induction "is")
  case (Cons a "is")
  have some: "\<exists>r. latest_committed ver is (Some b) v = Some r" for b v "is"
    by (induction "is" arbitrary: b v) auto
  show ?case
  proof (cases "uncommitted (ver a)")
    case True
    then show ?thesis using Cons by auto
  next
    case False
    obtain r where r: "latest_committed ver is (Some a) (ver a) = Some r" using some by blast
    then have "r = a \<or> r \<in> set is" using latest_committed_mem by fastforce
    then show ?thesis using latest_committed_max [OF r False] r False Cons.prems by auto
  qed
qed simp

definition committed_below :: "buffer_pool \<Rightarrow> page_key \<Rightarrow> u64 \<Rightarrow> bool" where
  "committed_below pool key cts \<longleftrightarrow>
     (\<forall>j < length (slots pool). slot_key (slots pool ! j) = Some key \<longrightarrow> \<not> uncommitted (version_at pool j) \<longrightarrow> version_at pool j < cts)"

lemma committed_below_holding:
  "committed_below pool key cts \<longleftrightarrow> (\<forall>j \<in> holding pool key. \<not> uncommitted (version_at pool j) \<longrightarrow> version_at pool j < cts)"
  by (auto simp: committed_below_def holding_def)

lemma remdups_singleton: "set xs = {x} \<Longrightarrow> remdups xs = [x]"
proof -
  assume s: "set xs = {x}"
  then have "length (remdups xs) = 1" by (simp add: length_remdups_card_conv)
  then obtain y where "remdups xs = [y]" by (metis One_nat_def length_0_conv length_Suc_conv)
  then show "remdups xs = [x]" using s by (metis list.set(1) list.set(2) set_remdups singleton_inject)
qed

lemma commit_one_page:
  assumes inv: "pool_inv pool" and c: "\<not> uncommitted cts" and key: "mod_key ` set (modified_page_rows tx) = {key}"
    and kn: "fst key \<in> known" and old: "committed_below pool key cts"
    and cm: "commit_pages known tx cts pool d = Some (Ok (tx', pool', d'))"
  shows "stored d' key = fold apply_row_mod (modified_page_rows tx) (latest pool d key)"
    and "latest pool' d' key = stored d' key" and "pool_inv pool'"
    and "cts < cts' \<Longrightarrow> committed_below pool' key cts'"
proof -
  have rd: "remdups (map mod_key (modified_page_rows tx)) = [key]"
    by (rule remdups_singleton) (simp add: key)
  have fl: "filter (\<lambda>m. mod_key m = key) (modified_page_rows tx) = modified_page_rows tx" using key by (intro filter_True) auto
  have cp: "commit_pages known tx cts pool d = (merge_pages [key] tx pool d \<bind> (\<lambda>r. case r of
      Err e \<Rightarrow> Some (Err e)
    | Ok (is, tx, pool, d) \<Rightarrow> (case publish_pages (modified_pages tx) (tx_id tx) cts is pool d of
            (pool, d) \<Rightarrow> Some (Ok (tx, pool, d)))))"
    unfolding commit_pages_def rd by (rule arg_cong [where f = "\<lambda>ks. merge_pages ks tx pool d \<bind> _"]) (simp add: kn)
  obtain i tx1 p1 d1 where mp: "merge_page key (modified_page_rows tx) tx pool d = Some (Ok (i, tx1, p1, d1))"
  proof (cases "merge_page key (modified_page_rows tx) tx pool d")
    case None
    then show ?thesis using cm cp by (simp add: fl)
  next
    case (Some r)
    then show ?thesis using cm cp that by (cases r) (auto simp: fl)
  qed
  then have "commit_pages known tx cts pool d = (case publish_pages (modified_pages tx1) (tx_id tx1) cts [i] p1 d1 of
            (pool, d) \<Rightarrow> Some (Ok (tx1, pool, d)))"
    unfolding cp by (simp add: fl)
  then have pb: "publish_pages (modified_pages tx1) (tx_id tx1) cts [i] p1 d1 = (pool', d')"
    using cm by (simp split: prod.splits)
  note m = merge_page_result [OF inv mp]
  have "\<forall>j \<in> holding p1 key. \<not> uncommitted (version_at p1 j) \<longrightarrow> version_at p1 j < cts"
    using m(6) old by (metis committed_below_holding)
  note r = publish_result [OF m(1) c _ m(2) _ this pb]
  have t: "key \<in> set (modified_pages tx1)" "version_at p1 i = tx_id tx1 OR UNCOMMITTED_BIT" using m(3,5) by simp_all
  note r = r [OF t]
  show st: "stored d' key = fold apply_row_mod (modified_page_rows tx) (latest pool d key)" using r(1) m(4) by simp
  show "pool_inv pool'" by (rule r)
  have "i \<in> set (slots_of pool' key)" using r(2,3) by (auto simp: pool_inv_def index_ok_def holding_def)
  then obtain l where l: "latest_committed (version_at pool') (slots_of pool' key) None 0 = Some l"
    "version_at pool' i \<le> version_at pool' l" "l \<in> set (slots_of pool' key)" "\<not> uncommitted (version_at pool' l)"
    using latest_committed_first [of i _ "version_at pool'"] r(4) c by auto
  then have "l \<in> holding pool' key" using r(2) by (auto simp: pool_inv_def index_ok_def holding_def)
  then have "l = i" using r(4,6) l by fastforce
  then show "latest pool' d' key = stored d' key" using l r(1,5) by (simp add: pin_latest_committed_def)
  show "committed_below pool' key cts'" if "cts < cts'"
    unfolding committed_below_holding using r(4,6) that by fastforce
qed

end
