(* ===== verification/Commit_Properties.thy ===== *)
theory Commit_Properties
  imports Page_Commit
begin

text \<open>
  What the page phases of a commit guarantee when several transactions write rows of one page, and what they
  do not guarantee to older snapshots.
\<close>

section \<open>Examples\<close>

definition example_mod :: "u64 \<Rightarrow> byte \<Rightarrow> page_row_mod" where
  "example_mod r b = \<lparr>prm_file_id = 7, prm_page_idx = 0, prm_row_id = r, element_size = 1, values_per_page = 4096,
     row_data = [b], overflow_row_data = None\<rparr>"

definition example_disk :: disk where
  "example_disk = \<lparr>num_pages = (\<lambda>_. 1), stored = (\<lambda>_. [50])\<rparr>"

definition example_writer :: "u64 \<Rightarrow> u64 \<Rightarrow> byte \<Rightarrow> transaction" where
  "example_writer t r b = (new_transaction t False 5)\<lparr>modified_page_rows := [example_mod r b]\<rparr>"

text \<open>A reader has the committed version pinned, transactions 8 and 9 each have a version of their own.\<close>

definition writers_pool :: buffer_pool where
  "writers_pool = pin_slot 1 (install_frame 0 (7, 0) (new_frame [80] (8 OR UNCOMMITTED_BIT)) True example_pool)"

definition returns :: "'a result option \<Rightarrow> ('a \<Rightarrow> bool) \<Rightarrow> bool" where
  "returns r P = (case r of None \<Rightarrow> False | Some v \<Rightarrow> (case v of Err _ \<Rightarrow> False | Ok x \<Rightarrow> P x))"

lemma returnsD: "returns r P \<Longrightarrow> \<exists>x. r = Some (Ok x) \<and> P x"
  by (cases r; cases "the r") (auto simp: returns_def)

lemma three_cases: "i < (3 :: nat) \<Longrightarrow> i = 0 \<or> i = 1 \<or> i = 2"
  by linarith

lemma pool_inv_writers: "pool_inv writers_pool"
proof -
  note defs = example_pool_def example_slot_def new_frame_def
  have "pool_inv (install_frame 0 (7, 0) (new_frame [80] (8 OR UNCOMMITTED_BIT)) True example_pool)"
  proof (rule pool_inv_install [OF pool_inv_example])
    fix j assume "j < length (slots example_pool)"
    then have "j = 0 \<or> j = 1 \<or> j = 2" by (intro three_cases) (simp add: defs)
    then show "version_at example_pool j \<noteq> version (new_frame [80] (8 OR UNCOMMITTED_BIT))"
      by (elim disjE) (simp_all add: defs UNCOMMITTED_BIT_def)
  qed (simp_all add: defs slot_ok_def)
  then show ?thesis unfolding writers_pool_def by (rule pool_inv_pin) (simp add: defs)
qed

lemma committed_below_writers: "committed_below writers_pool (7, 0) 6"
proof -
  have "\<not> uncommitted (version_at writers_pool i) \<longrightarrow> version_at writers_pool i < 6" if "i < 3" for i
    using three_cases [OF that]
    by (elim disjE) (simp_all add: writers_pool_def pin_slot_def example_pool_def example_slot_def new_frame_def UNCOMMITTED_BIT_def)
  then show ?thesis by (simp add: committed_below_def writers_pool_def example_pool_def)
qed

section \<open>Properties\<close>

text \<open>
  C5 [concurrent_writers_merge]. Two transactions write rows of one page and commit one after the other, the
  second possibly from a copy of the page taken before the first committed. The page on disk after the
  second commit is the page that was the latest committed one before, with the row writes of the first and
  then those of the second applied: neither commit loses the rows of the other.
\<close>

theorem concurrent_writers_merge:
  assumes "pool_inv pool" "committed_below pool key cts1" "cts1 < cts2" "\<not> uncommitted cts2" and c1: "\<not> uncommitted cts1" and "fst key \<in> known"
    and "mod_key ` set (modified_page_rows tx1) = {key}" "mod_key ` set (modified_page_rows tx2) = {key}"
    and "commit_pages known tx1 cts1 pool d = Some (Ok (tx1', pool1, d1))"
    and "commit_pages known tx2 cts2 pool1 d1 = Some (Ok (tx2', pool2, d2))"
  shows "stored d2 key = fold apply_row_mod (modified_page_rows tx1 @ modified_page_rows tx2) (latest pool d key)"
proof -
  note one = commit_one_page [OF assms(1) c1 assms(7,6,2,9)]
  show ?thesis
    using commit_one_page(1) [OF one(3) assms(4,8,6) one(4) [OF assms(3)] assms(10)] one(1,2) by simp
qed

theorem concurrent_writers_merge_witness:
  "\<exists>t1 p1 d1 t2 p2 d2. commit_pages {7} (example_writer 9 0 11) 6 writers_pool example_disk = Some (Ok (t1, p1, d1))
     \<and> commit_pages {7} (example_writer 8 1 22) 7 p1 d1 = Some (Ok (t2, p2, d2)) \<and> stored d2 (7, 0) = [11, 22]"
proof -
  have "returns (commit_pages {7} (example_writer 9 0 11) 6 writers_pool example_disk)
      (\<lambda>(t1, p1, d1). returns (commit_pages {7} (example_writer 8 1 22) 7 p1 d1) (\<lambda>_. True))" by code_simp
  then obtain t1 p1 d1 t2 p2 d2 where run: "commit_pages {7} (example_writer 9 0 11) 6 writers_pool example_disk = Some (Ok (t1, p1, d1))"
    "commit_pages {7} (example_writer 8 1 22) 7 p1 d1 = Some (Ok (t2, p2, d2))"
    by (auto dest!: returnsD)
  have k: "mod_key ` set (modified_page_rows (example_writer t r b)) = {(7, 0)}" for t r b
    by (simp add: example_writer_def mod_key_def example_mod_def)
  have l: "latest writers_pool example_disk (7, 0) = [50]" by code_simp
  have "stored d2 (7, 0) = fold apply_row_mod (modified_page_rows (example_writer 9 0 11) @ modified_page_rows (example_writer 8 1 22))
      (latest writers_pool example_disk (7, 0))"
    by (rule concurrent_writers_merge [OF pool_inv_writers committed_below_writers _ _ _ _ k k run]) (simp_all add: UNCOMMITTED_BIT_def)
  moreover have "fold apply_row_mod (modified_page_rows (example_writer 9 0 11) @ modified_page_rows (example_writer 8 1 22)) [50] = [11, 22]"
    by code_simp
  ultimately show ?thesis using run l by auto
qed

text \<open>What a transaction reads of a page.\<close>

definition read_pinned :: "buffer_pool \<Rightarrow> disk \<Rightarrow> page_key \<Rightarrow> transaction \<Rightarrow> byte list option" where
  "read_pinned pool d key tx =
     (case pin_page pool d key tx of Some (Ok (i, p, _)) \<Rightarrow> Some (data_at p i) | _ \<Rightarrow> None)"



end
