(* ===== verification/Floats.thy ===== *)
theory Floats
  imports Values
begin

text \<open>
  The conversions and comparisons of \<open>f64\<close> values the storage engine uses, on the IEEE 754 bit pattern: sign,
  biased exponent and fraction. Rust's \<open>as\<close> casts truncate towards zero and saturate, and map NaN to zero; a
  cast from an integer rounds to the nearest double, ties to even.
\<close>

definition f64_neg :: "f64 \<Rightarrow> bool" where
  "f64_neg b \<longleftrightarrow> 2 ^ 63 \<le> unat b"

definition f64_exp :: "f64 \<Rightarrow> nat" where
  "f64_exp b = unat b div 2 ^ 52 mod 2 ^ 11"

definition f64_frac :: "f64 \<Rightarrow> nat" where
  "f64_frac b = unat b mod 2 ^ 52"

definition f64_nan :: "f64 \<Rightarrow> bool" where
  "f64_nan b \<longleftrightarrow> f64_exp b = 2047 \<and> f64_frac b \<noteq> 0"

definition f64_make :: "bool \<Rightarrow> nat \<Rightarrow> f64" where
  "f64_make neg mag = of_nat ((if neg then 2 ^ 63 else 0) + mag)"

text \<open>The value truncated towards zero; an infinity is a number beyond every integer type.\<close>

definition f64_trunc :: "f64 \<Rightarrow> int" where
  "f64_trunc b =
     (let e = f64_exp b;
          m = f64_frac b;
          mag = (if e < 1023 then 0
                 else if 1075 \<le> e then (2 ^ 52 + m) * 2 ^ (e - 1075)
                 else (2 ^ 52 + m) div 2 ^ (1075 - e))
      in if f64_neg b then - int mag else int mag)"

definition f64_saturate :: "int \<Rightarrow> int \<Rightarrow> f64 \<Rightarrow> int" where
  "f64_saturate lo hi b = (if f64_nan b then 0 else max lo (min hi (f64_trunc b)))"

definition f64_to_i64 :: "f64 \<Rightarrow> u64" where
  "f64_to_i64 b = word_of_int (f64_saturate (- (2 ^ 63)) (2 ^ 63 - 1) b)"

definition f64_to_i32 :: "f64 \<Rightarrow> u32" where
  "f64_to_i32 b = word_of_int (f64_saturate (- (2 ^ 31)) (2 ^ 31 - 1) b)"

definition f64_to_u64 :: "f64 \<Rightarrow> u64" where
  "f64_to_u64 b = word_of_int (f64_saturate 0 (2 ^ 64 - 1) b)"

text \<open>The magnitude bits of the double nearest to \<open>n\<close>: a carry out of the fraction moves to the exponent.\<close>

definition nat_to_f64_bits :: "nat \<Rightarrow> nat" where
  "nat_to_f64_bits n =
     (if n = 0 then 0
      else
        (let e = bit_length n - 1
         in if e \<le> 52 then (e + 1023) * 2 ^ 52 + (n * 2 ^ (52 - e) - 2 ^ 52)
            else
              (let s = e - 52;
                   q = n div 2 ^ s;
                   r = n mod 2 ^ s;
                   up = (if 2 * r > 2 ^ s \<or> 2 * r = 2 ^ s \<and> odd q then 1 else 0)
               in (e + 1023) * 2 ^ 52 + (q - 2 ^ 52) + up)))"

definition int_to_f64 :: "int \<Rightarrow> f64" where
  "int_to_f64 i = f64_make (i < 0) (nat_to_f64_bits (nat \<bar>i\<bar>))"

abbreviation i64_to_f64 :: "u64 \<Rightarrow> f64" where
  "i64_to_f64 w \<equiv> int_to_f64 (sint w)"

abbreviation u64_to_f64 :: "u64 \<Rightarrow> f64" where
  "u64_to_f64 w \<equiv> int_to_f64 (uint w)"

section \<open>Comparison\<close>

text \<open>The order of doubles that are not NaN: both zeros have rank 0.\<close>

definition f64_rank :: "f64 \<Rightarrow> int" where
  "f64_rank b = (if f64_neg b then - int (unat b - 2 ^ 63) else int (unat b))"

datatype ordering = Less | Equal | Greater

definition compare_by :: "'a::linorder \<Rightarrow> 'a \<Rightarrow> ordering" where
  "compare_by a b = (if a < b then Less else if a = b then Equal else Greater)"

definition f64_cmp :: "f64 \<Rightarrow> f64 \<Rightarrow> ordering option" where
  "f64_cmp a b = (if f64_nan a \<or> f64_nan b then None else Some (compare_by (f64_rank a) (f64_rank b)))"

definition f64_le :: "f64 \<Rightarrow> f64 \<Rightarrow> bool" where
  "f64_le a b \<longleftrightarrow> f64_cmp a b = Some Less \<or> f64_cmp a b = Some Equal"

section \<open>Integers up to 2 to the power 53 survive\<close>

lemma unat_f64_make: "mag < 2 ^ 63 \<Longrightarrow> unat (f64_make neg mag) = (if neg then 2 ^ 63 else 0) + mag"
proof -
  assume m: "mag < 2 ^ 63"
  then have "(if neg then 2 ^ 63 else 0) + mag < 2 ^ LENGTH(64)" by simp
  then show "unat (f64_make neg mag) = (if neg then 2 ^ 63 else 0) + mag"
    unfolding f64_make_def unat_of_nat by (rule mod_less)
qed

lemma f64_make_parts:
  assumes "e < 2047" "m < 2 ^ 52"
  shows "f64_exp (f64_make neg (e * 2 ^ 52 + m)) = e" "f64_frac (f64_make neg (e * 2 ^ 52 + m)) = m"
    "f64_neg (f64_make neg (e * 2 ^ 52 + m)) = neg"
proof -
  have "e * 2 ^ 52 + m < 2 ^ 63" using assms by simp
  then have u: "unat (f64_make neg (e * 2 ^ 52 + m)) = (if neg then 2048 else 0) * 2 ^ 52 + (e * 2 ^ 52 + m)"
    "e * 2 ^ 52 + m < 2 ^ 63" by (simp_all add: unat_f64_make)
  have "unat (f64_make neg (e * 2 ^ 52 + m)) = ((if neg then 2048 else 0) + e) * 2 ^ 52 + m"
    using u(1) by (simp add: algebra_simps)
  moreover have "m < c \<Longrightarrow> (k * c + m) div c = k \<and> (k * c + m) mod c = m" for k c by auto
  ultimately have "unat (f64_make neg (e * 2 ^ 52 + m)) div 2 ^ 52 = (if neg then 2048 else 0) + e"
    "unat (f64_make neg (e * 2 ^ 52 + m)) mod 2 ^ 52 = m" using assms(2) by presburger+
  then show "f64_exp (f64_make neg (e * 2 ^ 52 + m)) = e" "f64_frac (f64_make neg (e * 2 ^ 52 + m)) = m"
    using assms(1) by (simp_all add: f64_exp_def f64_frac_def)
  show "f64_neg (f64_make neg (e * 2 ^ 52 + m)) = neg" using u by (simp add: f64_neg_def)
qed

lemma bit_length_bounds: "n \<noteq> 0 \<Longrightarrow> 2 ^ (bit_length n - 1) \<le> n \<and> n < 2 ^ bit_length n"
proof -
  assume n: "n \<noteq> 0"
  have "2 ^ (bit_length n - 1) \<le> n" using n
  proof (induction n rule: bit_length.induct)
    case (1 n)
    show ?case
    proof (cases "n div 2 = 0")
      case True
      then have "n = 1" using 1 by auto
      then show ?thesis by (simp add: bit_length.simps)
    next
      case False
      then have "2 ^ (bit_length (n div 2) - 1) \<le> n div 2" using 1 by auto
      moreover have "bit_length (n div 2) \<noteq> 0" using False by (simp add: bit_length.simps [of "n div 2"])
      ultimately have "2 ^ bit_length (n div 2) \<le> n"
        by (cases "bit_length (n div 2)") auto
      then show ?thesis using 1 by (simp add: bit_length.simps [of n])
    qed
  qed
  then show ?thesis using less_exp_bit_length by simp
qed

lemma f64_exact_parts:
  assumes "0 < n" "n \<le> 2 ^ 53"
  obtains e m where "nat_to_f64_bits n = (e + 1023) * 2 ^ 52 + m" "m < 2 ^ 52" "e \<le> 53"
    "(if 52 \<le> e then (2 ^ 52 + m) * 2 ^ (e - 52) else (2 ^ 52 + m) div 2 ^ (52 - e)) = n"
proof -
  define e where "e = bit_length n - 1"
  have b: "2 ^ e \<le> n" "n < 2 ^ Suc e" using bit_length_bounds [of n] assms(1) by (auto simp: e_def bit_length.simps [of n])
  have e53: "e \<le> 53" using b(1) assms(2) by (meson le_trans power_le_imp_le_exp one_less_numeral_iff semiring_norm(76))
  show ?thesis
  proof (cases "e \<le> 52")
    case True
    have p: "2 ^ e * 2 ^ (52 - e) = (2 ^ 52 :: nat)" using True by (simp flip: power_add)
    then have q: "2 ^ Suc e * 2 ^ (52 - e) = (2 * 2 ^ 52 :: nat)" by simp
    have "2 ^ 52 \<le> n * 2 ^ (52 - e)" using mult_le_mono1 [OF b(1), of "2 ^ (52 - e)"] unfolding p .
    moreover have "n * 2 ^ (52 - e) < 2 * 2 ^ 52" using mult_less_mono1 [OF b(2), of "2 ^ (52 - e)"] unfolding q by simp
    ultimately show ?thesis
      using True assms(1) that [of e "n * 2 ^ (52 - e) - 2 ^ 52"] e53
      by (cases "e = 52") (simp_all add: nat_to_f64_bits_def e_def Let_def)
  next
    case False
    then have e: "e = 53" using e53 by simp
    moreover have "n = 2 ^ 53" using b(1) assms(2) unfolding e by simp
    moreover have "nat_to_f64_bits n = (let s = e - 52; q = n div 2 ^ s; r = n mod 2 ^ s;
          up = (if 2 * r > 2 ^ s \<or> 2 * r = 2 ^ s \<and> odd q then 1 else 0)
        in (e + 1023) * 2 ^ 52 + (q - 2 ^ 52) + up)"
      unfolding nat_to_f64_bits_def Let_def e_def [symmetric] using False assms(1) by simp
    ultimately show ?thesis using that [of 53 0] by simp
  qed
qed

lemma f64_trunc_int:
  assumes "\<bar>i\<bar> \<le> 2 ^ 53"
  shows "f64_trunc (int_to_f64 i) = i" and "\<not> f64_nan (int_to_f64 i)"
proof -
  have "f64_trunc (int_to_f64 i) = i \<and> \<not> f64_nan (int_to_f64 i)"
  proof (cases "i = 0")
    case True
    then show ?thesis by (simp add: int_to_f64_def nat_to_f64_bits_def f64_make_def f64_trunc_def f64_exp_def f64_nan_def)
  next
    case False
    let ?n = "nat \<bar>i\<bar>"
    have n: "0 < ?n" "?n \<le> 2 ^ 53" using False assms by auto
    then obtain e m where em: "nat_to_f64_bits ?n = (e + 1023) * 2 ^ 52 + m" "m < 2 ^ 52" "e \<le> 53"
      "(if 52 \<le> e then (2 ^ 52 + m) * 2 ^ (e - 52) else (2 ^ 52 + m) div 2 ^ (52 - e)) = ?n"
      by (rule f64_exact_parts)
    note p = f64_make_parts [of "e + 1023" m "i < 0"]
    have "f64_exp (int_to_f64 i) = e + 1023" "f64_frac (int_to_f64 i) = m" "f64_neg (int_to_f64 i) = (i < 0)"
      unfolding int_to_f64_def em(1) using p em(2,3) by simp_all
    note f = this
    have "(if e + 1023 < 1023 then 0 else if 1075 \<le> e + 1023 then (2 ^ 52 + m) * 2 ^ (e + 1023 - 1075)
        else (2 ^ 52 + m) div 2 ^ (1075 - (e + 1023))) = ?n"
      using em(4) by (simp split: if_splits)
    then have "f64_trunc (int_to_f64 i) = (if i < 0 then - int ?n else int ?n)"
      unfolding f64_trunc_def Let_def f by simp
    moreover have "\<not> f64_nan (int_to_f64 i)" using f em(3) by (simp add: f64_nan_def)
    ultimately show ?thesis by simp
  qed
  then show "f64_trunc (int_to_f64 i) = i" and "\<not> f64_nan (int_to_f64 i)" by simp_all
qed

lemma f64_saturate_int: "\<bar>i\<bar> \<le> 2 ^ 53 \<Longrightarrow> lo \<le> i \<Longrightarrow> i \<le> hi \<Longrightarrow> f64_saturate lo hi (int_to_f64 i) = i"
  by (simp add: f64_saturate_def f64_trunc_int)

lemma i64_f64_i64: "\<bar>sint w\<bar> \<le> 2 ^ 53 \<Longrightarrow> f64_to_i64 (i64_to_f64 w) = w"
  by (simp add: f64_to_i64_def f64_saturate_int)

lemma u64_f64_u64: "uint w \<le> 2 ^ 53 \<Longrightarrow> f64_to_u64 (u64_to_f64 w) = w"
  by (simp add: f64_to_u64_def f64_saturate_int)

lemma i32_f64_i32: "f64_to_i32 (int_to_f64 (sint (w :: u32))) = w"
proof -
  have "- (2 ^ 31) \<le> sint w" "sint w < 2 ^ 31" using sint_ge [of w] sint_lt [of w] by simp_all
  then show ?thesis by (simp add: f64_to_i32_def f64_saturate_int)
qed

end
