(* ===== verification/Codec_Interface.thy ===== *)
theory Codec_Interface
  imports Floats
begin

text \<open>
  The interface of the column codecs (\<open>CompressionAlg\<close> of \<open>storage/compression/mod.rs\<close>) and its client in
  \<open>storage/column.rs\<close>: \<open>reencode_compressed\<close>, which cuts a column into blocks of at most 32 values and
  writes one compressed block per page, and the compressed read path, which decodes one value of the block
  that holds a row. The locale \<open>block_codec\<close> states what a codec owes its client; its client lemma is that a
  re-encoded column reads back as it was.
\<close>

section \<open>Metadata and block layout\<close>

datatype compression_type =
    UncompressedT | IntegerBitpackingT | BooleanBitpackingT | ConstantT | AlpT
  | FixedFrameOfReferenceT | RleT | DictT

record compression_metadata =
  min_value :: val
  max_value :: val
  compression :: compression_type
  bit_width :: nat

text \<open>
  \<open>compress_next_page\<close> takes the source, the number of values left and the page to fill, and returns the
  compressed size, the number of values processed and the page; \<open>decompress_from_page\<close> takes the page, the
  index of the first value to decode, the output, the index of the first value to fill and the number of
  values. Counts are natural numbers: they index buffers.
\<close>

type_synonym compress_fn =
  "compression_metadata \<Rightarrow> byte list \<Rightarrow> nat \<Rightarrow> byte list \<Rightarrow> (nat \<times> nat \<times> byte list) result"

type_synonym decompress_fn =
  "compression_metadata \<Rightarrow> byte list \<Rightarrow> nat \<Rightarrow> byte list \<Rightarrow> nat \<Rightarrow> nat \<Rightarrow> byte list result"

section \<open>The client in the column\<close>

text \<open>\<open>src[o..o + element_size]\<close> is overwritten with the serialised values of the block.\<close>

fun fill_block :: "nat \<Rightarrow> byte list list \<Rightarrow> nat \<Rightarrow> byte list \<Rightarrow> byte list" where
  "fill_block es [] i src = src"
| "fill_block es (v # vs) i src = fill_block es vs (i + 1) (write_at (i * es) v src)"

text \<open>
  The block loop of \<open>reencode_compressed\<close> over the serialised values not yet written: \<open>src\<close> keeps the bytes
  of the previous block. The page is the zeroed frame with the first \<open>size\<close> bytes copied.
\<close>

function reencode_loop ::
  "compress_fn \<Rightarrow> compression_metadata \<Rightarrow> nat \<Rightarrow> byte list list \<Rightarrow> byte list \<Rightarrow> byte list list \<Rightarrow> byte list list result"
where
  "reencode_loop compress meta es vals src pages =
     (if vals = [] then Ok pages
      else
        (let blk = min 32 (length vals);
             src = fill_block es (take blk vals) 0 src
         in case compress meta src blk (replicate 4096 0) of
              Err e \<Rightarrow> Err e
            | Ok (sz, processed, dst) \<Rightarrow>
                if processed = 0 then Ok pages
                else reencode_loop compress meta es (drop processed vals) src
                       (pages @ [write_at 0 (take sz dst) (replicate 4096 0)])))"
  by pat_completeness auto

termination reencode_loop
  by (relation "measure (\<lambda>(compress, meta, es, vals, src, pages). length vals)") auto

declare reencode_loop.simps [simp del]

definition reencode_compressed ::
  "compress_fn \<Rightarrow> compression_metadata \<Rightarrow> nat \<Rightarrow> byte list list \<Rightarrow> byte list list result" where
  "reencode_compressed compress meta es vals =
     reencode_loop compress meta es vals (replicate (32 * es) 0) []"

text \<open>
  The compressed branch of \<open>get_plain_value\<close>: the bytes handed to \<open>parse_value\<close>. Pinning a page past the
  end of the file yields zeros.
\<close>

definition read_compressed ::
  "decompress_fn \<Rightarrow> compression_metadata \<Rightarrow> nat \<Rightarrow> byte list list \<Rightarrow> nat \<Rightarrow> byte list result" where
  "read_compressed decompress meta es pages row =
     (let page_idx = row div 32;
          value_idx = row mod 32;
          page = (if page_idx < length pages then pages ! page_idx else replicate 4096 0)
      in case decompress meta page value_idx (replicate (32 * es) 0) 0 1 of
           Err e \<Rightarrow> Err e
         | Ok temp \<Rightarrow> Ok (take es temp))"

section \<open>Slices of value blocks\<close>

lemma fill_block_eq:
  "\<forall>v \<in> set vs. length v = es \<Longrightarrow> (i + length vs) * es \<le> length src \<Longrightarrow>
   fill_block es vs i src = write_at (i * es) (concat vs) src"
proof (induction vs arbitrary: i src)
  case Nil
  then show ?case by simp
next
  case (Cons v vs)
  have "(i + length (v # vs)) * es = i * es + es + length vs * es" by (simp add: algebra_simps)
  then have le: "i * es + es + length vs * es \<le> length src" using Cons.prems by simp
  have len: "length (concat vs) = length vs * es"
    using Cons.prems(1) by (induction vs) auto
  have "fill_block es (v # vs) i src = write_at ((i + 1) * es) (concat vs) (write_at (i * es) v src)"
    using Cons.IH [of "i + 1" "write_at (i * es) v src"] Cons.prems le by (simp add: algebra_simps)
  also have "\<dots> = write_at (i * es) (v @ concat vs) src"
    using write_at_append [of "i * es" v "concat vs" src] Cons.prems le len by (simp add: algebra_simps)
  finally show ?case by simp
qed

lemma length_concat_const: "\<forall>v \<in> set vs. length v = es \<Longrightarrow> length (concat vs) = length vs * es"
  by (induction vs) auto

lemma slice_concat_const:
  "\<forall>v \<in> set vs. length v = es \<Longrightarrow> i < length vs \<Longrightarrow> slice_at (i * es) es (concat vs) = vs ! i"
proof (induction vs arbitrary: i)
  case Nil
  then show ?case by simp
next
  case (Cons v vs)
  then show ?case
    by (cases i) (auto simp: slice_at_def add.commute)
qed

section \<open>What a codec owes the column\<close>

locale block_codec =
  fixes es :: nat
    and valid :: "compression_metadata \<Rightarrow> byte list \<Rightarrow> nat \<Rightarrow> bool"
    and compress :: compress_fn
    and decompress :: decompress_fn
  assumes es_pos: "0 < es"
    and valid_prefix: "valid m src n \<Longrightarrow> take (n * es) src' = take (n * es) src \<Longrightarrow> valid m src' n"
    and block_roundtrip:
      "valid m src n \<Longrightarrow> 0 < n \<Longrightarrow> n \<le> 32 \<Longrightarrow> length src = 32 * es \<Longrightarrow> length dst = 4096 \<Longrightarrow>
       \<exists>sz dst'. compress m src n dst = Ok (sz, n, dst') \<and> sz \<le> 4096 \<and> length dst' = 4096
         \<and> (\<forall>page off out doff cnt. take sz page = take sz dst' \<longrightarrow> sz \<le> length page \<longrightarrow>
              off + cnt \<le> n \<longrightarrow> (doff + cnt) * es \<le> length out \<longrightarrow>
              decompress m page off out doff cnt
                = Ok (write_at (doff * es) (slice_at (off * es) (cnt * es) src) out))"
begin

text \<open>The blocks of a column, each padded with whatever the source buffer held.\<close>

definition blocks_valid :: "compression_metadata \<Rightarrow> byte list list \<Rightarrow> bool" where
  "blocks_valid m vals \<longleftrightarrow> (\<forall>v \<in> set vals. length v = es)
     \<and> (\<forall>b src. b * 32 < length vals \<longrightarrow> length src = 32 * es \<longrightarrow>
          take (min 32 (length vals - b * 32) * es) src
            = concat (take (min 32 (length vals - b * 32)) (drop (b * 32) vals)) \<longrightarrow>
          valid m src (min 32 (length vals - b * 32)))"

lemma blocks_valid_drop:
  assumes "blocks_valid m vals"
  shows "blocks_valid m (drop 32 vals)"
  unfolding blocks_valid_def
proof safe
  fix v assume "v \<in> set (drop 32 vals)"
  then show "length v = es" using assms by (auto simp: blocks_valid_def dest: in_set_dropD)
next
  fix b src
  assume b: "b * 32 < length (drop 32 vals)" and src: "length src = 32 * es"
    and "take (min 32 (length (drop 32 vals) - b * 32) * es) src
      = concat (take (min 32 (length (drop 32 vals) - b * 32)) (drop (b * 32) (drop 32 vals)))"
  moreover have "length (drop 32 vals) - b * 32 = length vals - (b + 1) * 32" by simp
  moreover have "drop (b * 32) (drop 32 vals) = drop ((b + 1) * 32) vals" by (simp add: add.commute)
  moreover have "(b + 1) * 32 < length vals" using b by simp
  ultimately show "valid m src (min 32 (length (drop 32 vals) - b * 32))"
    using assms unfolding blocks_valid_def by metis
qed

lemma reencode_block:
  assumes "blocks_valid m vals" "vals \<noteq> []" "length src = 32 * es"
  defines "blk \<equiv> min 32 (length vals)"
  shows "\<exists>page src'. reencode_loop compress m es vals src pages
           = reencode_loop compress m es (drop blk vals) src' (pages @ [page])
         \<and> length src' = 32 * es
         \<and> (\<forall>i < blk. \<forall>out. es \<le> length out \<longrightarrow> decompress m page i out 0 1 = Ok (write_at 0 (vals ! i) out))"
proof -
  have vs: "\<forall>v \<in> set vals. length v = es" using assms(1) by (simp add: blocks_valid_def)
  have blk: "0 < blk" "blk \<le> 32" "blk \<le> length vals" using assms(2) by (auto simp: blk_def)
  let ?vs = "take blk vals"
  have tvs: "\<forall>v \<in> set ?vs. length v = es" using vs by (auto dest: in_set_takeD)
  have lc: "length (concat ?vs) = blk * es" using length_concat_const [OF tvs] blk(3) by simp
  have room: "blk * es \<le> 32 * es" using blk(2) by (rule mult_le_mono1)
  define src' where "src' = write_at 0 (concat ?vs) src"
  have src': "fill_block es ?vs 0 src = src'" "length src' = 32 * es" "take (blk * es) src' = concat ?vs"
    using fill_block_eq [OF tvs, of 0 src] room lc assms(3) blk(3) by (simp_all add: src'_def write_at_def)
  have "valid m src' blk"
    using assms(1,2) src'(2,3) blk unfolding blocks_valid_def
    by (auto dest!: spec [of _ 0] spec [of _ src'] simp: blk_def)
  from block_roundtrip [OF this blk(1,2) src'(2), of "replicate 4096 0"]
  obtain sz dst where c: "compress m src' blk (replicate 4096 0) = Ok (sz, blk, dst)"
    and szl: "sz \<le> 4096" "length dst = 4096"
    and rt: "\<And>page off out doff cnt. take sz page = take sz dst \<Longrightarrow> sz \<le> length page \<Longrightarrow>
        off + cnt \<le> blk \<Longrightarrow> (doff + cnt) * es \<le> length out \<Longrightarrow>
        decompress m page off out doff cnt = Ok (write_at (doff * es) (slice_at (off * es) (cnt * es) src') out)"
    by auto
  define page where "page = write_at 0 (take sz dst) (replicate 4096 0)"
  have page: "take sz page = take sz dst" "sz \<le> length page"
    using szl by (simp_all add: page_def write_at_def)
  have "reencode_loop compress m es vals src pages = reencode_loop compress m es (drop blk vals) src' (pages @ [page])"
    using assms(2) c blk(1) src'(1) by (subst reencode_loop.simps) (simp add: Let_def page_def flip: blk_def)
  moreover have "decompress m page i out 0 1 = Ok (write_at 0 (vals ! i) out)"
    if "i < blk" "es \<le> length out" for i out
  proof -
    have "i * es + es \<le> blk * es" using that(1) mult_le_mono1 [of "i + 1" blk es] by simp
    then have "slice_at (i * es) es src' = slice_at (i * es) es (concat ?vs)"
      unfolding src'(3) [symmetric] by (simp add: slice_at_def take_drop min_def)
    also have "\<dots> = vals ! i" using slice_concat_const [OF tvs, of i] that(1) blk(3) by simp
    finally show ?thesis using rt [OF page, of i 1 0 out] that by simp
  qed
  ultimately show ?thesis using src'(2) by blast
qed

lemma reencode_loop_roundtrip:
  "blocks_valid m vals \<Longrightarrow> length src = 32 * es \<Longrightarrow>
   \<exists>ps. reencode_loop compress m es vals src pages = Ok (pages @ ps)
     \<and> (\<forall>i < length vals. i div 32 < length ps \<and>
          (\<forall>out. es \<le> length out \<longrightarrow> decompress m (ps ! (i div 32)) (i mod 32) out 0 1 = Ok (write_at 0 (vals ! i) out)))"
proof (induction "length vals" arbitrary: vals src pages rule: less_induct)
  case less
  show ?case
  proof (cases "vals = []")
    case True
    then show ?thesis by (auto simp: reencode_loop.simps)
  next
    case False
    have dr: "drop (min 32 (length vals)) vals = drop 32 vals" by (simp add: min_def)
    obtain page src' where step: "reencode_loop compress m es vals src pages
          = reencode_loop compress m es (drop 32 vals) src' (pages @ [page])"
      and src': "length src' = 32 * es"
      and pg: "\<And>i out. i < min 32 (length vals) \<Longrightarrow> es \<le> length out \<Longrightarrow>
          decompress m page i out 0 1 = Ok (write_at 0 (vals ! i) out)"
      using reencode_block [OF less.prems(1) False less.prems(2), of pages] unfolding dr by blast
    have "length (drop 32 vals) < length vals" using False by simp
    from less.hyps [OF this blocks_valid_drop [OF less.prems(1)] src', of "pages @ [page]"]
    obtain ps where ps: "reencode_loop compress m es (drop 32 vals) src' (pages @ [page]) = Ok (pages @ page # ps)"
      and rd: "\<And>i. i < length vals - 32 \<Longrightarrow> i div 32 < length ps"
        "\<And>i out. i < length vals - 32 \<Longrightarrow> es \<le> length out \<Longrightarrow>
          decompress m (ps ! (i div 32)) (i mod 32) out 0 1 = Ok (write_at 0 (drop 32 vals ! i) out)"
      by auto
    have "i div 32 < length (page # ps) \<and> (\<forall>out. es \<le> length out \<longrightarrow>
        decompress m ((page # ps) ! (i div 32)) (i mod 32) out 0 1 = Ok (write_at 0 (vals ! i) out))"
      if "i < length vals" for i
    proof (cases "i < 32")
      case True
      then show ?thesis using pg [of i] that by simp
    next
      case False
      then have "i div 32 = Suc ((i - 32) div 32)" "i mod 32 = (i - 32) mod 32" "i - 32 < length vals - 32"
        using that by (simp_all add: le_div_geq le_mod_geq)
      then show ?thesis using rd [of "i - 32"] False that by simp
    qed
    then show ?thesis using step ps by (intro exI [of _ "page # ps"]) simp
  qed
qed

text \<open>A re-encoded column reads back, row by row, as it was.\<close>

lemma reencode_roundtrip:
  assumes "blocks_valid m vals"
  shows "\<exists>pages. reencode_compressed compress m es vals = Ok pages
    \<and> (\<forall>i < length vals. read_compressed decompress m es pages i = Ok (vals ! i))"
proof -
  obtain ps where ps: "reencode_compressed compress m es vals = Ok ps"
    and rd: "\<And>i. i < length vals \<Longrightarrow> i div 32 < length ps" "\<And>i out. i < length vals \<Longrightarrow> es \<le> length out \<Longrightarrow>
        decompress m (ps ! (i div 32)) (i mod 32) out 0 1 = Ok (write_at 0 (vals ! i) out)"
    using reencode_loop_roundtrip [OF assms, of "replicate (32 * es) 0" "[]"]
    by (auto simp: reencode_compressed_def)
  have "read_compressed decompress m es ps i = Ok (vals ! i)" if "i < length vals" for i
  proof -
    have "length (vals ! i) = es" using assms that by (simp add: blocks_valid_def)
    then show ?thesis using rd(1) [OF that] rd(2) [OF that, of "replicate (32 * es) 0"] es_pos
      by (simp add: read_compressed_def write_at_def)
  qed
  with ps show ?thesis by blast
qed

end

end
