(* ===== verification/Logical_Types.thy ===== *)
theory Logical_Types
  imports Codec_Interface
begin

text \<open>
  The logical column types, the order on values and the per-column statistics with their page bounds (zone
  maps): \<open>lightning-types/src/lib.rs\<close>, the comparison of \<open>processor/mod.rs\<close> and \<open>stats/column_stats.rs\<close>.
\<close>

section \<open>Types\<close>

datatype logical_type =
    AnyT | BoolT | Int128T | Int64T | Int32T | Int16T | Int8T
  | Uint128T | Uint64T | Uint32T | Uint16T | Uint8T | FloatT | DoubleT
  | StringT | BlobT | TimestampT | DateT | IntervalT | InternalIDT | SerialT
  | ListT logical_type
  | StructT "(string \<times> logical_type) list"
  | MapT logical_type logical_type
  | UnionT "(string \<times> logical_type) list"
  | NodeT "(string \<times> logical_type) list"
  | RelT "(string \<times> logical_type) list"
  | LambdaT logical_type

section \<open>Values\<close>

definition as_number :: "val \<Rightarrow> f64" where
  "as_number v = (case v of Number n \<Rightarrow> n | Node i \<Rightarrow> u64_to_f64 i | _ \<Rightarrow> 0)"

definition as_node :: "val \<Rightarrow> u64" where
  "as_node v = (case v of Node i \<Rightarrow> i | Number n \<Rightarrow> f64_to_u64 n | _ \<Rightarrow> 0)"

definition as_list :: "val \<Rightarrow> val list option" where
  "as_list v = (case v of ListV l \<Rightarrow> Some l | _ \<Rightarrow> None)"

text \<open>Strings compare bytewise.\<close>

fun cmp_bytes :: "nat list \<Rightarrow> nat list \<Rightarrow> ordering" where
  "cmp_bytes [] [] = Equal"
| "cmp_bytes [] (_ # _) = Less"
| "cmp_bytes (_ # _) [] = Greater"
| "cmp_bytes (a # as) (b # bs) = (if a < b then Less else if b < a then Greater else cmp_bytes as bs)"

definition cmp_string :: "string \<Rightarrow> string \<Rightarrow> ordering" where
  "cmp_string s t = cmp_bytes (map of_char s) (map of_char t)"

text \<open>
  \<open>PartialOrd for Value\<close>. Values of different kinds, and paths, structs and maps, compare by their debug
  text; \<open>dbg\<close> is that formatter of the standard library.
\<close>

fun val_cmp :: "(val \<Rightarrow> string) \<Rightarrow> val \<Rightarrow> val \<Rightarrow> ordering option"
  and val_cmp_list :: "(val \<Rightarrow> string) \<Rightarrow> val list \<Rightarrow> val list \<Rightarrow> ordering option" where
  "val_cmp dbg a b =
     (case (a, b) of
        (StringV s1, StringV s2) \<Rightarrow> Some (cmp_string s1 s2)
      | (Number n1, Number n2) \<Rightarrow> f64_cmp n1 n2
      | (Boolean b1, Boolean b2) \<Rightarrow> Some (compare_by b1 b2)
      | (NullV, NullV) \<Rightarrow> Some Equal
      | (NullV, _) \<Rightarrow> Some Less
      | (_, NullV) \<Rightarrow> Some Greater
      | (Node i1, Node i2) \<Rightarrow> Some (compare_by i1 i2)
      | (Relationship i1, Relationship i2) \<Rightarrow> Some (compare_by i1 i2)
      | (Date d1, Date d2) \<Rightarrow> Some (compare_by (sint d1) (sint d2))
      | (Timestamp t1, Timestamp t2) \<Rightarrow> Some (compare_by (sint t1) (sint t2))
      | (ListV l1, ListV l2) \<Rightarrow> val_cmp_list dbg l1 l2
      | _ \<Rightarrow> Some (cmp_string (dbg a) (dbg b)))"
| "val_cmp_list dbg [] [] = Some Equal"
| "val_cmp_list dbg [] (_ # _) = Some Less"
| "val_cmp_list dbg (_ # _) [] = Some Greater"
| "val_cmp_list dbg (x # xs) (y # ys) =
     (case val_cmp dbg x y of
        Some Equal \<Rightarrow> val_cmp_list dbg xs ys
      | r \<Rightarrow> r)"

declare val_cmp.simps [simp del]

definition val_less :: "(val \<Rightarrow> string) \<Rightarrow> val \<Rightarrow> val \<Rightarrow> bool" where
  "val_less dbg a b \<longleftrightarrow> val_cmp dbg a b = Some Less"

definition val_greater :: "(val \<Rightarrow> string) \<Rightarrow> val \<Rightarrow> val \<Rightarrow> bool" where
  "val_greater dbg a b \<longleftrightarrow> val_cmp dbg a b = Some Greater"

section \<open>Statistics\<close>

record page_bounds =
  pb_min :: val
  pb_max :: val

definition value_can_be_in_page :: "page_bounds \<Rightarrow> val \<Rightarrow> logical_type \<Rightarrow> bool" where
  "value_can_be_in_page pb query t =
     (case t of
        Int64T \<Rightarrow> f64_le (as_number (pb_min pb)) (as_number query) \<and> f64_le (as_number query) (as_number (pb_max pb))
      | Int32T \<Rightarrow> f64_le (as_number (pb_min pb)) (as_number query) \<and> f64_le (as_number query) (as_number (pb_max pb))
      | Int16T \<Rightarrow> f64_le (as_number (pb_min pb)) (as_number query) \<and> f64_le (as_number query) (as_number (pb_max pb))
      | Int8T \<Rightarrow> f64_le (as_number (pb_min pb)) (as_number query) \<and> f64_le (as_number query) (as_number (pb_max pb))
      | Uint64T \<Rightarrow> as_node (pb_min pb) \<le> as_node query \<and> as_node query \<le> as_node (pb_max pb)
      | Uint32T \<Rightarrow> as_node (pb_min pb) \<le> as_node query \<and> as_node query \<le> as_node (pb_max pb)
      | Uint16T \<Rightarrow> as_node (pb_min pb) \<le> as_node query \<and> as_node query \<le> as_node (pb_max pb)
      | Uint8T \<Rightarrow> as_node (pb_min pb) \<le> as_node query \<and> as_node query \<le> as_node (pb_max pb)
      | NodeT _ \<Rightarrow> as_node (pb_min pb) \<le> as_node query \<and> as_node query \<le> as_node (pb_max pb)
      | DoubleT \<Rightarrow> f64_le (as_number (pb_min pb)) (as_number query) \<and> f64_le (as_number query) (as_number (pb_max pb))
      | FloatT \<Rightarrow> f64_le (as_number (pb_min pb)) (as_number query) \<and> f64_le (as_number query) (as_number (pb_max pb))
      | StringT \<Rightarrow>
          (case (query, pb_min pb, pb_max pb) of
             (StringV q, StringV lo, StringV hi) \<Rightarrow> cmp_string lo q \<noteq> Greater \<and> cmp_string q hi \<noteq> Greater
           | _ \<Rightarrow> True)
      | _ \<Rightarrow> True)"

record column_stats =
  cs_min :: "val option"
  cs_max :: "val option"
  null_count :: u64
  num_values :: u64
  distinct_count :: u64
  compression_meta :: "compression_metadata option"
  compression_ratio :: "f64 option"
  bounds :: "page_bounds option list"
  page_bounds_valid :: bool

definition new_column_stats :: column_stats where
  "new_column_stats = \<lparr>cs_min = None, cs_max = None, null_count = 0, num_values = 0, distinct_count = 0,
     compression_meta = None, compression_ratio = None, bounds = [], page_bounds_valid = False\<rparr>"

definition stats_update :: "(val \<Rightarrow> string) \<Rightarrow> val \<Rightarrow> column_stats \<Rightarrow> column_stats" where
  "stats_update dbg v st =
     (let st = st\<lparr>num_values := num_values st + 1\<rparr>
      in case v of
           NullV \<Rightarrow> st\<lparr>null_count := null_count st + 1\<rparr>
         | _ \<Rightarrow> st\<lparr>cs_min := (case cs_min st of
                               Some m \<Rightarrow> if val_less dbg v m then Some v else Some m
                             | None \<Rightarrow> Some v),
                  cs_max := (case cs_max st of
                               Some m \<Rightarrow> if val_greater dbg v m then Some v else Some m
                             | None \<Rightarrow> Some v)\<rparr>)"

definition invalidate_page_bounds :: "column_stats \<Rightarrow> column_stats" where
  "invalidate_page_bounds st = st\<lparr>bounds := [], page_bounds_valid := False\<rparr>"

definition MAX_PAGE_BOUNDS :: nat where
  "MAX_PAGE_BOUNDS = 1000000"

definition extend_bounds :: "(val \<Rightarrow> string) \<Rightarrow> val \<Rightarrow> page_bounds option \<Rightarrow> page_bounds" where
  "extend_bounds dbg v pb =
     (case pb of
        Some b \<Rightarrow> \<lparr>pb_min = (if val_less dbg v (pb_min b) then v else pb_min b),
                   pb_max = (if val_greater dbg v (pb_max b) then v else pb_max b)\<rparr>
      | None \<Rightarrow> \<lparr>pb_min = v, pb_max = v\<rparr>)"

definition update_page_bounds :: "(val \<Rightarrow> string) \<Rightarrow> nat \<Rightarrow> val \<Rightarrow> column_stats \<Rightarrow> column_stats" where
  "update_page_bounds dbg page_idx v st =
     (if v = NullV \<or> \<not> page_bounds_valid st \<or> MAX_PAGE_BOUNDS \<le> page_idx then st
      else
        (let bs = bounds st @ replicate (page_idx + 1 - length (bounds st)) None
         in st\<lparr>bounds := bs[page_idx := Some (extend_bounds dbg v (bs ! page_idx))]\<rparr>))"

end
