(* ===== verification/File_Store.thy ===== *)
theory File_Store
  imports Buffer_Pool
begin

text \<open>
  The page allocation of the files: the part of \<open>storage/file_handle.rs\<close> that adds, frees and truncates
  pages, and the free list of \<open>storage/free_space_manager.rs\<close> behind it.
\<close>

declare split_paired_All [simp del] split_paired_Ex [simp del]

section \<open>Operations\<close>

record file_store =
  fs_disk :: disk
  free_pages :: "u64 \<rightharpoonup> u64 list"

definition record_free_page :: "u64 \<Rightarrow> u64 \<Rightarrow> file_store \<Rightarrow> file_store" where
  "record_free_page file_id page_idx st =
     st\<lparr>free_pages := (free_pages st)(file_id \<mapsto> (case free_pages st file_id of None \<Rightarrow> [] | Some ps \<Rightarrow> ps) @ [page_idx])\<rparr>"

definition get_free_page :: "u64 \<Rightarrow> file_store \<Rightarrow> u64 option \<times> file_store" where
  "get_free_page file_id st =
     (case free_pages st file_id of
        None \<Rightarrow> (None, st)
      | Some [] \<Rightarrow> (None, st)
      | Some (p # ps) \<Rightarrow> (Some p, st\<lparr>free_pages := (free_pages st)(file_id \<mapsto> ps)\<rparr>))"

definition file_pages :: "file_store \<Rightarrow> u64 \<Rightarrow> u64" where
  "file_pages st file_id = num_pages (fs_disk st) file_id"

definition set_file_pages :: "u64 \<Rightarrow> u64 \<Rightarrow> file_store \<Rightarrow> file_store" where
  "set_file_pages file_id n st = st\<lparr>fs_disk := (fs_disk st)\<lparr>num_pages := (num_pages (fs_disk st))(file_id := n)\<rparr>\<rparr>"

definition add_new_page :: "u64 \<Rightarrow> file_store \<Rightarrow> u64 \<times> file_store" where
  "add_new_page file_id st =
     (case get_free_page file_id st of
        (Some p, st) \<Rightarrow> (p, st)
      | (None, st) \<Rightarrow> (file_pages st file_id, set_file_pages file_id (file_pages st file_id + 1) st))"

definition free_list :: "u64 \<Rightarrow> file_store \<Rightarrow> u64 list" where
  "free_list file_id st = (case free_pages st file_id of None \<Rightarrow> [] | Some ps \<Rightarrow> ps)"

lemma add_new_page_cases:
  "add_new_page f st = (case free_list f st of
     [] \<Rightarrow> (file_pages st f, set_file_pages f (file_pages st f + 1) st)
   | p # ps \<Rightarrow> (p, st\<lparr>free_pages := (free_pages st)(f \<mapsto> ps)\<rparr>))"
  by (simp add: add_new_page_def get_free_page_def free_list_def split: option.splits list.splits)

lemma file_store_simps [simp]:
  "file_pages (set_file_pages f n st) g = (if g = f then n else file_pages st g)"
  "free_list g (set_file_pages f n st) = free_list g st"
  "free_list g (st\<lparr>free_pages := (free_pages st)(f \<mapsto> ps)\<rparr>) = (if g = f then ps else free_list g st)"
  "file_pages (st\<lparr>free_pages := fp\<rparr>) g = file_pages st g"
  "stored (fs_disk (set_file_pages f n st)) = stored (fs_disk st)"
  by (auto simp: file_pages_def set_file_pages_def free_list_def)

text \<open>
  \<open>while fh.get_num_pages() <= page_idx { fh.add_new_page()? }\<close>: pages that the free list hands out are taken
  off it. A page index is a row number divided by the rows per page, so the count never wraps.
\<close>

function ensure_page :: "u64 \<Rightarrow> u64 \<Rightarrow> file_store \<Rightarrow> file_store" where
  "ensure_page file_id page_idx st =
     (if file_pages st file_id \<le> page_idx \<and> file_pages st file_id \<noteq> - 1
      then ensure_page file_id page_idx (snd (add_new_page file_id st)) else st)"
  by pat_completeness auto

termination ensure_page
proof (relation "measure (\<lambda>(f, p, st). length (free_list f st) + (unat p + 1 - unat (file_pages st f)))")
  fix f p st assume a: "file_pages st f \<le> p \<and> file_pages st f \<noteq> - 1"
  then have "unat (file_pages st f + 1) = unat (file_pages st f) + 1" by (simp add: unat_plus_one)
  then show "((f, p, snd (add_new_page f st)), f, p, st)
      \<in> measure (\<lambda>(f, p, st). length (free_list f st) + (unat p + 1 - unat (file_pages st f)))"
    using a by (auto simp: add_new_page_cases word_le_nat_alt split: list.splits)
qed simp

declare ensure_page.simps [simp del]

definition truncate_last_pages :: "u64 \<Rightarrow> u64 \<Rightarrow> file_store \<Rightarrow> file_store" where
  "truncate_last_pages file_id keep_count st =
     (if file_pages st file_id \<le> keep_count then st
      else
        (let st = fold (\<lambda>i. record_free_page file_id (of_nat i)) [unat keep_count..<unat (file_pages st file_id)] st;
             d = fs_disk st
         in set_file_pages file_id keep_count
              (st\<lparr>fs_disk := d\<lparr>stored := (\<lambda>k. if fst k = file_id \<and> keep_count \<le> snd k then zero_page else stored d k)\<rparr>\<rparr>)))"

text \<open>The file id: FNV-1a over the bytes of the path.\<close>

definition fnv1a_hash64 :: "byte list \<Rightarrow> u64" where
  "fnv1a_hash64 bs = fold (\<lambda>b h. (h XOR ucast b) * 1099511628211) bs 14695981039346656037"

section \<open>Lemmas\<close>

lemma ensure_page_spec:
  assumes "p \<noteq> - 1"
  shows "p < file_pages (ensure_page f p st) f" and "file_pages st f \<le> file_pages (ensure_page f p st) f"
    and "g \<noteq> f \<Longrightarrow> file_pages (ensure_page f p st) g = file_pages st g"
    and "g \<noteq> f \<Longrightarrow> free_list g (ensure_page f p st) = free_list g st"
    and "stored (fs_disk (ensure_page f p st)) = stored (fs_disk st)"
    and "p < file_pages st f \<Longrightarrow> ensure_page f p st = st"
    and "file_pages st f \<le> p \<Longrightarrow> file_pages (ensure_page f p st) f = p + 1"
    and "free_list f st = [] \<Longrightarrow> free_list f (ensure_page f p st) = []"
proof -
  have "p < file_pages (ensure_page f p st) f \<and> file_pages st f \<le> file_pages (ensure_page f p st) f
    \<and> (\<forall>g. g \<noteq> f \<longrightarrow> file_pages (ensure_page f p st) g = file_pages st g \<and> free_list g (ensure_page f p st) = free_list g st)
    \<and> stored (fs_disk (ensure_page f p st)) = stored (fs_disk st)
    \<and> (file_pages st f \<le> p \<longrightarrow> file_pages (ensure_page f p st) f = p + 1)
    \<and> (free_list f st = [] \<longrightarrow> free_list f (ensure_page f p st) = [])"
    using assms
  proof (induction f p st rule: ensure_page.induct)
    case (1 f p st)
    show ?case
    proof (cases "file_pages st f \<le> p")
      case False
      then have "ensure_page f p st = st" by (subst ensure_page.simps) simp
      then show ?thesis using False by auto
    next
      case True
      then have m1: "file_pages st f \<noteq> - 1" using 1(2) by (metis word_order.extremum_unique max_word_max)
      let ?st = "snd (add_new_page f st)"
      have e: "ensure_page f p st = ensure_page f p ?st" using True m1 by (simp add: ensure_page.simps [of f p st])
      have s: "stored (fs_disk ?st) = stored (fs_disk st)" "\<And>g. g \<noteq> f \<Longrightarrow> file_pages ?st g = file_pages st g \<and> free_list g ?st = free_list g st"
        "file_pages ?st f = (if free_list f st = [] then file_pages st f + 1 else file_pages st f)"
        "free_list f st = [] \<Longrightarrow> free_list f ?st = []"
        by (auto simp: add_new_page_cases split: list.splits)
      have le: "file_pages st f \<le> file_pages ?st f" using s(3) less_plus_one [OF m1] by auto
      have IH: "p < file_pages (ensure_page f p ?st) f \<and> file_pages ?st f \<le> file_pages (ensure_page f p ?st) f
        \<and> (\<forall>g. g \<noteq> f \<longrightarrow> file_pages (ensure_page f p ?st) g = file_pages ?st g \<and> free_list g (ensure_page f p ?st) = free_list g ?st)
        \<and> stored (fs_disk (ensure_page f p ?st)) = stored (fs_disk ?st)
        \<and> (file_pages ?st f \<le> p \<longrightarrow> file_pages (ensure_page f p ?st) f = p + 1)
        \<and> (free_list f ?st = [] \<longrightarrow> free_list f (ensure_page f p ?st) = [])"
        using 1 True m1 by blast
      have "file_pages (ensure_page f p ?st) f = p + 1"
      proof (cases "file_pages ?st f \<le> p")
        case False
        then have "ensure_page f p ?st = ?st" "file_pages ?st f = file_pages st f + 1"
          using s(3) True by (auto simp: ensure_page.simps [of f p ?st] split: if_splits)
        moreover from this have "file_pages st f = p"
          using False True unat_plus_one [OF m1] by (simp add: word_le_nat_alt word_unat_eq_iff)
        ultimately show ?thesis by simp
      qed (use IH in simp)
      moreover have "file_pages st f \<le> file_pages (ensure_page f p ?st) f" using IH le by (meson order.trans)
      ultimately show ?thesis unfolding e using IH s(1,2,4) by simp
    qed
  qed
  then show "p < file_pages (ensure_page f p st) f" "file_pages st f \<le> file_pages (ensure_page f p st) f"
    "g \<noteq> f \<Longrightarrow> file_pages (ensure_page f p st) g = file_pages st g"
    "g \<noteq> f \<Longrightarrow> free_list g (ensure_page f p st) = free_list g st"
    "stored (fs_disk (ensure_page f p st)) = stored (fs_disk st)"
    "file_pages st f \<le> p \<Longrightarrow> file_pages (ensure_page f p st) f = p + 1"
    "free_list f st = [] \<Longrightarrow> free_list f (ensure_page f p st) = []" by auto
  show "p < file_pages st f \<Longrightarrow> ensure_page f p st = st"
    by (subst ensure_page.simps) (simp add: not_le [symmetric])
qed

end
