(* ===== verification/Utf8.thy ===== *)
theory Utf8
  imports Values
begin

text \<open>
  The conversions between byte slices and strings of the standard library that the columns use:
  \<open>str::from_utf8\<close>, which accepts well-formed UTF-8, and \<open>String::from_utf8_lossy\<close>, which replaces every
  maximal ill-formed part by U+FFFD.
\<close>

definition cont :: "nat \<Rightarrow> bool" where
  "cont b \<longleftrightarrow> 0x80 \<le> b \<and> b \<le> 0xBF"

text \<open>The admissible second bytes of a character of three or four bytes, by its first byte.\<close>

definition second_ok :: "nat \<Rightarrow> nat \<Rightarrow> bool" where
  "second_ok a b \<longleftrightarrow>
     (if a = 0xE0 then 0xA0 \<le> b \<and> b \<le> 0xBF
      else if a = 0xED then 0x80 \<le> b \<and> b \<le> 0x9F
      else if a = 0xF0 then 0x90 \<le> b \<and> b \<le> 0xBF
      else if a = 0xF4 then 0x80 \<le> b \<and> b \<le> 0x8F
      else cont b)"

text \<open>The character at the head: whether it is well formed, and the number of bytes it or the ill-formed part takes.\<close>

definition utf8_head :: "nat list \<Rightarrow> bool \<times> nat" where
  "utf8_head bs =
     (let a = bs ! 0;
          has = (\<lambda>i P. i < length bs \<and> P (bs ! i))
      in if a < 0x80 then (True, 1)
         else if 0xC2 \<le> a \<and> a \<le> 0xDF then (if has 1 cont then (True, 2) else (False, 1))
         else if 0xE0 \<le> a \<and> a \<le> 0xEF then
           (if \<not> has 1 (second_ok a) then (False, 1)
            else if \<not> has 2 cont then (False, 2) else (True, 3))
         else if 0xF0 \<le> a \<and> a \<le> 0xF4 then
           (if \<not> has 1 (second_ok a) then (False, 1)
            else if \<not> has 2 cont then (False, 2)
            else if \<not> has 3 cont then (False, 3) else (True, 4))
         else (False, 1))"

lemma utf8_head_pos [simp]: "0 < snd (utf8_head bs)"
  by (auto simp: utf8_head_def Let_def)

function utf8_valid :: "nat list \<Rightarrow> bool" where
  "utf8_valid bs =
     (if bs = [] then True else fst (utf8_head bs) \<and> utf8_valid (drop (snd (utf8_head bs)) bs))"
  by pat_completeness auto

termination utf8_valid
  by (relation "measure length") auto

function utf8_lossy :: "nat list \<Rightarrow> nat list" where
  "utf8_lossy bs =
     (if bs = [] then []
      else (if fst (utf8_head bs) then take (snd (utf8_head bs)) bs else [0xEF, 0xBF, 0xBD])
             @ utf8_lossy (drop (snd (utf8_head bs)) bs))"
  by pat_completeness auto

termination utf8_lossy
  by (relation "measure length") auto

declare utf8_valid.simps [simp del] utf8_lossy.simps [simp del]

text \<open>A string is a sequence of bytes that is well-formed UTF-8.\<close>

definition valid_string :: "string \<Rightarrow> bool" where
  "valid_string s \<longleftrightarrow> utf8_valid (map of_char s)"

definition string_from :: "byte list \<Rightarrow> string" where
  "string_from bs =
     (let ns = map unat bs in map char_of (if utf8_valid ns then ns else utf8_lossy ns))"

lemma unat_of_char [simp]: "unat (of_char c :: byte) = of_char c"
proof -
  have "(of_char c :: byte) = of_nat (of_char c)" by (rule of_nat_of_char [symmetric])
  then show ?thesis using nat_of_char_less_256 [of c] unat_of_nat [of "of_char c", where ?'a = 8] by simp
qed

lemma string_from_as_bytes: "valid_string s \<Longrightarrow> string_from (as_bytes s) = s"
  by (simp add: string_from_def as_bytes_def valid_string_def comp_def Let_def)

text \<open>Replacing ill-formed parts changes nothing in well-formed text.\<close>

lemma utf8_lossy_valid: "utf8_valid bs \<Longrightarrow> utf8_lossy bs = bs"
proof (induction bs rule: utf8_valid.induct)
  case (1 bs)
  show ?case
  proof (cases "bs = []")
    case True
    then show ?thesis by (simp add: utf8_lossy.simps)
  next
    case False
    then have "fst (utf8_head bs)" "utf8_valid (drop (snd (utf8_head bs)) bs)"
      using 1(2) by (auto simp: utf8_valid.simps [of bs])
    then show ?thesis using 1(1) False by (subst utf8_lossy.simps) simp
  qed
qed

end
