(* ===== verification/Column_Cell.thy ===== *)
theory Column_Cell
  imports Logical_Types File_Store Utf8 Row_Version
begin

text \<open>
  The cells of a column (\<open>storage/column.rs\<close>): the page layout, the byte form of a value of each logical
  type, and the overflow pages of long strings. An operation runs in the environment of one transaction: the
  files as that transaction sees them, with its own page versions in place, and what it records on the way.
  A read pins a page and gives it back; a write makes the page the transaction's own first. The buffer pool
  has a free slot for every page the operation touches.
\<close>

declare split_paired_All [simp del] split_paired_Ex [simp del]

section \<open>Results\<close>

definition bind_r :: "'a result \<Rightarrow> ('a \<Rightarrow> 'b result) \<Rightarrow> 'b result" where
  "bind_r r f = (case r of Err e \<Rightarrow> Err e | Ok x \<Rightarrow> f x)"

lemma bind_r_simps [simp]: "bind_r (Ok x) f = f x" "bind_r (Err e) f = Err e"
  by (simp_all add: bind_r_def)

lemma bind_r_Ok [simp]: "bind_r r f = Ok y \<longleftrightarrow> (\<exists>x. r = Ok x \<and> f x = Ok y)"
  by (cases r) auto

fun fold_r :: "('a \<Rightarrow> 's \<Rightarrow> 's result) \<Rightarrow> 'a list \<Rightarrow> 's \<Rightarrow> 's result" where
  "fold_r f [] s = Ok s"
| "fold_r f (x # xs) s = bind_r (f x s) (fold_r f xs)"

lemma fold_r_append: "fold_r f (xs @ ys) s = bind_r (fold_r f xs s) (fold_r f ys)"
proof (induction xs arbitrary: s)
  case (Cons x xs)
  then show ?case by (cases "f x s") simp_all
qed simp

section \<open>The environment\<close>

record col_env =
  store :: file_store
  row_versions :: "nat \<Rightarrow> row_version"
  txn :: transaction
  page_log :: "(page_key \<times> byte list) list"

definition read_pinned_page :: "page_key \<Rightarrow> col_env \<Rightarrow> byte list" where
  "read_pinned_page key env = load_page (fs_disk (store env)) key"

text \<open>\<open>create_new_version\<close> records the page with the transaction; the frame starts as a copy.\<close>

definition own_page :: "page_key \<Rightarrow> col_env \<Rightarrow> col_env" where
  "own_page key env = env\<lparr>txn := (txn env)\<lparr>modified_pages := modified_pages (txn env) @ [key]\<rparr>\<rparr>"

definition put_page :: "page_key \<Rightarrow> byte list \<Rightarrow> col_env \<Rightarrow> col_env" where
  "put_page key bs env = env\<lparr>store := (store env)\<lparr>fs_disk := write_page key bs (fs_disk (store env))\<rparr>\<rparr>"

definition poke_bytes :: "page_key \<Rightarrow> nat \<Rightarrow> byte list \<Rightarrow> col_env \<Rightarrow> col_env" where
  "poke_bytes key off bs env = put_page key (write_at off bs (read_pinned_page key env)) env"

text \<open>\<open>log_page_update\<close> logs the frame.\<close>

definition log_page :: "page_key \<Rightarrow> col_env \<Rightarrow> col_env" where
  "log_page key env = env\<lparr>page_log := page_log env @ [(key, read_pinned_page key env)]\<rparr>"

definition with_page :: "u64 \<Rightarrow> u64 \<Rightarrow> col_env \<Rightarrow> col_env" where
  "with_page file_id page_idx env = env\<lparr>store := ensure_page file_id page_idx (store env)\<rparr>"

definition record_mod :: "page_row_mod \<Rightarrow> col_env \<Rightarrow> col_env" where
  "record_mod m env = env\<lparr>txn := (txn env)\<lparr>modified_page_rows := modified_page_rows (txn env) @ [m]\<rparr>\<rparr>"

fun show_nat :: "nat \<Rightarrow> string" where
  "show_nat n = (if n < 10 then [char_of (48 + n)] else show_nat (n div 10) @ [char_of (48 + n mod 10)])"

declare show_nat.simps [simp del]

definition conflict_message :: "write_conflict \<Rightarrow> string" where
  "conflict_message c =
     (case c of
        ActiveConflict r t \<Rightarrow>
          ''Write-Write Conflict: Row '' @ show_nat (unat r) @ '' already modified by active tx '' @ show_nat (unat t)
      | CommittedConflict r t \<Rightarrow>
          ''Write-Write Conflict: Row '' @ show_nat (unat r) @ '' modified by committed tx at '' @ show_nat (unat t))"

definition mark_version :: "nat \<Rightarrow> u64 \<Rightarrow> col_env \<Rightarrow> col_env result" where
  "mark_version tab row_id env =
     (case mark_row (row_versions env tab) row_id (tx_id (txn env)) (read_ts (txn env)) of
        Inl c \<Rightarrow> Err (Database (conflict_message c))
      | Inr rv \<Rightarrow> Ok (env\<lparr>row_versions := (row_versions env)(tab := rv)\<rparr>))"

section \<open>Columns\<close>

record col =
  col_name :: string
  data_type :: logical_type
  fh :: u64
  null_fh :: u64
  overflow_fh :: "u64 option"
  col_stats :: column_stats
  version_info :: nat
  dirty :: bool
  atomic_num_values :: u64
  atomic_null_count :: u64
  compressed :: bool
  pending_nulls :: "u64 \<rightharpoonup> (u64 \<times> byte) list"

definition new_col :: "string \<Rightarrow> logical_type \<Rightarrow> u64 \<Rightarrow> u64 \<Rightarrow> u64 option \<Rightarrow> nat \<Rightarrow> col" where
  "new_col nm t nfh f ofh vi =
     \<lparr>col_name = nm, data_type = t, fh = f, null_fh = nfh, overflow_fh = ofh, col_stats = new_column_stats,
      version_info = vi, dirty = False, atomic_num_values = 0, atomic_null_count = 0, compressed = False,
      pending_nulls = Map.empty\<rparr>"

text \<open>\<open>Column::element_size\<close>.\<close>

definition type_size :: "logical_type \<Rightarrow> nat" where
  "type_size t =
     (case t of
        Int64T \<Rightarrow> 8 | Uint64T \<Rightarrow> 8 | NodeT _ \<Rightarrow> 8 | DoubleT \<Rightarrow> 8 | FloatT \<Rightarrow> 8 | TimestampT \<Rightarrow> 8
      | Int32T \<Rightarrow> 4 | DateT \<Rightarrow> 4
      | BoolT \<Rightarrow> 1
      | StringT \<Rightarrow> 64
      | _ \<Rightarrow> 8)"

abbreviation col_size :: "col \<Rightarrow> nat" where
  "col_size c \<equiv> type_size (data_type c)"

record column_layout =
  lay_size :: nat
  lay_vpp :: u64

definition uncompressed_layout :: "nat \<Rightarrow> column_layout" where
  "uncompressed_layout es = \<lparr>lay_size = es, lay_vpp = of_nat (4096 div max es 1)\<rparr>"

definition page_index :: "column_layout \<Rightarrow> u64 \<Rightarrow> u64" where
  "page_index l row_id = row_id div max (lay_vpp l) 1"

definition byte_offset :: "column_layout \<Rightarrow> u64 \<Rightarrow> nat" where
  "byte_offset l row_id = unat (row_id mod max (lay_vpp l) 1) * lay_size l"

definition value_index :: "column_layout \<Rightarrow> u64 \<Rightarrow> nat" where
  "value_index l row_id = unat (row_id mod max (lay_vpp l) 1)"

definition layout :: "col \<Rightarrow> column_layout" where
  "layout c = uncompressed_layout (col_size c)"

definition ensure_writable :: "col \<Rightarrow> unit result" where
  "ensure_writable c =
     (if compressed c
      then Err (Internal (''column '' @ col_name c @ '' is compressed (immutable generation); decompress it before writing''))
      else Ok ())"

section \<open>Overflow pages\<close>

text \<open>One page of the value: \<open>data[start..end]\<close> with \<open>start = page_off * 4096\<close>.\<close>

definition write_overflow_page :: "u64 \<Rightarrow> u64 \<Rightarrow> byte list \<Rightarrow> nat \<Rightarrow> col_env \<Rightarrow> col_env" where
  "write_overflow_page f first_page data page_off env =
     (let key = (f, first_page + of_nat page_off);
          env = own_page key env;
          start = page_off * 4096;
          stop = min (start + 4096) (length data);
          env = (if stop > start then poke_bytes key 0 (slice_at start (stop - start) data) env else env)
      in log_page key env)"

definition overflow_page_count :: "byte list \<Rightarrow> nat" where
  "overflow_page_count data = max ((length data + 4095) div 4096) 1"

definition append_to_overflow :: "col \<Rightarrow> byte list \<Rightarrow> col_env \<Rightarrow> (u64 \<times> u64 \<times> col_env) result" where
  "append_to_overflow c data env =
     (case overflow_fh c of
        None \<Rightarrow> Err (Internal ''No overflow file'')
      | Some f \<Rightarrow>
          (let (first_page, st) = add_new_page f (store env);
               n = overflow_page_count data;
               st = ((\<lambda>st. snd (add_new_page f st)) ^^ (n - 1)) st;
               env = fold (write_overflow_page f first_page data) [0..<n] (env\<lparr>store := st\<rparr>)
           in Ok (first_page, 0, env)))"

text \<open>The read loop: consecutive pages from byte \<open>pos\<close> on, up to the end of the overflow file.\<close>

function read_overflow :: "u64 \<Rightarrow> u64 \<Rightarrow> nat \<Rightarrow> nat \<Rightarrow> col_env \<Rightarrow> byte list" where
  "read_overflow f num_overflow_pages pos remaining env =
     (if remaining = 0 \<or> unat num_overflow_pages \<le> pos div 4096 then []
      else
        (let off = pos mod 4096;
             chunk = min remaining (4096 - off);
             page = read_pinned_page (f, of_nat (pos div 4096)) env;
             avail = min chunk (length page - off);
             out = slice_at off avail page
         in if avail < chunk then out
            else out @ read_overflow f num_overflow_pages (pos + avail) (remaining - avail) env))"
  by pat_completeness auto

termination read_overflow
proof (relation "measure (\<lambda>(f, n, pos, remaining, env). remaining)")
  fix f n :: u64 and pos remaining :: nat and env and off chunk avail :: nat and page out :: "byte list"
  assume a: "\<not> (remaining = 0 \<or> unat n \<le> pos div 4096)" "off = pos mod 4096" "chunk = min remaining (4096 - off)"
    "avail = min chunk (length page - off)" "\<not> avail < chunk"
  have "off < 4096" unfolding a(2) by simp
  then have "0 < chunk" unfolding a(3) using a(1) by simp
  then have "0 < avail" "0 < remaining" using a(1,5) by auto
  then show "((f, n, pos + avail, remaining - avail, env), f, n, pos, remaining, env)
      \<in> measure (\<lambda>(f, n, pos, remaining, env). remaining)" by simp
qed simp

declare read_overflow.simps [simp del]

section \<open>Values in cells\<close>

text \<open>\<open>serialize_value_into\<close>: a value whose kind does not fit the column leaves the buffer as it is.\<close>

definition serialize_value_into :: "col \<Rightarrow> val \<Rightarrow> byte list \<Rightarrow> col_env \<Rightarrow> (byte list \<times> col_env) result" where
  "serialize_value_into c v buf env =
     (let put = (\<lambda>bs. Ok (write_at 0 bs buf, env))
      in case (v, data_type c) of
           (Number n, Int64T) \<Rightarrow> put (le_bytes 8 (f64_to_i64 n))
         | (Node i, Int64T) \<Rightarrow> put (le_bytes 8 i)
         | (Number n, Int32T) \<Rightarrow> put (le_bytes 4 (f64_to_i32 n))
         | (Node i, Int32T) \<Rightarrow> put (le_bytes 4 (ucast i :: u32))
         | (Node i, Uint64T) \<Rightarrow> put (le_bytes 8 i)
         | (Node i, NodeT _) \<Rightarrow> put (le_bytes 8 i)
         | (Number n, Uint64T) \<Rightarrow> put (le_bytes 8 (f64_to_u64 n))
         | (Number n, NodeT _) \<Rightarrow> put (le_bytes 8 (f64_to_u64 n))
         | (Number n, DoubleT) \<Rightarrow> put (le_bytes 8 n)
         | (Number n, FloatT) \<Rightarrow> put (le_bytes 8 n)
         | (Number n, ListT _) \<Rightarrow> put (le_bytes 8 n)
         | (Number n, StructT _) \<Rightarrow> put (le_bytes 8 n)
         | (Node i, DoubleT) \<Rightarrow> put (le_bytes 8 (u64_to_f64 i))
         | (Boolean b, BoolT) \<Rightarrow> put [if b then 1 else 0]
         | (StringV s, StringT) \<Rightarrow>
             if length s < 64 then put (of_nat (length s) # take (min (length s) 63) (as_bytes s))
             else if overflow_fh c \<noteq> None then
               bind_r (append_to_overflow c (as_bytes s) env) (\<lambda>(page_idx, off, env).
                 Ok (write_at 0 ([255] @ le_bytes 8 page_idx @ le_bytes 8 off @ le_bytes 4 (of_nat (length s) :: u32)) buf, env))
             else Err (Internal (''String of length '' @ show_nat (length s)
                    @ '' exceeds inline limit (63 bytes) and no overflow file is configured''))
         | (Date d, DateT) \<Rightarrow> put (le_bytes 4 d)
         | (Timestamp t, TimestampT) \<Rightarrow> put (le_bytes 8 t)
         | _ \<Rightarrow> Ok (buf, env))"

definition parse_value :: "col \<Rightarrow> byte list \<Rightarrow> col_env \<Rightarrow> val" where
  "parse_value c data env =
     (case data_type c of
        Int64T \<Rightarrow> Number (i64_to_f64 (from_le_bytes (take 8 data)))
      | Int32T \<Rightarrow> Number (int_to_f64 (sint (from_le_bytes (take 4 data) :: u32)))
      | Uint64T \<Rightarrow> Node (from_le_bytes (take 8 data))
      | NodeT _ \<Rightarrow> Node (from_le_bytes (take 8 data))
      | DoubleT \<Rightarrow> Number (from_le_bytes (take 8 data))
      | FloatT \<Rightarrow> Number (from_le_bytes (take 8 data))
      | BoolT \<Rightarrow> Boolean (data ! 0 \<noteq> 0)
      | StringT \<Rightarrow>
          if data ! 0 = 255 then
            (case overflow_fh c of
               None \<Rightarrow> StringV []
             | Some f \<Rightarrow>
                 (let page_idx = from_le_bytes (slice_at 1 8 data) :: u64;
                      off = from_le_bytes (slice_at 9 8 data) :: u64;
                      len = unat (from_le_bytes (slice_at 17 4 data) :: u32)
                  in StringV (string_from (read_overflow f (file_pages (store env) f)
                       (unat page_idx * 4096 + unat off) len env))))
          else StringV (string_from (slice_at 1 (min (unat (data ! 0)) 63) data))
      | DateT \<Rightarrow> Date (from_le_bytes (take 4 data))
      | TimestampT \<Rightarrow> Timestamp (from_le_bytes (take 8 data))
      | ListT _ \<Rightarrow> Number (from_le_bytes (take 8 data))
      | StructT _ \<Rightarrow> Number (from_le_bytes (take 8 data))
      | _ \<Rightarrow> NullV)"

end
