(* ===== verification/Bit_Packer.thy ===== *)
theory Bit_Packer
  imports Lightning_Prelude
begin

text \<open>
  The bit packer of \<open>storage/compression/bitpacking.rs\<close>. A value is written either through one aligned
  64-bit word or, when it straddles a word or the word is cut off by the end of the buffer, byte by byte.
  Both paths are related to one view of the buffer as a sequence of bits, \<open>bit_at\<close>. Widths and offsets
  are natural numbers; the widths the callers pass are below 256.
\<close>

unbundle bit_operations_syntax

section \<open>Operations\<close>

text \<open>The byte loop of \<open>write_bits\<close>; \<open>bw\<close> is \<open>bits_written\<close>.\<close>

function write_bytes :: "u64 \<Rightarrow> nat \<Rightarrow> nat \<Rightarrow> nat \<Rightarrow> byte list \<Rightarrow> byte list" where
  "write_bytes v w bit_offset bw data =
     (if bw < w then
        (let byte_idx = (bit_offset + bw) div 8
         in if byte_idx \<ge> length data then data
            else
              (let bit_in_byte = (bit_offset + bw) mod 8;
                   n = min (w - bw) (8 - bit_in_byte);
                   msk = ucast ((push_bit n 1 :: u32) - 1) :: byte;
                   bits = ucast (drop_bit bw v AND ucast msk) :: byte;
                   shifted_mask = push_bit bit_in_byte msk
               in write_bytes v w bit_offset (bw + n)
                    (data[byte_idx := (data ! byte_idx AND NOT shifted_mask) OR push_bit bit_in_byte bits])))
      else data)"
  by pat_completeness auto

termination write_bytes
  by (relation "measure (\<lambda>(v, w, bit_offset, bw, data). w - bw)") (auto simp: min_def)

declare write_bytes.simps [simp del]

definition write_bits :: "u64 \<Rightarrow> nat \<Rightarrow> nat \<Rightarrow> byte list \<Rightarrow> byte list" where
  "write_bits v w bit_offset data =
     (if w = 0 \<or> w \<ge> 64 \<or> data = [] then data
      else
        (let word_idx = bit_offset div 64;
             bit_in_word = bit_offset mod 64
         in if bit_in_word + w \<le> 64 \<and> word_idx * 8 + 8 \<le> length data
            then
              (let word = from_le_bytes (slice_at (word_idx * 8) 8 data) :: u64;
                   msk = push_bit bit_in_word (push_bit w 1 - 1);
                   word = (word AND NOT msk) OR (push_bit bit_in_word v AND msk)
               in write_at (word_idx * 8) (le_bytes 8 word) data)
            else write_bytes v w bit_offset 0 data))"

function read_bytes :: "nat \<Rightarrow> nat \<Rightarrow> byte list \<Rightarrow> nat \<Rightarrow> u64 \<Rightarrow> u64" where
  "read_bytes w bit_offset data br v =
     (if br < w then
        (let byte_idx = (bit_offset + br) div 8
         in if byte_idx \<ge> length data then v
            else
              (let bit_in_byte = (bit_offset + br) mod 8;
                   n = min (w - br) (8 - bit_in_byte);
                   msk = ucast ((push_bit n 1 :: u32) - 1) :: byte;
                   bits = drop_bit bit_in_byte (data ! byte_idx) AND msk
               in read_bytes w bit_offset data (br + n) (v OR push_bit br (ucast bits))))
      else v)"
  by pat_completeness auto

termination read_bytes
  by (relation "measure (\<lambda>(w, bit_offset, data, br, v). w - br)") (auto simp: min_def)

declare read_bytes.simps [simp del]

definition read_bits :: "nat \<Rightarrow> nat \<Rightarrow> byte list \<Rightarrow> u64" where
  "read_bits w bit_offset data =
     (if w = 0 \<or> w \<ge> 64 \<or> data = [] then 0
      else
        (let word_idx = bit_offset div 64;
             bit_in_word = bit_offset mod 64
         in if bit_in_word + w \<le> 64 \<and> word_idx * 8 + 8 \<le> length data
            then drop_bit bit_in_word (from_le_bytes (slice_at (word_idx * 8) 8 data)) AND (push_bit w 1 - 1)
            else read_bytes w bit_offset data 0 0))"

text \<open>The loops of \<open>pack_32\<close>: raw words for width 64, packed values otherwise.\<close>

fun pack_raw :: "u64 list \<Rightarrow> nat \<Rightarrow> byte list \<Rightarrow> byte list" where
  "pack_raw [] i out = out"
| "pack_raw (v # vs) i out =
     pack_raw vs (i + 1) (if i * 8 + 8 \<le> length out then write_at (i * 8) (le_bytes 8 v) out else out)"

fun pack_bits :: "u64 list \<Rightarrow> nat \<Rightarrow> nat \<Rightarrow> byte list \<Rightarrow> byte list" where
  "pack_bits [] w bit_offset out = out"
| "pack_bits (v # vs) w bit_offset out = pack_bits vs w (bit_offset + w) (write_bits v w bit_offset out)"

definition pack_32 :: "u64 list \<Rightarrow> nat \<Rightarrow> byte list \<Rightarrow> byte list" where
  "pack_32 vs w out =
     (if w = 0 then out else if w = 64 then pack_raw vs 0 out else pack_bits vs w 0 out)"

definition unpack_32 :: "byte list \<Rightarrow> nat \<Rightarrow> u64 list \<Rightarrow> u64 list" where
  "unpack_32 data w out =
     (if w = 0 then out
      else if w = 64 then
        map (\<lambda>(i, v). if i * 8 + 8 \<le> length data then from_le_bytes (slice_at (i * 8) 8 data) else v)
          (zip [0..<length out] out)
      else map (\<lambda>i. read_bits w (i * w) data) [0..<length out])"

section \<open>The buffer as a sequence of bits\<close>

definition bit_at :: "byte list \<Rightarrow> nat \<Rightarrow> bool" where
  "bit_at data k = bit (data ! (k div 8)) (k mod 8)"

lemma bit_low_mask: "bit ((push_bit w 1 :: u64) - 1) i \<longleftrightarrow> i < w \<and> i < 64"
  using bit_mask_iff [where 'a = u64, of w i]
  by (auto simp: mask_eq_exp_minus_1 push_bit_of_1 possible_bit_def)

lemma bit_byte_mask: "bit (ucast ((push_bit n 1 :: u32) - 1) :: byte) i \<longleftrightarrow> i < n \<and> i < 8"
proof -
  have "bit ((push_bit n 1 :: u32) - 1) i \<longleftrightarrow> i < n \<and> i < 32"
    using bit_mask_iff [where 'a = u32, of n i]
    by (auto simp: mask_eq_exp_minus_1 push_bit_of_1 possible_bit_def)
  then show ?thesis by (auto simp: bit_simps)
qed

lemma bit_at_list_update:
  "j < length data \<Longrightarrow>
   bit_at (data[j := b]) k = (if k div 8 = j then bit b (k mod 8) else bit_at data k)"
  by (simp add: bit_at_def nth_list_update)

lemma byte_split: "x < 8 \<Longrightarrow> m = 8 * q + x \<Longrightarrow> m div 8 = q \<and> m mod 8 = (x :: nat)"
  by simp

lemma byte_range:
  assumes "(n :: nat) \<le> 8 - p mod 8"
  shows "k div 8 = p div 8 \<and> p mod 8 \<le> k mod 8 \<and> k mod 8 < p mod 8 + n \<longleftrightarrow> p \<le> k \<and> k < p + n"
proof -
  define q b q' j where "q = p div 8" "b = p mod 8" "q' = k div 8" "j = k mod 8"
  then have "p = 8 * q + b" "k = 8 * q' + j" "b < 8" "j < 8" "n \<le> 8 - b" using assms by simp_all
  then have "q' = q \<and> b \<le> j \<and> j < b + n \<longleftrightarrow> p \<le> k \<and> k < p + n" by (cases "q' = q") auto
  then show ?thesis by (simp add: \<open>q = p div 8\<close> \<open>b = p mod 8\<close> \<open>q' = k div 8\<close> \<open>j = k mod 8\<close>)
qed

text \<open>One byte of the write loop.\<close>

lemma bit_merged_byte:
  assumes "n \<le> 8 - ib" "j < 8" and m: "\<And>i. bit (msk :: byte) i \<longleftrightarrow> i < n \<and> i < 8"
  shows "bit ((b AND NOT (push_bit ib msk)) OR push_bit ib (ucast (drop_bit bw v AND ucast msk) :: byte)) j
         = (if ib \<le> j \<and> j < ib + n then bit (v :: u64) (bw + (j - ib)) else bit (b :: byte) j)"
  using assms(1,2) by (auto simp: bit_simps m)

lemma write_bytes_step:
  assumes "bw < w" "(off + bw) div 8 < length data"
  defines "n \<equiv> min (w - bw) (8 - (off + bw) mod 8)"
  shows "\<exists>b. write_bytes v w off bw data = write_bytes v w off (bw + n) (data[(off + bw) div 8 := b])
    \<and> (\<forall>k. bit_at (data[(off + bw) div 8 := b]) k =
         (if off + bw \<le> k \<and> k < off + bw + n then bit v (k - off) else bit_at data k))"
proof -
  let ?q = "(off + bw) div 8" and ?ib = "(off + bw) mod 8"
  define msk where "msk = (ucast ((push_bit n 1 :: u32) - 1) :: byte)"
  define b where "b = (data ! ?q AND NOT (push_bit ?ib msk)) OR push_bit ?ib (ucast (drop_bit bw v AND ucast msk) :: byte)"
  have n: "n \<le> 8 - ?ib" by (simp add: n_def)
  have "write_bytes v w off bw data = write_bytes v w off (bw + n) (data[?q := b])"
    using assms(1,2) by (subst write_bytes.simps) (simp add: Let_def b_def msk_def n_def)
  moreover have "bit_at (data[?q := b]) k =
      (if off + bw \<le> k \<and> k < off + bw + n then bit v (k - off) else bit_at data k)" for k
  proof -
    have b: "bit b (k mod 8) = (if ?ib \<le> k mod 8 \<and> k mod 8 < ?ib + n
        then bit v (bw + (k mod 8 - ?ib)) else bit (data ! ?q) (k mod 8))"
      unfolding b_def by (rule bit_merged_byte [OF n _ bit_byte_mask [of n, folded msk_def]]) simp
    have range: "k div 8 = ?q \<and> ?ib \<le> k mod 8 \<and> k mod 8 < ?ib + n \<longleftrightarrow> off + bw \<le> k \<and> k < off + bw + n"
      by (rule byte_range [OF n])
    show ?thesis
    proof (cases "k div 8 = ?q")
      case True
      have "8 * ?q + ?ib = off + bw" "8 * (k div 8) + k mod 8 = k" by (rule mult_div_mod_eq)+
      then have ix: "?ib \<le> k mod 8 \<Longrightarrow> bw + (k mod 8 - ?ib) = k - off" using True by linarith
      show ?thesis
      proof (cases "off + bw \<le> k \<and> k < off + bw + n")
        case in_range: True
        then have "?ib \<le> k mod 8 \<and> k mod 8 < ?ib + n" using range by blast
        then have "bit b (k mod 8) = bit v (k - off)" using b ix by presburger
        then show ?thesis using True in_range assms(2) by (simp add: bit_at_list_update)
      next
        case out_of_range: False
        then have "bit b (k mod 8) = bit (data ! ?q) (k mod 8)" using b range True by auto
        then have "bit_at (data[?q := b]) k = bit_at data k"
          using True assms(2) by (simp add: bit_at_list_update bit_at_def)
        then show ?thesis using out_of_range by presburger
      qed
    next
      case False
      then show ?thesis using range assms(2) by (auto simp: bit_at_list_update)
    qed
  qed
  ultimately show ?thesis by blast
qed

lemma write_bytes_bits:
  "off + w \<le> 8 * length data \<Longrightarrow> bw \<le> w \<Longrightarrow>
   length (write_bytes v w off bw data) = length data
   \<and> (\<forall>k. bit_at (write_bytes v w off bw data) k =
        (if off + bw \<le> k \<and> k < off + w then bit v (k - off) else bit_at data k))"
proof (induction "w - bw" arbitrary: bw data rule: less_induct)
  case less
  show ?case
  proof (cases "bw < w")
    case False
    then show ?thesis using less.prems by (subst (1 2) write_bytes.simps) auto
  next
    case True
    define n where "n = min (w - bw) (8 - (off + bw) mod 8)"
    have q: "(off + bw) div 8 < length data" using less.prems True by (simp add: div_less_iff_less_mult)
    obtain b where b: "write_bytes v w off bw data = write_bytes v w off (bw + n) (data[(off + bw) div 8 := b])"
      "\<And>k. bit_at (data[(off + bw) div 8 := b]) k =
         (if off + bw \<le> k \<and> k < off + bw + n then bit v (k - off) else bit_at data k)"
      using write_bytes_step [OF True q, of v] unfolding n_def by blast
    have "0 < n" "bw + n \<le> w" using True by (auto simp: n_def)
    moreover from this have "w - (bw + n) < w - bw" using True by simp
    ultimately show ?thesis
      using less.hyps [of "bw + n" "data[(off + bw) div 8 := b]"] less.prems unfolding b by auto
  qed
qed

text \<open>The word path has the same effect.\<close>

lemma word_bit_split: "(q * 64 + i) div 8 = q * 8 + i div 8" "(q * 64 + i) mod 8 = i mod (8 :: nat)"
proof -
  have "8 * (q * 8 + d) + m = q * 64 + (8 * d + m)" for d m by simp
  then have "q * 64 + i = 8 * (q * 8 + i div 8) + i mod 8" by simp
  from byte_split [OF _ this] show "(q * 64 + i) div 8 = q * 8 + i div 8" "(q * 64 + i) mod 8 = i mod 8"
    by simp_all
qed

lemma nth_write_at_other:
  "off + length ys \<le> length xs \<Longrightarrow> \<not> (off \<le> i \<and> i < off + length ys) \<Longrightarrow> write_at off ys xs ! i = xs ! i"
  by (auto simp: write_at_def nth_append)

lemma bit_at_le_word:
  assumes "q * 8 + 8 \<le> length data" "i < 64"
  shows "bit (from_le_bytes (slice_at (q * 8) 8 data) :: u64) i = bit_at data (q * 64 + i)"
proof -
  have "i div 8 < 8" using assms(2) by simp
  then show ?thesis
    using assms by (simp add: bit_from_le_bytes bit_at_def nth_slice_at word_bit_split)
qed

lemma bit_at_write_word:
  assumes "q * 8 + 8 \<le> length data"
  shows "bit_at (write_at (q * 8) (le_bytes 8 (word :: u64)) data) k =
    (if q * 64 \<le> k \<and> k < q * 64 + 64 then bit word (k - q * 64) else bit_at data k)"
proof (cases "q * 64 \<le> k \<and> k < q * 64 + 64")
  case True
  define i where "i = k - q * 64"
  then have k: "k = q * 64 + i" "i < 64" using True by auto
  have "i div 8 < 8" using k(2) by simp
  then show ?thesis using assms k by (simp add: bit_at_def nth_write_at bit_le_bytes word_bit_split)
next
  case False
  then have "\<not> (q * 8 \<le> k div 8 \<and> k div 8 < q * 8 + 8)" by auto
  then show ?thesis using assms False by (auto simp: bit_at_def nth_write_at_other)
qed

lemma write_bits_bits:
  assumes "off + w \<le> 8 * length data" "0 < w" "w < 64"
  shows "length (write_bits v w off data) = length data"
    and "bit_at (write_bits v w off data) k =
           (if off \<le> k \<and> k < off + w then bit v (k - off) else bit_at data k)"
proof -
  let ?q = "off div 64" and ?ib = "off mod 64"
  have ne: "data \<noteq> []" using assms by auto
  have off: "off = ?q * 64 + ?ib" by simp
  consider (word) "?ib + w \<le> 64" "?q * 8 + 8 \<le> length data"
    | (bytes) "\<not> (?ib + w \<le> 64 \<and> ?q * 8 + 8 \<le> length data)" by blast
  then have "length (write_bits v w off data) = length data \<and> bit_at (write_bits v w off data) k =
           (if off \<le> k \<and> k < off + w then bit v (k - off) else bit_at data k)"
  proof cases
    case word
    let ?w0 = "from_le_bytes (slice_at (?q * 8) 8 data) :: u64"
    let ?m = "push_bit ?ib (push_bit w 1 - 1) :: u64"
    define wd where "wd = (?w0 AND NOT ?m) OR (push_bit ?ib v AND ?m)"
    have eq: "write_bits v w off data = write_at (?q * 8) (le_bytes 8 wd) data"
      using assms(2,3) ne word by (auto simp: write_bits_def wd_def Let_def simp del: push_bit_of_1)
    have m: "bit ?m i \<longleftrightarrow> ?ib \<le> i \<and> i < ?ib + w" if "i < 64" for i
      using that word(1) by (auto simp: bit_push_bit_iff bit_low_mask simp del: push_bit_of_1)
    have "bit wd i = (if ?ib \<le> i \<and> i < ?ib + w then bit v (i - ?ib) else bit_at data (?q * 64 + i))"
      if "i < 64" for i
      using that m [OF that] bit_at_le_word [OF word(2) that]
      by (auto simp: wd_def bit_or_iff bit_and_iff bit_not_iff bit_push_bit_iff simp del: push_bit_of_1)
    note wd = this
    have "bit_at (write_at (?q * 8) (le_bytes 8 wd) data) k =
        (if off \<le> k \<and> k < off + w then bit v (k - off) else bit_at data k)"
    proof (cases "?q * 64 \<le> k \<and> k < ?q * 64 + 64")
      case True
      define i where "i = k - ?q * 64"
      then have k: "k = ?q * 64 + i" "i < 64" using True by auto
      then have "k - off = i - ?ib" "off \<le> k \<longleftrightarrow> ?ib \<le> i" "k < off + w \<longleftrightarrow> i < ?ib + w" using off by linarith+
      then show ?thesis using True wd [OF k(2)] word(2) unfolding bit_at_write_word [OF word(2)] i_def [symmetric]
        by (simp add: k(1) [symmetric])
    next
      case False
      then have "\<not> (off \<le> k \<and> k < off + w)" using off word(1) by linarith
      with False show ?thesis unfolding bit_at_write_word [OF word(2)] by auto
    qed
    then show ?thesis using word(2) unfolding eq by simp
  next
    case bytes
    then have "write_bits v w off data = write_bytes v w off 0 data"
      using assms(2,3) ne by (auto simp: write_bits_def Let_def simp del: push_bit_of_1)
    then show ?thesis using write_bytes_bits [OF assms(1), of 0 v] by simp
  qed
  then show "length (write_bits v w off data) = length data"
    "bit_at (write_bits v w off data) k = (if off \<le> k \<and> k < off + w then bit v (k - off) else bit_at data k)"
    by blast+
qed

text \<open>Reading is the inverse view.\<close>

lemma bit_read_bytes:
  "off + w \<le> 8 * length data \<Longrightarrow> w \<le> 64 \<Longrightarrow> br \<le> w \<Longrightarrow>
   bit (read_bytes w off data br v) i \<longleftrightarrow> (br \<le> i \<and> i < w \<and> bit_at data (off + i)) \<or> bit v i"
proof (induction "w - br" arbitrary: br v rule: less_induct)
  case less
  show ?case
  proof (cases "br < w")
    case False
    then show ?thesis using less.prems by (subst read_bytes.simps) auto
  next
    case True
    define q ib where "q = (off + br) div 8" "ib = (off + br) mod 8"
    note q_def = \<open>q = (off + br) div 8\<close> and ib_def = \<open>ib = (off + br) mod 8\<close>
    define n where "n = min (w - br) (8 - ib)"
    define msk where "msk = (ucast ((push_bit n 1 :: u32) - 1) :: byte)"
    define v' where "v' = v OR push_bit br (ucast (drop_bit ib (data ! q) AND msk))"
    have q: "q < length data" using less.prems True by (simp add: q_def div_less_iff_less_mult)
    have qib: "8 * q + ib = off + br" unfolding q_def ib_def by (rule mult_div_mod_eq)
    have step: "read_bytes w off data br v = read_bytes w off data (br + n) v'"
      using True q by (subst read_bytes.simps) (simp add: Let_def v'_def msk_def n_def q_def ib_def)
    have "ib < 8" by (simp add: ib_def)
    then have n: "0 < n" "br + n \<le> w" "n \<le> 8 - ib" "n \<le> 8" using True by (auto simp: n_def)
    have at: "bit_at data (off + i) \<longleftrightarrow> bit (data ! q) (ib + (i - br))" if "br \<le> i" "i < br + n"
    proof -
      have "off + i = 8 * q + (ib + (i - br))" "ib + (i - br) < 8" using qib that n(3) by linarith+
      from byte_split [OF this(2,1)] show ?thesis by (simp add: bit_at_def)
    qed
    have m: "bit msk j \<longleftrightarrow> j < n \<and> j < 8" for j unfolding msk_def by (rule bit_byte_mask)
    have "bit v' i \<longleftrightarrow> (br \<le> i \<and> i < 64 \<and> i - br < n \<and> bit (data ! q) (ib + (i - br))) \<or> bit v i"
      using n(4) by (auto simp: v'_def bit_or_iff bit_push_bit_iff bit_ucast_iff bit_and_iff bit_drop_bit_eq m
          dest: bit_imp_le_length)
    also have "\<dots> \<longleftrightarrow> (br \<le> i \<and> i < br + n \<and> bit_at data (off + i)) \<or> bit v i"
      using at n(2) less.prems(2) by (cases "br \<le> i \<and> i < br + n") auto
    finally have v': "bit v' i \<longleftrightarrow> (br \<le> i \<and> i < br + n \<and> bit_at data (off + i)) \<or> bit v i" .
    have "w - (br + n) < w - br" using n by simp
    from less.hyps [OF this less.prems(1,2) n(2), of v'] show ?thesis
      unfolding step v' using n(2) by auto
  qed
qed

lemma bit_read_bits:
  assumes "off + w \<le> 8 * length data" "0 < w" "w < 64"
  shows "bit (read_bits w off data) i \<longleftrightarrow> i < w \<and> bit_at data (off + i)"
proof -
  let ?q = "off div 64" and ?ib = "off mod 64"
  have ne: "data \<noteq> []" using assms by auto
  show ?thesis
  proof (cases "?ib + w \<le> 64 \<and> ?q * 8 + 8 \<le> length data")
    case True
    then have "read_bits w off data =
        drop_bit ?ib (from_le_bytes (slice_at (?q * 8) 8 data)) AND (push_bit w 1 - 1)"
      using assms(2,3) ne by (auto simp: read_bits_def Let_def simp del: push_bit_of_1)
    moreover have "off + i = ?q * 64 + (?ib + i)" by simp
    ultimately show ?thesis
      using True assms(3) bit_at_le_word [of ?q data "?ib + i"]
      by (auto simp: bit_and_iff bit_drop_bit_eq bit_low_mask simp del: push_bit_of_1)
  next
    case False
    then have "read_bits w off data = read_bytes w off data 0 0"
      using assms(2,3) ne by (auto simp: read_bits_def Let_def simp del: push_bit_of_1)
    then show ?thesis using bit_read_bytes [OF assms(1), of 0 0 i] assms(3) by simp
  qed
qed

section \<open>Packing and unpacking\<close>

text \<open>A buffer holds \<open>vs\<close> when its bits from the start are those of the values, \<open>w\<close> per value.\<close>

definition holds_values :: "byte list \<Rightarrow> nat \<Rightarrow> u64 list \<Rightarrow> bool" where
  "holds_values data w vs \<longleftrightarrow> length vs * w \<le> 8 * length data
     \<and> (\<forall>i < length vs. \<forall>j < w. bit_at data (i * w + j) = bit (vs ! i) j)"

lemma slot_bound: "i < n \<Longrightarrow> i * w + w \<le> n * (w :: nat)"
  using mult_le_mono1 [of "Suc i" n w] by simp

lemma length_pack_bits:
  "0 < w \<Longrightarrow> w < 64 \<Longrightarrow> off + length vs * w \<le> 8 * length out \<Longrightarrow>
   length (pack_bits vs w off out) = length out"
  by (induction vs arbitrary: off out) (simp_all add: write_bits_bits(1) algebra_simps)

lemma pack_bits_before:
  "0 < w \<Longrightarrow> w < 64 \<Longrightarrow> off + length vs * w \<le> 8 * length out \<Longrightarrow> k < off \<Longrightarrow>
   bit_at (pack_bits vs w off out) k = bit_at out k"
proof (induction vs arbitrary: off out)
  case Nil
  then show ?case by simp
next
  case (Cons v vs)
  have "off + w \<le> 8 * length out" using Cons.prems by simp
  note wb = write_bits_bits [OF this Cons.prems(1,2)]
  show ?case using Cons.IH [of "off + w" "write_bits v w off out"] Cons.prems wb by (simp add: algebra_simps)
qed

lemma pack_bits_slot:
  "0 < w \<Longrightarrow> w < 64 \<Longrightarrow> off + length vs * w \<le> 8 * length out \<Longrightarrow> i < length vs \<Longrightarrow> j < w \<Longrightarrow>
   bit_at (pack_bits vs w off out) (off + i * w + j) = bit (vs ! i) j"
proof (induction vs arbitrary: off out i)
  case Nil
  then show ?case by simp
next
  case (Cons v vs)
  have "off + w \<le> 8 * length out" using Cons.prems by simp
  note wb = write_bits_bits [OF this Cons.prems(1,2), of v]
  have fits: "off + w + length vs * w \<le> 8 * length (write_bits v w off out)"
    using Cons.prems wb(1) by (simp add: algebra_simps)
  show ?case
  proof (cases i)
    case 0
    then show ?thesis
      using pack_bits_before [OF Cons.prems(1,2) fits, of "off + j"] Cons.prems wb(2) by simp
  next
    case (Suc i')
    then show ?thesis
      using Cons.IH [OF Cons.prems(1,2) fits, of i'] Cons.prems by (simp add: algebra_simps)
  qed
qed

lemma length_pack_raw [simp]: "length (pack_raw vs i out) = length out"
  by (induction vs i out rule: pack_raw.induct) auto

lemma pack_raw_before:
  "k < i * 64 \<Longrightarrow> bit_at (pack_raw vs i out) k = bit_at out k"
  by (induction vs i out rule: pack_raw.induct) (auto simp: bit_at_write_word)

lemma pack_raw_slot:
  "(i0 + length vs) * 8 \<le> length out \<Longrightarrow> i < length vs \<Longrightarrow> j < 64 \<Longrightarrow>
   bit_at (pack_raw vs i0 out) ((i0 + i) * 64 + j) = bit (vs ! i) j"
proof (induction vs arbitrary: i0 out i)
  case Nil
  then show ?case by simp
next
  case (Cons v vs)
  let ?out = "write_at (i0 * 8) (le_bytes 8 v) out"
  have room: "i0 * 8 + 8 \<le> length out" using Cons.prems by simp
  then have eq: "pack_raw (v # vs) i0 out = pack_raw vs (i0 + 1) ?out" by simp
  show ?case
  proof (cases i)
    case 0
    then show ?thesis
      using pack_raw_before [of "i0 * 64 + j" "i0 + 1" vs ?out] Cons.prems(3) room
      unfolding eq by (simp add: bit_at_write_word)
  next
    case (Suc i')
    have "(i0 + 1 + length vs) * 8 \<le> length ?out" using Cons.prems room by simp
    from Cons.IH [OF this, of i'] show ?thesis using Cons.prems Suc unfolding eq by simp
  qed
qed

lemma length_pack_32 [simp]:
  "w \<le> 64 \<Longrightarrow> length vs * w \<le> 8 * length out \<Longrightarrow> length (pack_32 vs w out) = length out"
  by (auto simp: pack_32_def length_pack_bits)

lemma pack_32_holds:
  assumes "w \<le> 64" "length vs * w \<le> 8 * length out"
  shows "holds_values (pack_32 vs w out) w vs"
proof (cases "w = 0 \<or> w = 64")
  case True
  have "length vs * 8 \<le> length out" if "w = 64" using assms(2) that by simp
  then show ?thesis
    using True assms pack_raw_slot [of 0 vs out] by (auto simp: holds_values_def pack_32_def)
next
  case False
  then show ?thesis
    using assms pack_bits_slot [of w 0 vs out] length_pack_bits [of w 0 vs out]
    by (auto simp: holds_values_def pack_32_def)
qed

lemma holds_values_cong:
  assumes "holds_values data w vs" "take n data' = take n data" "length vs * w \<le> 8 * n" "n \<le> length data'"
  shows "holds_values data' w vs"
proof -
  have "bit_at data' (i * w + j) = bit_at data (i * w + j)" if "i < length vs" "j < w" for i j
  proof -
    have "i * w + j < 8 * n" using slot_bound [OF that(1), of w] that(2) assms(3) by linarith
    then have "(i * w + j) div 8 < n" by (simp add: div_less_iff_less_mult)
    then show ?thesis using assms(2) unfolding bit_at_def by (metis nth_take)
  qed
  then show ?thesis using assms(1,3,4) by (simp add: holds_values_def)
qed

lemma unpack_32_holds:
  assumes "holds_values data w vs" "0 < w" "w \<le> 64" "length out = length vs"
  shows "unpack_32 data w out = map (take_bit w) vs"
proof (rule nth_equalityI)
  show "length (unpack_32 data w out) = length (map (take_bit w) vs)"
    using assms(2,4) by (simp add: unpack_32_def)
  fix i assume "i < length (unpack_32 data w out)"
  then have i: "i < length vs" using assms(2,4) by (simp add: unpack_32_def split: if_splits)
  have room: "i * w + w \<le> 8 * length data"
    using slot_bound [OF i, of w] assms(1) by (simp add: holds_values_def)
  have slot: "bit_at data (i * w + j) = bit (vs ! i) j" if "j < w" for j
    using assms(1) i that by (simp add: holds_values_def)
  show "unpack_32 data w out ! i = map (take_bit w) vs ! i"
  proof (cases "w = 64")
    case True
    then have "unpack_32 data w out ! i = from_le_bytes (slice_at (i * 8) 8 data)"
      using i assms(4) room by (simp add: unpack_32_def)
    also have "\<dots> = vs ! i"
      by (rule bit_word_eqI) (use slot room True in \<open>simp add: bit_at_le_word\<close>)
    finally show ?thesis using i True take_bit_length_eq [of "vs ! i"] by simp
  next
    case False
    then have "unpack_32 data w out ! i = read_bits w (i * w) data"
      using i assms by (simp add: unpack_32_def)
    also have "\<dots> = take_bit w (vs ! i)"
      by (rule bit_word_eqI) (use False assms(2,3) room slot in \<open>auto simp: bit_read_bits bit_take_bit_iff\<close>)
    finally show ?thesis using i by simp
  qed
qed

text \<open>
  C11 [pack_unpack_32]. Whatever mix of word and byte accesses the buffer length causes, unpacking what
  \<open>pack_32\<close> wrote gives back every value truncated to the bit width, for every width from 1 to 64 and
  every buffer large enough; the read may use any buffer that starts with the packed bytes.
\<close>

theorem pack_unpack_32:
  assumes "0 < w" "w \<le> 64" "length vs * w \<le> 8 * n" "n \<le> length out" "n \<le> length data"
    and "take n data = take n (pack_32 vs w out)" "length zs = length vs"
  shows "unpack_32 data w zs = map (take_bit w) vs"
proof -
  have "length vs * w \<le> 8 * length out" using assms(3,4) by simp
  from holds_values_cong [OF pack_32_holds [OF assms(2) this] assms(6,3,5)]
  show ?thesis using unpack_32_holds assms by blast
qed

theorem pack_unpack_32_witness:
  "unpack_32 (pack_32 [5, 1, 7, 300] 9 (replicate 5 0xff)) 9 [0, 0, 0, 0] = [5, 1, 7, 300]"
  using pack_unpack_32 [of 9 "[5, 1, 7, 300]" 5 "replicate 5 0xff" "pack_32 [5, 1, 7, 300] 9 (replicate 5 0xff)" "[0, 0, 0, 0]"]
  by simp

end
