(* ===== verification/Codecs.thy ===== *)
theory Codecs
  imports Codec_Interface Bit_Packer
begin

text \<open>
  The block codecs of \<open>storage/compression\<close>: no compression, constant, plain bit packing and frame of
  reference (run length and dictionary have theories of their own). Each is a pair of functions over byte buffers with the errors and index panics of
  the source, and each is shown to meet the contract \<open>block_codec\<close> under the condition on values and
  metadata it needs. ALP, which rescales floating point numbers, is not modelled.
\<close>

section \<open>Shared loops\<close>

text \<open>
  The output loop of the decoders: value \<open>i\<close> goes to slot \<open>doff + i\<close>; computing it may fail, and so may the
  write, with an error or an index panic.
\<close>

fun emit :: "nat \<Rightarrow> (nat \<Rightarrow> byte list result) \<Rightarrow> lightning_error \<Rightarrow> nat \<Rightarrow> nat list \<Rightarrow> byte list \<Rightarrow> byte list result" where
  "emit es f too_short doff [] dst = Ok dst"
| "emit es f too_short doff (i # is) dst =
     (case f i of
        Err e \<Rightarrow> Err e
      | Ok bs \<Rightarrow>
          if (doff + i) * es + es \<le> length dst
          then emit es f too_short doff is (write_at ((doff + i) * es) bs dst)
          else Err too_short)"

abbreviation value_at :: "byte list \<Rightarrow> nat \<Rightarrow> u64" where
  "value_at src i \<equiv> from_le_bytes (slice_at (i * 8) 8 src)"

lemma emit_upto:
  assumes "\<And>i. k \<le> i \<Longrightarrow> i < n \<Longrightarrow> f i = Ok (g i)" "\<And>i. i < n \<Longrightarrow> length (g i) = es"
    and "(doff + n) * es \<le> length dst" "k \<le> n"
  shows "emit es f err doff [k..<n] dst = Ok (write_at ((doff + k) * es) (concat (map g [k..<n])) dst)"
  using assms(1,3,4)
proof (induction "n - k" arbitrary: k dst)
  case 0
  then show ?case by simp
next
  case (Suc d)
  then have k: "k < n" and eq: "[k..<n] = k # [Suc k..<n]" by (auto simp: upt_rec)
  have "(doff + k) * es + es \<le> (doff + n) * es"
    using k mult_le_mono1 [of "doff + k + 1" "doff + n" es] by simp
  then have room: "(doff + k) * es + es \<le> length dst" using Suc.prems by simp
  have gl: "length (concat (map g [Suc k..<n])) = (n - Suc k) * es"
    using length_concat_const [of "map g [Suc k..<n]" es] assms(2) by simp
  have fit: "(doff + k) * es + es + (n - Suc k) * es \<le> length dst"
  proof -
    have "(doff + k) * es + es + (n - Suc k) * es = (doff + k + 1 + (n - Suc k)) * es" by (simp add: algebra_simps)
    also have "doff + k + 1 + (n - Suc k) = doff + n" using k by simp
    finally show ?thesis using Suc.prems by simp
  qed
  have "emit es f err doff [k..<n] dst = emit es f err doff [Suc k..<n] (write_at ((doff + k) * es) (g k) dst)"
    unfolding eq using Suc.prems(1) [of k] k room by simp
  also have "\<dots> = Ok (write_at ((doff + Suc k) * es) (concat (map g [Suc k..<n])) (write_at ((doff + k) * es) (g k) dst))"
    using Suc.hyps(2) Suc.prems k room assms(2) by (intro Suc.hyps(1)) auto
  also have "write_at ((doff + Suc k) * es) (concat (map g [Suc k..<n])) (write_at ((doff + k) * es) (g k) dst)
      = write_at ((doff + k) * es) (g k @ concat (map g [Suc k..<n])) dst"
    using write_at_append [of "(doff + k) * es" "g k" "concat (map g [Suc k..<n])" dst] fit gl assms(2) [OF k]
    by (simp add: algebra_simps)
  finally show ?case by (simp add: eq)
qed

lemma concat_slices:
  "(off + n) * es \<le> length xs \<Longrightarrow>
   concat (map (\<lambda>i. slice_at ((off + i) * es) es xs) [0..<n]) = slice_at (off * es) (n * es) xs"
proof (induction n)
  case 0
  then show ?case by simp
next
  case (Suc n)
  then have "slice_at (off * es) (n * es) xs @ slice_at (off * es + n * es) es xs = slice_at (off * es) (n * es + es) xs"
    by (simp add: slice_at_append)
  with Suc show ?case by (simp add: algebra_simps)
qed

text \<open>Emitting slices of the source is one write.\<close>

lemma emit_slices:
  assumes "\<And>i. i < n \<Longrightarrow> f i = Ok (slice_at ((off + i) * es) es src)"
    and "(off + n) * es \<le> length src" "(doff + n) * es \<le> length dst"
  shows "emit es f err doff [0..<n] dst = Ok (write_at (doff * es) (slice_at (off * es) (n * es) src) dst)"
proof -
  have "length (slice_at ((off + i) * es) es src) = es" if "i < n" for i
    using that assms(2) mult_le_mono1 [of "off + i + 1" "off + n" es] by simp
  from emit_upto [of 0 n f "\<lambda>i. slice_at ((off + i) * es) es src" es doff dst err, OF assms(1) this assms(3)]
  show ?thesis by (simp add: concat_slices [OF assms(2)])
qed

lemma slice_prefix_cong:
  assumes "take n src' = take n src" "off + k \<le> n"
  shows "slice_at off k src' = slice_at off k src"
  using slice_at_take [of off k n src] slice_at_take [of off k n src'] assms by simp

lemma value_prefix_cong:
  assumes "take (n * 8) src' = take (n * 8) src" "i < n"
  shows "slice_at (i * 8) 8 src' = slice_at (i * 8) 8 src"
  using assms by (intro slice_prefix_cong [OF assms(1)]) linarith

section \<open>No compression\<close>

definition uncompressed_compress :: "nat \<Rightarrow> compress_fn" where
  "uncompressed_compress es meta src n dst =
     (if es = 0 then Err Panic
      else
        (let values_to_copy = min n (length dst div es);
             size_to_copy = values_to_copy * es
         in if size_to_copy > length src then Err (Internal ''Uncompressed copy: src too short'')
            else Ok (size_to_copy, values_to_copy, write_at 0 (take size_to_copy src) dst)))"

definition uncompressed_decompress :: "nat \<Rightarrow> decompress_fn" where
  "uncompressed_decompress es meta src src_offset dst dst_offset n =
     (let src_start = src_offset * es;
          dst_start = dst_offset * es;
          sz = n * es
      in if src_start + sz > length src then Err (Internal ''Uncompressed decompress: src too short'')
         else if dst_start + sz > length dst then Err (Internal ''Uncompressed decompress: dst too short'')
         else Ok (write_at dst_start (slice_at src_start sz src) dst))"

lemma uncompressed_block_codec:
  assumes "0 < es" "es \<le> 128"
  shows "block_codec es (\<lambda>_ _ _. True) (uncompressed_compress es) (uncompressed_decompress es)"
proof
  show "0 < es" by fact
  fix m and src dst :: "byte list" and n :: nat
  assume n: "0 < n" "n \<le> 32" and src: "length src = 32 * es" and dst: "length dst = 4096"
  have "n * es \<le> 32 * 128" using n assms by (intro mult_le_mono) auto
  then have le: "n * es \<le> 4096" by simp
  then have "n \<le> 4096 div es" using assms by (simp add: less_eq_div_iff_mult_less_eq)
  moreover have "n * es \<le> length src" using n src by simp
  ultimately have c: "uncompressed_compress es m src n dst = Ok (n * es, n, write_at 0 (take (n * es) src) dst)"
    using assms dst by (simp add: uncompressed_compress_def Let_def)
  have "uncompressed_decompress es m page off out doff cnt
      = Ok (write_at (doff * es) (slice_at (off * es) (cnt * es) src) out)"
    if "take (n * es) page = take (n * es) (write_at 0 (take (n * es) src) dst)" "n * es \<le> length page"
      "off + cnt \<le> n" "(doff + cnt) * es \<le> length out" for page off out doff cnt
  proof -
    have ctn: "off * es + cnt * es \<le> n * es"
      using mult_le_mono1 [OF that(3), of es] by (simp add: algebra_simps)
    have "take (n * es) page = take (n * es) src"
      using that(1) le dst src \<open>n * es \<le> length src\<close> by (simp add: write_at_def)
    from slice_prefix_cong [OF this ctn]
    show ?thesis using that ctn by (simp add: uncompressed_decompress_def Let_def algebra_simps)
  qed
  then show "\<exists>sz dst'. uncompressed_compress es m src n dst = Ok (sz, n, dst') \<and> sz \<le> 4096 \<and> length dst' = 4096
      \<and> (\<forall>page off out doff cnt. take sz page = take sz dst' \<longrightarrow> sz \<le> length page \<longrightarrow>
           off + cnt \<le> n \<longrightarrow> (doff + cnt) * es \<le> length out \<longrightarrow>
           uncompressed_decompress es m page off out doff cnt
             = Ok (write_at (doff * es) (slice_at (off * es) (cnt * es) src) out))"
    using c le dst \<open>n * es \<le> length src\<close> by simp
qed simp

interpretation plain: block_codec 8 "\<lambda>_ _ _. True" "uncompressed_compress 8" "uncompressed_decompress 8"
  by (rule uncompressed_block_codec) simp_all

section \<open>Constant\<close>

definition constant_compress :: compress_fn where
  "constant_compress meta src n dst = Ok (0, n, dst)"

definition constant_decompress :: decompress_fn where
  "constant_decompress meta src src_offset dst dst_offset n =
     (let val_bytes = to_le_bytes (min_value meta)
      in emit (length val_bytes) (\<lambda>_. Ok val_bytes) Panic dst_offset [0..<n] dst)"

definition constant_valid :: "compression_metadata \<Rightarrow> byte list \<Rightarrow> nat \<Rightarrow> bool" where
  "constant_valid m src n \<longleftrightarrow> length (to_le_bytes (min_value m)) = 8
     \<and> (\<forall>i < n. slice_at (i * 8) 8 src = to_le_bytes (min_value m))"

interpretation const: block_codec 8 constant_valid constant_compress constant_decompress
proof
  fix m src src' n
  assume "constant_valid m src n" and "take (n * 8) src' = take (n * 8) src"
  then show "constant_valid m src' n" by (simp add: constant_valid_def value_prefix_cong [of n src' src])
next
  fix m and src dst :: "byte list" and n :: nat
  assume v: "constant_valid m src n" and n: "0 < n" "n \<le> 32" and src: "length src = 32 * 8" and "length dst = 4096"
  have "constant_decompress m page off out doff cnt
      = Ok (write_at (doff * 8) (slice_at (off * 8) (cnt * 8) src) out)"
    if "off + cnt \<le> n" "(doff + cnt) * 8 \<le> length out" for page off out doff cnt
  proof -
    let ?v = "to_le_bytes (min_value m)"
    have "Ok ?v = Ok (slice_at ((off + i) * 8) 8 src)" if "i < cnt" for i
    proof -
      have "off + i < n" using that \<open>off + cnt \<le> n\<close> by simp
      then show ?thesis using v unfolding constant_valid_def by metis
    qed
    then have "emit 8 (\<lambda>_. Ok ?v) Panic doff [0..<cnt] out = Ok (write_at (doff * 8) (slice_at (off * 8) (cnt * 8) src) out)"
      using that n src by (intro emit_slices) auto
    then show ?thesis using v by (simp add: constant_decompress_def constant_valid_def)
  qed
  then show "\<exists>sz dst'. constant_compress m src n dst = Ok (sz, n, dst') \<and> sz \<le> 4096 \<and> length dst' = 4096
      \<and> (\<forall>page off out doff cnt. take sz page = take sz dst' \<longrightarrow> sz \<le> length page \<longrightarrow>
           off + cnt \<le> n \<longrightarrow> (doff + cnt) * 8 \<le> length out \<longrightarrow>
           constant_decompress m page off out doff cnt
             = Ok (write_at (doff * 8) (slice_at (off * 8) (cnt * 8) src) out))"
    using \<open>length dst = 4096\<close> by (simp add: constant_compress_def)
qed simp

section \<open>Bit packing\<close>

abbreviation div_ceil :: "nat \<Rightarrow> nat \<Rightarrow> nat" where
  "div_ceil a b \<equiv> (a + b - 1) div b"

definition integer_bitpacking_compress :: compress_fn where
  "integer_bitpacking_compress meta src n dst =
     (if bit_width meta = 0 then Ok (0, n, dst)
      else if length src < 32 * 8 then Err Panic
      else Ok (div_ceil (32 * bit_width meta) 8, min n 32,
               pack_32 (map (value_at src) [0..<32]) (bit_width meta) dst))"

definition integer_bitpacking_decompress :: decompress_fn where
  "integer_bitpacking_decompress meta src src_offset dst dst_offset n =
     (if bit_width meta = 0 then emit 8 (\<lambda>_. Ok (replicate 8 0)) Panic dst_offset [0..<n] dst
      else
        (let values = unpack_32 src (bit_width meta) (replicate 32 0)
         in emit 8 (\<lambda>i. Ok (le_bytes 8 (values ! ((src_offset + i) mod 32)))) Panic dst_offset [0..<n] dst))"

definition bitpacking_valid :: "compression_metadata \<Rightarrow> byte list \<Rightarrow> nat \<Rightarrow> bool" where
  "bitpacking_valid m src n \<longleftrightarrow> bit_width m \<le> 64
     \<and> (\<forall>i < n. take_bit (bit_width m) (value_at src i) = value_at src i)"

lemma le_bytes_value_at: "i < 32 \<Longrightarrow> length src = 256 \<Longrightarrow> le_bytes 8 (value_at src i) = slice_at (i * 8) 8 src"
  by (rule le_bytes_from_le) auto

lemma le_bytes_zero: "le_bytes n (0 :: u64) = replicate n 0"
  by (simp add: le_bytes_def map_replicate_const)

lemma div_ceil_bits [simp]: "div_ceil (32 * w) 8 = 4 * w"
  using byte_split [of 7 "32 * w + 8 - 1" "4 * w"] by simp

lemma unpack_page:
  assumes "w \<le> 64" "length vs = 32" "4 * w \<le> length dst"
    and "take (div_ceil (32 * w) 8) page = take (div_ceil (32 * w) 8) (pack_32 vs w dst)"
    and "div_ceil (32 * w) 8 \<le> length page"
  shows "unpack_32 page w (replicate 32 0) = map (take_bit w) vs"
proof (cases "w = 0")
  case True
  then show ?thesis using assms(2) by (simp add: unpack_32_def map_replicate_const [symmetric] list_eq_iff_nth_eq)
next
  case False
  have "length vs * w \<le> 8 * length dst" using assms(1-3) by simp
  from pack_32_holds [OF assms(1) this] have "holds_values (pack_32 vs w dst) w vs" .
  moreover have "length vs * w \<le> 8 * div_ceil (32 * w) 8" using assms(2) by simp
  ultimately have "holds_values page w vs" using holds_values_cong assms(4,5) by blast
  then show ?thesis using False assms(1,2) by (intro unpack_32_holds) auto
qed

interpretation bitpack: block_codec 8 bitpacking_valid integer_bitpacking_compress integer_bitpacking_decompress
proof
  fix m src src' n
  assume "bitpacking_valid m src n" and "take (n * 8) src' = take (n * 8) src"
  then show "bitpacking_valid m src' n" by (simp add: bitpacking_valid_def value_prefix_cong [of n src' src])
next
  fix m and src dst :: "byte list" and n :: nat
  assume v: "bitpacking_valid m src n" and n: "0 < n" "n \<le> 32" and src: "length src = 32 * 8" and dst: "length dst = 4096"
  let ?w = "bit_width m"
  let ?sz = "if ?w = 0 then 0 else div_ceil (32 * ?w) 8"
  let ?dst = "if ?w = 0 then dst else pack_32 (map (value_at src) [0..<32]) ?w dst"
  have w: "?w \<le> 64" using v by (simp add: bitpacking_valid_def)
  have "integer_bitpacking_decompress m page off out doff cnt
      = Ok (write_at (doff * 8) (slice_at (off * 8) (cnt * 8) src) out)"
    if pg: "take ?sz page = take ?sz ?dst" "?sz \<le> length page"
      and r: "off + cnt \<le> n" "(doff + cnt) * 8 \<le> length out" for page off out doff cnt
  proof -
    have vals: "le_bytes 8 (take_bit ?w (value_at src (off + i))) = slice_at ((off + i) * 8) 8 src" if "i < cnt" for i
    proof -
      have i: "off + i < n" "off + i < 32" using that r(1) n(2) by auto
      then have tb: "take_bit ?w (value_at src (off + i)) = value_at src (off + i)"
        using v unfolding bitpacking_valid_def by blast
      show ?thesis unfolding tb using i(2) src by (intro le_bytes_value_at) auto
    qed
    show ?thesis
    proof (cases "?w = 0")
      case True
      have "replicate 8 0 = slice_at ((off + i) * 8) 8 src" if "i < cnt" for i
        using vals [OF that] True by (simp add: le_bytes_zero)
      then show ?thesis
        using True r n src by (simp add: integer_bitpacking_decompress_def) (intro emit_slices; simp)
    next
      case False
      then have "unpack_32 page ?w (replicate 32 0) = map (take_bit ?w) (map (value_at src) [0..<32])"
        using w dst pg by (intro unpack_page) auto
      then show ?thesis
        using False r n src vals by (simp add: integer_bitpacking_decompress_def Let_def) (intro emit_slices; simp)
    qed
  qed
  moreover have "length ?dst = 4096" using w dst by simp
  moreover have "?sz \<le> 4096" unfolding div_ceil_bits using w by simp
  moreover have "integer_bitpacking_compress m src n dst = Ok (?sz, n, ?dst)"
    using n src by (simp add: integer_bitpacking_compress_def min_def)
  ultimately show "\<exists>sz dst'. integer_bitpacking_compress m src n dst = Ok (sz, n, dst') \<and> sz \<le> 4096 \<and> length dst' = 4096
      \<and> (\<forall>page off out doff cnt. take sz page = take sz dst' \<longrightarrow> sz \<le> length page \<longrightarrow>
           off + cnt \<le> n \<longrightarrow> (doff + cnt) * 8 \<le> length out \<longrightarrow>
           integer_bitpacking_decompress m page off out doff cnt
             = Ok (write_at (doff * 8) (slice_at (off * 8) (cnt * 8) src) out))"
    by blast
qed simp

section \<open>Frame of reference\<close>

definition frame_min :: "compression_metadata \<Rightarrow> u64" where
  "frame_min meta = (case min_value meta of Node v \<Rightarrow> v | Number x \<Rightarrow> f64_to_i64 x | _ \<Rightarrow> 0)"

definition checked_sub_i64 :: "u64 \<Rightarrow> u64 \<Rightarrow> u64 option" where
  "checked_sub_i64 a b =
     (let d = sint a - sint b in if - (2 ^ 63) \<le> d \<and> d < 2 ^ 63 then Some (a - b) else None)"

definition delta_of :: "u64 \<Rightarrow> u64 \<Rightarrow> u64" where
  "delta_of mn v = (case checked_sub_i64 v mn of Some d \<Rightarrow> d | None \<Rightarrow> 0)"

definition delta_compress :: compress_fn where
  "delta_compress meta src n dst =
     (if length src < 32 * 8 then Err (Internal ''delta compress: src too short'')
      else Ok (div_ceil (32 * bit_width meta) 8, min n 32,
               pack_32 (map (\<lambda>i. delta_of (frame_min meta) (value_at src i)) [0..<32]) (bit_width meta) dst))"

definition delta_decompress :: decompress_fn where
  "delta_decompress meta src src_offset dst dst_offset n =
     (let deltas = unpack_32 src (bit_width meta) (replicate 32 0)
      in emit 8 (\<lambda>i. Ok (le_bytes 8 (frame_min meta + deltas ! ((src_offset + i) mod 32))))
           (Internal ''delta decompress: dst too short'') dst_offset [0..<n] dst)"

definition delta_valid :: "compression_metadata \<Rightarrow> byte list \<Rightarrow> nat \<Rightarrow> bool" where
  "delta_valid m src n \<longleftrightarrow> bit_width m \<le> 64
     \<and> (\<forall>i < n. checked_sub_i64 (value_at src i) (frame_min m) \<noteq> None
          \<and> take_bit (bit_width m) (value_at src i - frame_min m) = value_at src i - frame_min m)"

lemma frame_plus_delta:
  assumes "checked_sub_i64 v mn \<noteq> None" "take_bit w (v - mn) = v - mn"
  shows "mn + take_bit w (delta_of mn v) = v"
proof -
  have "delta_of mn v = v - mn"
    using assms(1) by (auto simp: delta_of_def checked_sub_i64_def Let_def split: if_splits)
  then show ?thesis using assms(2) by simp
qed

interpretation delta: block_codec 8 delta_valid delta_compress delta_decompress
proof
  fix m src src' n
  assume "delta_valid m src n" and "take (n * 8) src' = take (n * 8) src"
  then show "delta_valid m src' n" by (simp add: delta_valid_def value_prefix_cong [of n src' src])
next
  fix m and src dst :: "byte list" and n :: nat
  assume v: "delta_valid m src n" and n: "0 < n" "n \<le> 32" and src: "length src = 32 * 8" and dst: "length dst = 4096"
  let ?w = "bit_width m"
  define ds where "ds = map (\<lambda>i. delta_of (frame_min m) (value_at src i)) [0..<32]"
  have ds: "length ds = 32" "\<And>i. i < 32 \<Longrightarrow> ds ! i = delta_of (frame_min m) (value_at src i)"
    unfolding ds_def by (simp_all del: upt_conv_Cons)
  have w: "?w \<le> 64" using v by (simp add: delta_valid_def)
  have "delta_decompress m page off out doff cnt
      = Ok (write_at (doff * 8) (slice_at (off * 8) (cnt * 8) src) out)"
    if pg: "take (div_ceil (32 * ?w) 8) page = take (div_ceil (32 * ?w) 8) (pack_32 ds ?w dst)"
        "div_ceil (32 * ?w) 8 \<le> length page"
      and r: "off + cnt \<le> n" "(doff + cnt) * 8 \<le> length out" for page off out doff cnt
  proof -
    have "unpack_32 page ?w (replicate 32 0) = map (take_bit ?w) ds"
      using w dst by (intro unpack_page [OF w ds(1) _ pg]) simp
    moreover have "Ok (le_bytes 8 (frame_min m + map (take_bit ?w) ds ! ((off + i) mod 32)))
        = Ok (slice_at ((off + i) * 8) 8 src)" if "i < cnt" for i
    proof -
      have i: "off + i < n" "off + i < 32" using that r(1) n(2) by auto
      then have "frame_min m + take_bit ?w (delta_of (frame_min m) (value_at src (off + i))) = value_at src (off + i)"
        using v unfolding delta_valid_def by (intro frame_plus_delta) blast+
      then have eq: "frame_min m + map (take_bit ?w) ds ! ((off + i) mod 32) = value_at src (off + i)"
        using i(2) ds by simp
      show ?thesis unfolding eq using i(2) src le_bytes_value_at [of "off + i" src] by simp
    qed
    ultimately show ?thesis
      using r n src unfolding delta_decompress_def Let_def by (intro emit_slices) auto
  qed
  moreover have "length (pack_32 ds ?w dst) = 4096" "div_ceil (32 * ?w) 8 \<le> 4096"
    unfolding div_ceil_bits using w dst ds(1) by simp_all
  moreover have "delta_compress m src n dst = Ok (div_ceil (32 * ?w) 8, n, pack_32 ds ?w dst)"
    using n src by (simp add: delta_compress_def min_def flip: ds_def)
  ultimately show "\<exists>sz dst'. delta_compress m src n dst = Ok (sz, n, dst') \<and> sz \<le> 4096 \<and> length dst' = 4096
      \<and> (\<forall>page off out doff cnt. take sz page = take sz dst' \<longrightarrow> sz \<le> length page \<longrightarrow>
           off + cnt \<le> n \<longrightarrow> (doff + cnt) * 8 \<le> length out \<longrightarrow>
           delta_decompress m page off out doff cnt
             = Ok (write_at (doff * 8) (slice_at (off * 8) (cnt * 8) src) out))"
    by blast
qed simp

end
