(* ===== verification/Rle_Codec.thy ===== *)
theory Rle_Codec
  imports Codecs
begin

text \<open>
  The run-length codec of \<open>storage/compression/rle.rs\<close>: runs of equal 8-byte values as (value, 32-bit count)
  pairs, and a decoder that skips whole runs up to a value index. The proof goes through the list of runs
  a page holds.
\<close>

section \<open>Operations\<close>

text \<open>The inner loop of \<open>compress_next_page\<close>: the run of values equal to \<open>v\<close> from position \<open>j\<close> on.\<close>

function run_end :: "byte list \<Rightarrow> nat \<Rightarrow> byte list \<Rightarrow> nat \<Rightarrow> nat \<Rightarrow> nat \<times> nat" where
  "run_end src n v j c =
     (if j < n \<and> c < 2 ^ 32 - 1 \<and> (j + 1) * 8 \<le> length src \<and> slice_at (j * 8) 8 src = v
      then run_end src n v (j + 1) (c + 1) else (c, j))"
  by pat_completeness auto

termination run_end
  by (relation "measure (\<lambda>(src, n, v, j, c). n - j)") auto

declare run_end.simps [simp del]

lemma run_end_ge: "run_end src n v j c = (c', j') \<Longrightarrow> j \<le> j'"
proof (induction src n v j c rule: run_end.induct)
  case (1 src n v j c)
  then show ?case
    using run_end.simps [of src n v j c]
    by (cases "j < n \<and> c < 2 ^ 32 - 1 \<and> (j + 1) * 8 \<le> length src \<and> slice_at (j * 8) 8 src = v") auto
qed

function rle_loop :: "byte list \<Rightarrow> nat \<Rightarrow> nat \<Rightarrow> nat \<Rightarrow> byte list \<Rightarrow> nat \<times> nat \<times> byte list" where
  "rle_loop src n values_processed dst_offset dst =
     (if values_processed < n \<and> dst_offset + 8 + 4 \<le> length dst then
        if values_processed * 8 + 8 > length src then (dst_offset, values_processed, dst)
        else
          (let v = slice_at (values_processed * 8) 8 src;
               (c, j) = run_end src n v (values_processed + 1) 1
           in if dst_offset + 8 + 4 > length dst then (dst_offset, values_processed, dst)
              else rle_loop src n j (dst_offset + 12)
                     (write_at (dst_offset + 8) (le_bytes 4 (of_nat c :: u32)) (write_at dst_offset v dst)))
      else (dst_offset, values_processed, dst))"
  by pat_completeness auto

termination rle_loop
proof (relation "measure (\<lambda>(src, n, vp, doff, dst). n - vp)")
  fix src n vp doff v x c j and dst :: "byte list"
  assume "vp < n \<and> doff + 8 + 4 \<le> length dst" "x = run_end src n v (vp + 1) 1" "(c, j) = x"
  then show "((src, n, j, doff + 12, write_at (doff + 8) (le_bytes 4 (of_nat c :: u32)) (write_at doff v dst)),
      (src, n, vp, doff, dst)) \<in> measure (\<lambda>(src, n, vp, doff, dst). n - vp)"
    using run_end_ge [of src n v "vp + 1" 1 c j] by auto
qed simp

declare rle_loop.simps [simp del]

definition rle_compress :: compress_fn where
  "rle_compress meta src n dst = Ok (rle_loop src n 0 0 dst)"

function rle_read ::
  "byte list \<Rightarrow> nat \<Rightarrow> byte list \<Rightarrow> nat \<Rightarrow> nat \<Rightarrow> nat \<Rightarrow> nat \<Rightarrow> byte list result" where
  "rle_read src src_ptr dst dst_ptr emitted n skip =
     (if emitted < n \<and> src_ptr + 8 + 4 \<le> length src then
        (let v = slice_at src_ptr 8 src;
             c = unat (from_le_bytes (slice_at (src_ptr + 8) 4 src) :: u32)
         in if skip \<ge> c then rle_read src (src_ptr + 12) dst dst_ptr emitted n (skip - c)
            else
              (let to_emit = min (c - skip) (n - emitted)
               in case emit 8 (\<lambda>_. Ok v) Panic dst_ptr [0..<to_emit] dst of
                    Err e \<Rightarrow> Err e
                  | Ok dst \<Rightarrow> rle_read src (src_ptr + 12) dst (dst_ptr + to_emit) (emitted + to_emit) n 0))
      else Ok dst)"
  by pat_completeness auto

termination rle_read
  by (relation "measure (\<lambda>(src, src_ptr, dst, dst_ptr, emitted, n, skip). length src - src_ptr)") auto

declare rle_read.simps [simp del]

definition rle_decompress :: decompress_fn where
  "rle_decompress meta src src_offset dst dst_offset n = rle_read src 0 dst dst_offset 0 n src_offset"

section \<open>Lists of runs\<close>

type_synonym run = "byte list \<times> nat"

definition enc_runs :: "run list \<Rightarrow> byte list" where
  "enc_runs runs = concat (map (\<lambda>(v, c). v @ le_bytes 4 (of_nat c :: u32)) runs)"

definition expand :: "run list \<Rightarrow> byte list list" where
  "expand runs = concat (map (\<lambda>(v, c). replicate c v) runs)"

definition runs_ok :: "run list \<Rightarrow> bool" where
  "runs_ok runs \<longleftrightarrow> (\<forall>(v, c) \<in> set runs. length v = 8 \<and> 0 < c \<and> c < 2 ^ 32)"

lemma runs_simps [simp]:
  "enc_runs [] = []" "enc_runs ((v, c) # runs) = v @ le_bytes 4 (of_nat c :: u32) @ enc_runs runs"
  "expand [] = []" "expand ((v, c) # runs) = replicate c v @ expand runs"
  "runs_ok []" "runs_ok ((v, c) # runs) \<longleftrightarrow> length v = 8 \<and> 0 < c \<and> c < 2 ^ 32 \<and> runs_ok runs"
  by (simp_all add: enc_runs_def expand_def runs_ok_def)

lemma length_enc_runs: "runs_ok runs \<Longrightarrow> length (enc_runs runs) = 12 * length runs"
  by (induction runs) auto

lemma length_expand_ge: "runs_ok runs \<Longrightarrow> length runs \<le> length (expand runs)"
  by (induction runs) auto

lemma expand_elem: "runs_ok runs \<Longrightarrow> \<forall>v \<in> set (expand runs). length v = 8"
  by (induction runs) auto

text \<open>The run found by the inner loop.\<close>

lemma run_end_spec:
  "c < 2 ^ 32 \<Longrightarrow> j * 8 \<le> length src \<Longrightarrow> j \<le> n \<Longrightarrow> run_end src n v j c = (c', j') \<Longrightarrow>
   c' + j = c + j' \<and> j \<le> j' \<and> c' < 2 ^ 32 \<and> j' \<le> n \<and> j' * 8 \<le> length src
   \<and> map (\<lambda>i. slice_at (i * 8) 8 src) [j..<j'] = replicate (j' - j) v"
proof (induction src n v j c rule: run_end.induct)
  case (1 src n v j c)
  let ?G = "j < n \<and> c < 2 ^ 32 - 1 \<and> (j + 1) * 8 \<le> length src \<and> slice_at (j * 8) 8 src = v"
  show ?case
  proof (cases ?G)
    case True
    then have rec: "run_end src n v (j + 1) (c + 1) = (c', j')" using 1(5) run_end.simps [of src n v j c] by auto
    from 1(1) [OF True _ _ _ rec] True
    have IH: "c' + (j + 1) = c + 1 + j' \<and> j + 1 \<le> j' \<and> c' < 2 ^ 32 \<and> j' \<le> n \<and> j' * 8 \<le> length src
      \<and> map (\<lambda>i. slice_at (i * 8) 8 src) [j + 1..<j'] = replicate (j' - (j + 1)) v" by simp
    then have "j < j'" by simp
    then have "[j..<j'] = j # [j + 1..<j']" "j' - j = Suc (j' - (j + 1))" by (simp_all add: upt_rec)
    then show ?thesis using IH True by simp
  next
    case False
    then have "c' = c" "j' = j" using 1(5) run_end.simps [of src n v j c] by auto
    then show ?thesis using 1 by simp
  qed
qed


lemma rle_loop_spec:
  "values_processed \<le> n \<Longrightarrow> n * 8 \<le> length src \<Longrightarrow> dst_offset + 12 * (n - values_processed) \<le> length dst \<Longrightarrow>
   \<exists>runs. runs_ok runs \<and> expand runs = map (\<lambda>i. slice_at (i * 8) 8 src) [values_processed..<n]
     \<and> rle_loop src n values_processed dst_offset dst
         = (dst_offset + 12 * length runs, n, write_at dst_offset (enc_runs runs) dst)"
proof (induction "n - values_processed" arbitrary: values_processed dst_offset dst rule: less_induct)
  case less
  let ?vp = values_processed and ?o = dst_offset
  show ?case
  proof (cases "?vp = n")
    case True
    then show ?thesis by (intro exI [of _ "[]"]) (simp add: rle_loop.simps)
  next
    case False
    define v where "v = slice_at (?vp * 8) 8 src"
    obtain c j where cj: "run_end src n v (?vp + 1) 1 = (c, j)" by fastforce
    have vp: "?vp + 1 \<le> n" "(?vp + 1) * 8 \<le> length src" using False less.prems by auto
    from run_end_spec [OF _ vp(2,1) cj]
    have sp: "c + (?vp + 1) = 1 + j" "?vp + 1 \<le> j" "c < 2 ^ 32" "j \<le> n"
      "map (\<lambda>i. slice_at (i * 8) 8 src) [?vp + 1..<j] = replicate (j - (?vp + 1)) v" by simp_all
    have lv: "length v = 8" using vp by (simp add: v_def)
    let ?dst = "write_at (?o + 8) (le_bytes 4 (of_nat c :: u32)) (write_at ?o v dst)"
    have room: "?o + 12 \<le> length dst" "?o + 12 + 12 * (n - j) \<le> length dst" using less.prems(3) vp sp(2) by auto
    then have dst: "?dst = write_at ?o (v @ le_bytes 4 (of_nat c :: u32)) dst"
      using write_at_append [of ?o v "le_bytes 4 (of_nat c :: u32)" dst] lv by simp
    have step: "rle_loop src n ?vp ?o dst = rle_loop src n j (?o + 12) ?dst"
      using vp room cj by (subst rle_loop.simps) (simp add: Let_def flip: v_def)
    have "n - j < n - ?vp" "length ?dst = length dst" using sp(2,4) room lv by (auto simp: dst)
    with less.hyps [OF this(1) sp(4) less.prems(2), of "?o + 12" ?dst] room
    obtain runs where runs: "runs_ok runs" "expand runs = map (\<lambda>i. slice_at (i * 8) 8 src) [j..<n]"
      "rle_loop src n j (?o + 12) ?dst = (?o + 12 + 12 * length runs, n, write_at (?o + 12) (enc_runs runs) ?dst)"
      by auto
    have "length runs \<le> n - j" using length_expand_ge [OF runs(1)] runs(2) by simp
    then have "write_at (?o + 12) (enc_runs runs) ?dst = write_at ?o (enc_runs ((v, c) # runs)) dst"
      using write_at_append [of ?o "v @ le_bytes 4 (of_nat c :: u32)" "enc_runs runs" dst] room lv
        length_enc_runs [OF runs(1)] unfolding dst by simp
    moreover have "expand ((v, c) # runs) = map (\<lambda>i. slice_at (i * 8) 8 src) [?vp..<n]"
    proof -
      have "[?vp..<n] = ?vp # [?vp + 1..<j] @ [j..<n]"
        using vp sp(2,4) upt_add_eq_append [of "?vp + 1" j "n - j"] by (simp add: upt_rec [of ?vp n])
      moreover have "c = Suc (j - (?vp + 1))" using sp(1,2) by simp
      ultimately show ?thesis using sp(5) runs(2) by (simp add: v_def)
    qed
    ultimately show ?thesis
      using step runs(1,3) sp(1-3) lv by (intro exI [of _ "(v, c) # runs"]) auto
  qed
qed

section \<open>Reading runs back\<close>

lemma emit_const:
  assumes "length v = 8" "(doff + k) * 8 \<le> length dst"
  shows "emit 8 (\<lambda>_. Ok v) err doff [0..<k] dst = Ok (write_at (doff * 8) (concat (replicate k v)) dst)"
  using emit_upto [of 0 k "\<lambda>_. Ok v" "\<lambda>_. v" 8 doff dst err] assms
  by (simp add: map_replicate_const)

lemma rle_read_spec:
  "runs_ok runs \<Longrightarrow> slice_at src_ptr (12 * length runs) src = enc_runs runs \<Longrightarrow>
   src_ptr + 12 * length runs \<le> length src \<Longrightarrow> emitted \<le> n \<Longrightarrow>
   skip + (n - emitted) \<le> length (expand runs) \<Longrightarrow> (dst_ptr + (n - emitted)) * 8 \<le> length dst \<Longrightarrow>
   rle_read src src_ptr dst dst_ptr emitted n skip
     = Ok (write_at (dst_ptr * 8) (concat (take (n - emitted) (drop skip (expand runs)))) dst)"
proof (induction runs arbitrary: src_ptr dst dst_ptr emitted skip)
  case Nil
  then show ?case by (simp add: rle_read.simps)
next
  case (Cons r runs)
  obtain v c where r: "r = (v, c)" by fastforce
  with Cons.prems(1) have ok: "length v = 8" "0 < c" "c < 2 ^ 32" "runs_ok runs" by auto
  have sl: "slice_at src_ptr (12 + 12 * length runs) src = (v @ le_bytes 4 (of_nat c :: u32)) @ enc_runs runs"
    using Cons.prems(2) r by simp
  then have hd: "slice_at src_ptr 12 src = v @ le_bytes 4 (of_nat c :: u32)"
    and tl: "slice_at (src_ptr + 12) (12 * length runs) src = enc_runs runs"
    using slice_at_split [OF sl] ok(1) Cons.prems(3) by simp_all
  have v: "slice_at src_ptr 8 src = v" and cb: "slice_at (src_ptr + 8) 4 src = le_bytes 4 (of_nat c :: u32)"
    using slice_at_split [of src_ptr 8 4 src, OF _ ok(1)] hd Cons.prems(3) by simp_all
  have c: "unat (from_le_bytes (slice_at (src_ptr + 8) 4 src) :: u32) = c"
    using ok(3) by (simp add: cb unat_of_nat take_bit_nat_eq_self)
  have sp: "src_ptr + 12 + 12 * length runs \<le> length src" using Cons.prems(3) by simp
  show ?case
  proof (cases "emitted < n")
    case False
    then show ?thesis using Cons.prems(4) by (simp add: rle_read.simps)
  next
    case em: True
    show ?thesis
    proof (cases "c \<le> skip")
      case True
      then have "rle_read src src_ptr dst dst_ptr emitted n skip = rle_read src (src_ptr + 12) dst dst_ptr emitted n (skip - c)"
        using em sp c by (subst rle_read.simps) (simp add: Let_def)
      moreover have "skip - c + (n - emitted) \<le> length (expand runs)" using Cons.prems(5) True r by simp
      ultimately show ?thesis
        using Cons.IH [OF ok(4) tl sp Cons.prems(4) _ Cons.prems(6)] True r by simp
    next
      case False
      define k where "k = min (c - skip) (n - emitted)"
      have k: "k \<le> n - emitted" "k \<le> c - skip" "0 < k" using False em by (auto simp: k_def)
      define dst' where "dst' = write_at (dst_ptr * 8) (concat (replicate k v)) dst"
      have lc: "length (concat (replicate k v)) = k * 8" using ok(1) by (simp add: length_concat sum_list_replicate)
      have fit: "(dst_ptr + k) * 8 \<le> length dst" using Cons.prems(6) k(1) mult_le_mono1 [of "dst_ptr + k" "dst_ptr + (n - emitted)" 8] by simp
      have step: "rle_read src src_ptr dst dst_ptr emitted n skip = rle_read src (src_ptr + 12) dst' (dst_ptr + k) (emitted + k) n 0"
        using em sp c v False emit_const [OF ok(1) fit, of Panic]
        by (subst rle_read.simps) (simp add: Let_def dst'_def flip: k_def)
      have "n - (emitted + k) \<le> length (expand runs)"
        using Cons.prems(5) False r by (auto simp: k_def min_def)
      moreover have "(dst_ptr + k + (n - (emitted + k))) * 8 \<le> length dst'"
        using Cons.prems(6) k(1) fit lc by (simp add: dst'_def)
      moreover have "emitted + k \<le> n" using k(1) em by simp
      ultimately have "rle_read src (src_ptr + 12) dst' (dst_ptr + k) (emitted + k) n 0
          = Ok (write_at ((dst_ptr + k) * 8) (concat (take (n - (emitted + k)) (expand runs))) dst')"
        using Cons.IH [OF ok(4) tl sp, of "emitted + k" 0 "dst_ptr + k" dst'] by simp
      moreover have "write_at ((dst_ptr + k) * 8) zs dst' = write_at (dst_ptr * 8) (concat (replicate k v) @ zs) dst"
        if "length zs = (n - (emitted + k)) * 8" for zs
        using write_at_append [of "dst_ptr * 8" "concat (replicate k v)" zs dst] that lc Cons.prems(6) k(1)
        by (simp add: dst'_def algebra_simps)
      moreover have "length (concat (take (n - (emitted + k)) (expand runs))) = (n - (emitted + k)) * 8"
        using length_concat_const [of "take (n - (emitted + k)) (expand runs)" 8] expand_elem [OF ok(4)]
          \<open>n - (emitted + k) \<le> length (expand runs)\<close> by (auto dest: in_set_takeD)
      moreover have "take (n - emitted) (drop skip (expand (r # runs)))
          = replicate k v @ take (n - (emitted + k)) (expand runs)"
        using False k r by (auto simp: k_def min_def)
      ultimately show ?thesis using step by simp
    qed
  qed
qed

section \<open>The contract\<close>

lemma rle_block:
  assumes "n \<le> 32" "length src = 32 * 8" "length dst = 4096"
  shows "\<exists>sz dst'. rle_compress m src n dst = Ok (sz, n, dst') \<and> sz \<le> 4096 \<and> length dst' = 4096
      \<and> (\<forall>page off out doff cnt. take sz page = take sz dst' \<longrightarrow> sz \<le> length page \<longrightarrow>
           off + cnt \<le> n \<longrightarrow> (doff + cnt) * 8 \<le> length out \<longrightarrow>
           rle_decompress m page off out doff cnt
             = Ok (write_at (doff * 8) (slice_at (off * 8) (cnt * 8) src) out))"
proof -
  obtain runs where runs: "runs_ok runs" "expand runs = map (\<lambda>i. slice_at (i * 8) 8 src) [0..<n]"
    "rle_loop src n 0 0 dst = (12 * length runs, n, write_at 0 (enc_runs runs) dst)"
    using rle_loop_spec [of 0 n src 0 dst] assms by auto
  have len: "length runs \<le> n" "length (enc_runs runs) = 12 * length runs"
    using length_expand_ge [OF runs(1)] runs(2) length_enc_runs [OF runs(1)] by simp_all
  have "rle_decompress m page off out doff cnt = Ok (write_at (doff * 8) (slice_at (off * 8) (cnt * 8) src) out)"
    if pg: "take (12 * length runs) page = take (12 * length runs) (write_at 0 (enc_runs runs) dst)"
        "12 * length runs \<le> length page" and r: "off + cnt \<le> n" "(doff + cnt) * 8 \<le> length out"
      for page off out doff cnt
  proof -
    have "slice_at 0 (12 * length runs) page = enc_runs runs"
      using pg len assms by (simp add: slice_at_def write_at_def)
    then have "rle_read page 0 out doff 0 cnt off = Ok (write_at (doff * 8) (concat (take cnt (drop off (expand runs)))) out)"
      using rle_read_spec [OF runs(1), of 0 page 0 cnt off doff out] pg(2) r runs(2) by simp
    moreover have "take cnt (drop off (expand runs)) = map (\<lambda>i. slice_at ((off + i) * 8) 8 src) [0..<cnt]"
      using r(1) runs(2) by (auto intro: nth_equalityI)
    ultimately show ?thesis using concat_slices [of off cnt 8 src] r assms by (simp add: rle_decompress_def)
  qed
  then show ?thesis using runs len assms by (intro exI [of _ "12 * length runs"]) (simp add: rle_compress_def)
qed

interpretation rle: block_codec 8 "\<lambda>_ _ _. True" rle_compress rle_decompress
  by unfold_locales (simp_all only: rle_block zero_less_numeral)

end
