(* ===== verification/Dict_Codec.thy ===== *)
theory Dict_Codec
  imports Codecs
begin

text \<open>
  The dictionary codec of \<open>storage/compression/dict.rs\<close>: a block is the number of distinct 8-byte values,
  the values in order of first occurrence, and 32 bit-packed indices into them.
\<close>

section \<open>Operations\<close>

text \<open>The scan that builds the dictionary and the indices.\<close>

fun dict_scan ::
  "byte list \<Rightarrow> nat list \<Rightarrow> byte list list \<Rightarrow> (byte list \<rightharpoonup> u64) \<Rightarrow> u64 list \<Rightarrow> (byte list list \<times> u64 list) result"
where
  "dict_scan src [] dict dict_map indices = Ok (dict, indices)"
| "dict_scan src (i # is) dict dict_map indices =
     (if i * 8 + 8 > length src then Err Panic
      else
        (let v = slice_at (i * 8) 8 src;
             (dict, dict_map) =
               (if dict_map v = None then (dict @ [v], dict_map(v \<mapsto> of_nat (length dict))) else (dict, dict_map))
         in case dict_map v of
              None \<Rightarrow> Err Panic
            | Some idx \<Rightarrow> dict_scan src is dict dict_map (indices @ [idx])))"

text \<open>The values written one after the other.\<close>

fun write_values :: "byte list list \<Rightarrow> nat \<Rightarrow> byte list \<Rightarrow> byte list" where
  "write_values [] off dst = dst"
| "write_values (v # vs) off dst = write_values vs (off + 8) (write_at off v dst)"

definition dict_bit_width :: "nat \<Rightarrow> nat" where
  "dict_bit_width dict_count = max (bit_length dict_count) 1"

definition dict_compress :: compress_fn where
  "dict_compress meta src num_values_remaining dst =
     (let n = min num_values_remaining 32
      in if n = 0 then Ok (0, 0, dst)
         else case dict_scan src [0..<n] [] Map.empty [] of
           Err e \<Rightarrow> Err e
         | Ok (dict, indices) \<Rightarrow>
             if length dst < 4 + length dict * 8 + 32
             then Err (Internal ''Dict compress: dst buffer too small'')
             else
               (let dst = write_values dict 4 (write_at 0 (le_bytes 4 (of_nat (length dict) :: u32)) dst);
                    off = 4 + length dict * 8;
                    w = dict_bit_width (length dict);
                    packed = write_at 0 indices (replicate 32 0)
                in Ok (off + div_ceil (32 * w) 8, n, take off dst @ pack_32 packed w (drop off dst))))"

definition dict_decompress :: decompress_fn where
  "dict_decompress meta src src_offset dst dst_offset num_values =
     (if num_values = 0 then Ok dst
      else if length src < 4 then Err (Internal ''Dict decompress: src too short for header'')
      else
        (let dict_count = unat (from_le_bytes (take 4 src) :: u32);
             dict_end = 4 + dict_count * 8
         in if dict_count = 0 then Ok dst
            else if dict_end > length src
            then Err (Internal ''Dict decompress: dict entries exceed src length'')
            else
              (let w = dict_bit_width dict_count;
                   indices = unpack_32 (drop dict_end src) w (replicate 32 0);
                   dict_bytes = slice_at 4 (dict_count * 8) src
               in emit 8 (\<lambda>i. let dict_idx = unat (indices ! ((src_offset + i) mod 32))
                              in if dict_idx \<ge> dict_count
                                 then Err (Internal ''Dict decompression: index out of bounds'')
                                 else Ok (slice_at (dict_idx * 8) 8 dict_bytes))
                    Panic dst_offset [0..<num_values] dst)))"

section \<open>The scan\<close>

definition scan_inv :: "byte list list \<Rightarrow> (byte list \<rightharpoonup> u64) \<Rightarrow> bool" where
  "scan_inv dict dm \<longleftrightarrow> (\<forall>v k. dm v = Some k \<longrightarrow> unat k < length dict \<and> dict ! unat k = v)"

lemma scan_inv_insert:
  assumes "scan_inv dict dm" "length dict < 2 ^ 64"
  shows "scan_inv (dict @ [v]) (dm(v \<mapsto> of_nat (length dict)))"
  using assms by (fastforce simp: scan_inv_def nth_append unat_of_nat take_bit_nat_eq_self)

lemma dict_scan_spec:
  "scan_inv dict dm \<Longrightarrow> length dict + length is < 2 ^ 64 \<Longrightarrow> \<forall>i \<in> set is. i * 8 + 8 \<le> length src \<Longrightarrow>
   \<exists>ds js. dict_scan src is dict dm idxs = Ok (dict @ ds, idxs @ js) \<and> length js = length is
     \<and> length ds \<le> length is \<and> (\<forall>v \<in> set ds. length v = 8)
     \<and> (\<forall>p < length is. unat (js ! p) < length (dict @ ds)
          \<and> (dict @ ds) ! unat (js ! p) = slice_at (is ! p * 8) 8 src)"
proof (induction "is" arbitrary: dict dm idxs)
  case Nil
  then show ?case by simp
next
  case (Cons i "is")
  let ?v = "slice_at (i * 8) 8 src"
  have i: "i * 8 + 8 \<le> length src" using Cons.prems(3) by simp
  define d1 where "d1 = (if dm ?v = None then [?v] else [])"
  define dm' where "dm' = (if dm ?v = None then dm(?v \<mapsto> of_nat (length dict)) else dm)"
  have inv: "scan_inv (dict @ d1) dm'"
    using Cons.prems scan_inv_insert [of dict dm ?v] by (auto simp: d1_def dm'_def)
  obtain k where k: "dm' ?v = Some k" by (cases "dm ?v") (auto simp: dm'_def)
  have l1: "length d1 \<le> 1" "\<forall>v \<in> set d1. length v = 8" using i by (auto simp: d1_def)
  have step: "dict_scan src (i # is) dict dm idxs = dict_scan src is (dict @ d1) dm' (idxs @ [k])"
    using i k by (auto simp: d1_def dm'_def Let_def split: if_splits)
  have "length (dict @ d1) + length is < 2 ^ 64" using Cons.prems(2) l1(1) by simp
  from Cons.IH [OF inv this, of "idxs @ [k]"] Cons.prems(3)
  obtain ds js where r: "dict_scan src is (dict @ d1) dm' (idxs @ [k]) = Ok ((dict @ d1) @ ds, (idxs @ [k]) @ js)"
    "length js = length is" "length ds \<le> length is" "\<forall>v \<in> set ds. length v = 8"
    "\<forall>p < length is. unat (js ! p) < length ((dict @ d1) @ ds)
       \<and> ((dict @ d1) @ ds) ! unat (js ! p) = slice_at (is ! p * 8) 8 src" by auto
  have k': "unat k < length (dict @ d1)" "(dict @ d1) ! unat k = ?v" using inv k by (auto simp: scan_inv_def)
  then have "(dict @ d1 @ ds) ! unat k = ?v" using nth_append [of "dict @ d1" ds "unat k"] by simp
  then have "unat ((k # js) ! p) < length (dict @ d1 @ ds)
      \<and> (dict @ d1 @ ds) ! unat ((k # js) ! p) = slice_at ((i # is) ! p * 8) 8 src" if "p < length (i # is)" for p
    using that r(5) k'(1) by (cases p) auto
  then show ?case
    using step r l1 by (intro exI [of _ "d1 @ ds"] exI [of _ "k # js"]) auto
qed

lemma write_values_eq:
  "\<forall>v \<in> set vs. length v = 8 \<Longrightarrow> off + 8 * length vs \<le> length dst \<Longrightarrow>
   write_values vs off dst = write_at off (concat vs) dst"
proof (induction vs arbitrary: off dst)
  case Nil
  then show ?case by simp
next
  case (Cons v vs)
  then have "write_values (v # vs) off dst = write_at (off + 8) (concat vs) (write_at off v dst)" by simp
  also have "\<dots> = write_at off (v @ concat vs) dst"
    using write_at_append [of off v "concat vs" dst] Cons.prems length_concat_const [of vs 8] by simp
  finally show ?case by simp
qed

section \<open>The contract\<close>

text \<open>What a page holds after a block of values with dictionary \<open>ds\<close> and indices \<open>js\<close>.\<close>

definition dict_page :: "byte list list \<Rightarrow> u64 list \<Rightarrow> byte list \<Rightarrow> bool" where
  "dict_page ds js page \<longleftrightarrow> take (4 + length ds * 8) page = le_bytes 4 (of_nat (length ds) :: u32) @ concat ds
     \<and> 4 + length ds * 8 \<le> length page
     \<and> unpack_32 (drop (4 + length ds * 8) page) (dict_bit_width (length ds)) (replicate 32 0)
         = map (take_bit (dict_bit_width (length ds))) (write_at 0 js (replicate 32 0))"

lemma dict_bit_width_bounds:
  assumes "0 < n" "n \<le> 32"
  shows "n < 2 ^ dict_bit_width n" and "dict_bit_width n \<le> 6"
proof -
  have "bit_length n \<noteq> 0" using assms by (simp add: bit_length.simps [of n])
  then have "max (bit_length n) 1 = bit_length n" by simp
  then show "n < 2 ^ dict_bit_width n" using less_exp_bit_length [of n] by (simp only: dict_bit_width_def)
  show "dict_bit_width n \<le> 6" using bit_length_le [of n 6] assms by (simp add: dict_bit_width_def)
qed

lemma dict_decompress_page:
  assumes pg: "dict_page ds js page" and ds: "0 < length ds" "length ds \<le> 32" "\<forall>v \<in> set ds. length v = 8"
    and js: "length js \<le> 32" "\<And>p. p < length js \<Longrightarrow> unat (js ! p) < length ds \<and> ds ! unat (js ! p) = slice_at (p * 8) 8 src"
    and r: "off + cnt \<le> length js" "(doff + cnt) * 8 \<le> length out" "length js * 8 \<le> length src"
  shows "dict_decompress m page off out doff cnt = Ok (write_at (doff * 8) (slice_at (off * 8) (cnt * 8) src) out)"
proof (cases "cnt = 0")
  case True
  then show ?thesis by (simp add: dict_decompress_def)
next
  case False
  let ?w = "dict_bit_width (length ds)" and ?e = "4 + length ds * 8"
  have hd: "take ?e page = le_bytes 4 (of_nat (length ds) :: u32) @ concat ds" and le: "?e \<le> length page"
    and un: "unpack_32 (drop ?e page) ?w (replicate 32 0) = map (take_bit ?w) (write_at 0 js (replicate 32 0))"
    using pg by (auto simp: dict_page_def)
  have "take 4 page = take 4 (take ?e page)" by (simp add: min_def)
  then have h4: "take 4 page = le_bytes 4 (of_nat (length ds) :: u32)" by (simp add: hd)
  then have count: "unat (from_le_bytes (take 4 page) :: u32) = length ds"
    using ds(2) by (simp add: unat_of_nat take_bit_nat_eq_self)
  have db: "slice_at 4 (length ds * 8) page = concat ds"
    using slice_at_take [of 4 "length ds * 8" ?e page] hd length_concat_const [OF ds(3)]
    by (simp add: slice_at_append_right slice_at_def)
  have idx: "map (take_bit ?w) (write_at 0 js (replicate 32 0)) ! ((off + i) mod 32) = js ! (off + i)" if "i < cnt" for i
  proof -
    have p: "off + i < length js" "off + i < 32" using that r(1) js(1) by auto
    then have "unat (js ! (off + i)) < 2 ^ ?w" using js(2) dict_bit_width_bounds(1) [OF ds(1,2)] by (meson less_trans)
    then have "take_bit ?w (js ! (off + i)) = js ! (off + i)"
      by (simp add: word_unat_eq_iff unsigned_take_bit_eq take_bit_nat_eq_self)
    then show ?thesis using p js(1) by (simp add: nth_write_at)
  qed
  have "(let dict_idx = unat (map (take_bit ?w) (write_at 0 js (replicate 32 0)) ! ((off + i) mod 32))
         in if dict_idx \<ge> length ds then Err (Internal ''Dict decompression: index out of bounds'')
            else Ok (slice_at (dict_idx * 8) 8 (concat ds))) = Ok (slice_at ((off + i) * 8) 8 src)" if "i < cnt" for i
    unfolding idx [OF that] using js(2) [of "off + i"] that r(1) slice_concat_const [OF ds(3), of "unat (js ! (off + i))"]
    by simp
  then have "emit 8 (\<lambda>i. let dict_idx = unat (map (take_bit ?w) (write_at 0 js (replicate 32 0)) ! ((off + i) mod 32))
         in if dict_idx \<ge> length ds then Err (Internal ''Dict decompression: index out of bounds'')
            else Ok (slice_at (dict_idx * 8) 8 (concat ds))) Panic doff [0..<cnt] out
      = Ok (write_at (doff * 8) (slice_at (off * 8) (cnt * 8) src) out)"
    using r by (intro emit_slices) auto
  then show ?thesis
    using False le ds(1) unfolding dict_decompress_def count db un Let_def by auto
qed

lemma dict_block:
  assumes n: "0 < n" "n \<le> 32" and src: "length src = 32 * 8" and dst: "length dst = 4096"
  shows "\<exists>sz dst'. dict_compress m src n dst = Ok (sz, n, dst') \<and> sz \<le> 4096 \<and> length dst' = 4096
      \<and> (\<forall>page off out doff cnt. take sz page = take sz dst' \<longrightarrow> sz \<le> length page \<longrightarrow>
           off + cnt \<le> n \<longrightarrow> (doff + cnt) * 8 \<le> length out \<longrightarrow>
           dict_decompress m page off out doff cnt
             = Ok (write_at (doff * 8) (slice_at (off * 8) (cnt * 8) src) out))"
proof -
  obtain ds js where sc: "dict_scan src [0..<n] [] Map.empty [] = Ok (ds, js)" and lj: "length js = n"
    and ld: "length ds \<le> 32" "\<forall>v \<in> set ds. length v = 8"
    and ix: "\<And>p. p < n \<Longrightarrow> unat (js ! p) < length ds \<and> ds ! unat (js ! p) = slice_at (p * 8) 8 src"
    using dict_scan_spec [of "[]" Map.empty "[0..<n]" src "[]"] n src by (auto simp: scan_inv_def)
  have d0: "0 < length ds" using ix [of 0] n by auto
  let ?w = "dict_bit_width (length ds)" and ?e = "4 + length ds * 8"
  let ?hd = "le_bytes 4 (of_nat (length ds) :: u32) @ concat ds"
  define D where "D = write_at 0 ?hd dst"
  define P where "P = write_at 0 js (replicate 32 0)"
  define dst' where "dst' = take ?e D @ pack_32 P ?w (drop ?e D)"
  have w: "?w \<le> 6" using dict_bit_width_bounds(2) [OF d0 ld(1)] .
  have lh: "length ?hd = ?e" "?e \<le> 260" using length_concat_const [OF ld(2)] ld(1) by auto
  have D: "length D = 4096" "take ?e D = ?hd" using lh dst by (auto simp: D_def write_at_def)
  have P: "length P = 32" using lj n by (simp add: P_def)
  have "write_values ds 4 (write_at 0 (le_bytes 4 (of_nat (length ds) :: u32)) dst) = D"
    using write_values_eq [OF ld(2), of 4] write_at_append [of 0 "le_bytes 4 (of_nat (length ds) :: u32)" "concat ds" dst]
      dst ld(1) length_concat_const [OF ld(2)] by (simp add: D_def)
  then have c: "dict_compress m src n dst = Ok (?e + div_ceil (32 * ?w) 8, n, dst')"
    using n sc dst lh(2) by (simp add: dict_compress_def Let_def dst'_def P_def min_def del: div_ceil_bits)
  have l': "length dst' = 4096" using D(1) w P lh(2) by (simp add: dst'_def)
  have "dict_page ds js page"
    if "take (?e + div_ceil (32 * ?w) 8) page = take (?e + div_ceil (32 * ?w) 8) dst'"
      "?e + div_ceil (32 * ?w) 8 \<le> length page" for page
  proof -
    have le: "length (take ?e D) = ?e" using D(1) lh(2) by simp
    have "take ?e (take (?e + div_ceil (32 * ?w) 8) page) = take ?e (take (?e + div_ceil (32 * ?w) 8) dst')"
      using that(1) by simp
    then have "take ?e page = take ?e dst'" by (simp add: min_def)
    then have "take ?e page = ?hd" using le D(2) by (simp add: dst'_def)
    moreover have "take (div_ceil (32 * ?w) 8) (drop ?e page) = take (div_ceil (32 * ?w) 8) (pack_32 P ?w (drop ?e D))"
      using arg_cong [OF that(1), of "drop ?e"] le by (simp add: drop_take dst'_def)
    then have "unpack_32 (drop ?e page) ?w (replicate 32 0) = map (take_bit ?w) P"
      using w P D(1) lh(2) that(2) by (intro unpack_page) auto
    ultimately show ?thesis using that(2) by (simp add: dict_page_def P_def)
  qed
  then have "dict_decompress m page off out doff cnt
      = Ok (write_at (doff * 8) (slice_at (off * 8) (cnt * 8) src) out)"
    if "take (?e + div_ceil (32 * ?w) 8) page = take (?e + div_ceil (32 * ?w) 8) dst'"
      "?e + div_ceil (32 * ?w) 8 \<le> length page" "off + cnt \<le> n" "(doff + cnt) * 8 \<le> length out"
    for page off out doff cnt
    using dict_decompress_page [OF _ d0 ld, of js page src off cnt doff out m] that ix lj n src by simp
  moreover have "?e + div_ceil (32 * ?w) 8 \<le> 4096" using w lh(2) by simp
  ultimately show ?thesis using c l' by blast
qed

interpretation dict: block_codec 8 "\<lambda>_ _ _. True" dict_compress dict_decompress
  by unfold_locales (simp_all only: dict_block zero_less_numeral)

end
