(* ===== verification/Column_Ops.thy ===== *)
theory Column_Ops
  imports Column_Cell Rle_Codec Dict_Codec
begin

text \<open>
  The operations of a column (\<open>storage/column.rs\<close>) on one row: null bits, reading and appending a value,
  and the lists and structs made of child columns. The ALP codec of floating point columns is the
  argument \<open>alp\<close>, and \<open>dbg\<close> the debug formatter used to compare values of different kinds.
\<close>

section \<open>Null bits\<close>

definition is_null :: "col \<Rightarrow> u64 \<Rightarrow> col_env \<Rightarrow> bool" where
  "is_null c row_id env =
     (case pending_nulls c (tx_id (txn env)) of
        Some entries \<Rightarrow>
          (case find (\<lambda>e. fst e = row_id) (rev entries) of
             Some (_, v) \<Rightarrow> v \<noteq> 0
           | None \<Rightarrow> read_pinned_page (null_fh c, row_id div 4096) env ! unat (row_id mod 4096) \<noteq> 0)
      | None \<Rightarrow> read_pinned_page (null_fh c, row_id div 4096) env ! unat (row_id mod 4096) \<noteq> 0)"

definition pad64 :: "byte list \<Rightarrow> byte list" where
  "pad64 bs = write_at 0 bs (replicate 64 0)"

definition null_mod :: "col \<Rightarrow> u64 \<times> byte \<Rightarrow> page_row_mod" where
  "null_mod c e =
     \<lparr>prm_file_id = null_fh c, prm_page_idx = fst e div 4096, prm_row_id = fst e, element_size = 1,
      values_per_page = 4096, row_data = pad64 [snd e], overflow_row_data = None\<rparr>"

text \<open>One null page; the pages are taken in the order of their first entry.\<close>

definition write_null_page :: "col \<Rightarrow> (u64 \<times> byte) list \<Rightarrow> u64 \<Rightarrow> col_env \<Rightarrow> col_env" where
  "write_null_page c pending page_idx env =
     (let key = (null_fh c, page_idx);
          env = own_page key (with_page (null_fh c) page_idx env);
          env = fold (\<lambda>(r, v). poke_bytes key (unat (r mod 4096)) [v]) (filter (\<lambda>(r, v). r div 4096 = page_idx) pending) env
      in log_page key env)"

definition write_null_entries :: "col \<Rightarrow> (u64 \<times> byte) list \<Rightarrow> col_env \<Rightarrow> col_env" where
  "write_null_entries c pending env =
     (let env = (if is_read_only (txn env) then env else fold (\<lambda>e. record_mod (null_mod c e)) pending env)
      in fold (write_null_page c pending) (remdups (map (\<lambda>(r, v). r div 4096) pending)) env)"

definition PENDING_NULLS_FLUSH_THRESHOLD :: nat where
  "PENDING_NULLS_FLUSH_THRESHOLD = 100000"

definition set_null :: "col \<Rightarrow> u64 \<Rightarrow> bool \<Rightarrow> col_env \<Rightarrow> col \<times> col_env" where
  "set_null c row_id b env =
     (let t = tx_id (txn env);
          entry = (case pending_nulls c t of None \<Rightarrow> [] | Some es \<Rightarrow> es) @ [(row_id, if b then 1 else 0)];
          c = c\<lparr>dirty := True\<rparr>
      in if PENDING_NULLS_FLUSH_THRESHOLD \<le> length entry
         then (c\<lparr>pending_nulls := (pending_nulls c)(t \<mapsto> [])\<rparr>, write_null_entries c entry env)
         else (c\<lparr>pending_nulls := (pending_nulls c)(t \<mapsto> entry)\<rparr>, env))"

definition flush_pending_nulls :: "col \<Rightarrow> col_env \<Rightarrow> col \<times> col_env" where
  "flush_pending_nulls c env =
     (let t = tx_id (txn env);
          pending = (case pending_nulls c t of None \<Rightarrow> [] | Some es \<Rightarrow> es);
          c = c\<lparr>pending_nulls := (pending_nulls c)(t := None)\<rparr>
      in if pending = [] then (c, env) else (c, write_null_entries c pending env))"

section \<open>One value\<close>

definition get_alg :: "compress_fn \<times> decompress_fn \<Rightarrow> compression_type \<Rightarrow> nat \<Rightarrow> compress_fn \<times> decompress_fn" where
  "get_alg alp t es =
     (case t of
        ConstantT \<Rightarrow> (constant_compress, constant_decompress)
      | RleT \<Rightarrow> (rle_compress, rle_decompress)
      | IntegerBitpackingT \<Rightarrow> (integer_bitpacking_compress, integer_bitpacking_decompress)
      | DictT \<Rightarrow> (dict_compress, dict_decompress)
      | AlpT \<Rightarrow> alp
      | FixedFrameOfReferenceT \<Rightarrow> (delta_compress, delta_decompress)
      | UncompressedT \<Rightarrow> (uncompressed_compress es, uncompressed_decompress es)
      | BooleanBitpackingT \<Rightarrow> (uncompressed_compress es, uncompressed_decompress es))"

definition col_compression :: "col \<Rightarrow> compression_type" where
  "col_compression c = (case compression_meta (col_stats c) of Some m \<Rightarrow> compression m | None \<Rightarrow> UncompressedT)"

definition rows_per_page :: "col \<Rightarrow> u64" where
  "rows_per_page c = of_nat (4096 div col_size c)"

text \<open>The uncompressed cell of a row.\<close>

definition read_cell :: "col \<Rightarrow> u64 \<Rightarrow> col_env \<Rightarrow> byte list" where
  "read_cell c row_id env =
     slice_at (unat (row_id mod rows_per_page c) * col_size c) (col_size c)
       (read_pinned_page (fh c, row_id div rows_per_page c) env)"

definition get_plain_value :: "compress_fn \<times> decompress_fn \<Rightarrow> col \<Rightarrow> u64 \<Rightarrow> col_env \<Rightarrow> val result" where
  "get_plain_value alp c row_id env =
     (case (col_compression c, compression_meta (col_stats c)) of
        (ConstantT, Some m) \<Rightarrow> Ok (min_value m)
      | (UncompressedT, _) \<Rightarrow> Ok (parse_value c (read_cell c row_id env) env)
      | (_, None) \<Rightarrow> Err Panic
      | (t, Some m) \<Rightarrow>
          bind_r (snd (get_alg alp t (col_size c)) m (read_pinned_page (fh c, row_id div 32) env) (unat (row_id mod 32))
                    (replicate (32 * col_size c) 0) 0 1)
            (\<lambda>temp. Ok (parse_value c (take (col_size c) temp) env)))"

text \<open>The first page of an overflow value, recorded with the row.\<close>

definition overflow_copy :: "col \<Rightarrow> byte list \<Rightarrow> col_env \<Rightarrow> byte list option" where
  "overflow_copy c buf env =
     (if buf ! 0 = 255 then
        (case overflow_fh c of
           None \<Rightarrow> None
         | Some f \<Rightarrow> Some (take (min (unat (from_le_bytes (slice_at 17 4 buf) :: u32)) 4096)
                       (read_pinned_page (f, from_le_bytes (slice_at 1 8 buf)) env)))
      else None)"

definition row_mod :: "col \<Rightarrow> u64 \<Rightarrow> u64 \<Rightarrow> byte list \<Rightarrow> byte list option \<Rightarrow> page_row_mod" where
  "row_mod c page_idx row_id bs ov =
     \<lparr>prm_file_id = fh c, prm_page_idx = page_idx, prm_row_id = row_id, element_size = col_size c,
      values_per_page = lay_vpp (layout c), row_data = pad64 bs, overflow_row_data = ov\<rparr>"

definition append_plain_value :: "(val \<Rightarrow> string) \<Rightarrow> col \<Rightarrow> val \<Rightarrow> u64 \<Rightarrow> col_env \<Rightarrow> (col \<times> col_env) result" where
  "append_plain_value dbg c v row_id env =
     (let es = col_size c;
          vpp = lay_vpp (layout c);
          page_idx = row_id div vpp;
          key = (fh c, page_idx);
          env = own_page key (with_page (fh c) page_idx env)
      in bind_r (serialize_value_into c v (replicate 64 0) env) (\<lambda>(buf, env).
           let env = poke_bytes key (unat (row_id mod vpp) * es) (take es buf) env
           in bind_r (mark_version (version_info c) row_id env) (\<lambda>env.
                let env = env\<lparr>txn := (txn env)\<lparr>modified_rows := modified_rows (txn env) @ [(version_info c, row_id)]\<rparr>\<rparr>;
                    env = record_mod (row_mod c page_idx row_id (take es buf) (overflow_copy c buf env)) env;
                    env = log_page key env
                in Ok (c\<lparr>atomic_num_values := atomic_num_values c + 1,
                         atomic_null_count := atomic_null_count c + (if v = NullV then 1 else 0),
                         col_stats := update_page_bounds dbg (unat page_idx) v (col_stats c)\<rparr>, env))))"

section \<open>Nested columns\<close>

datatype column = Column (info: col) (children: "column list")

definition zero_value :: val where
  "zero_value = Number 0"

text \<open>
  \<open>append_value\<close>. \<open>append_list\<close> and \<open>append_fields\<close> are its loops over the elements of a list and the fields
  of a struct. A missing child column is an index panic.
\<close>

fun append_value :: "(val \<Rightarrow> string) \<Rightarrow> column \<Rightarrow> val \<Rightarrow> u64 \<Rightarrow> col_env \<Rightarrow> (column \<times> col_env) result"
  and append_list :: "(val \<Rightarrow> string) \<Rightarrow> column \<Rightarrow> val list \<Rightarrow> u64 \<Rightarrow> col_env \<Rightarrow> (column \<times> col_env) result"
  and append_fields :: "(val \<Rightarrow> string) \<Rightarrow> column list \<Rightarrow> (string \<times> val) list \<Rightarrow> u64 \<Rightarrow> col_env \<Rightarrow> (column list \<times> col_env) result"
where
  "append_value dbg (Column c cs) v row_id env =
     bind_r (ensure_writable c) (\<lambda>_.
       let (c, env) = set_null (c\<lparr>dirty := True\<rparr>) row_id (v = NullV) env
       in if v = NullV then
            (let (c, env) = flush_pending_nulls c env;
                 c = c\<lparr>atomic_null_count := atomic_null_count c + 1\<rparr>
             in bind_r (append_plain_value dbg c zero_value row_id env) (\<lambda>(c, env). Ok (Column c cs, env)))
          else
            (case data_type c of
               ListT _ \<Rightarrow>
                 (case v of
                    ListV elements \<Rightarrow>
                      (case cs of
                         [] \<Rightarrow> Err Panic
                       | Column ch chs # rest \<Rightarrow>
                           (let n = atomic_num_values ch;
                                k = of_nat (length elements)
                            in bind_r (append_list dbg (Column (ch\<lparr>atomic_num_values := n + k\<rparr>) chs) elements n env)
                                 (\<lambda>(child, env).
                                   let ch = info child;
                                       child = Column (ch\<lparr>atomic_num_values := atomic_num_values ch - k\<rparr>) (children child)
                                   in bind_r (append_plain_value dbg c (Number (u64_to_f64 (n + k))) row_id env)
                                        (\<lambda>(c, env). Ok (Column c (child # rest), env)))))
                  | _ \<Rightarrow> Ok (Column c cs, env))
             | StructT _ \<Rightarrow>
                 (case v of
                    StructV vals \<Rightarrow>
                      bind_r (append_fields dbg cs vals row_id env) (\<lambda>(cs, env). Ok (Column c cs, env))
                  | _ \<Rightarrow> Ok (Column c cs, env))
             | _ \<Rightarrow> bind_r (append_plain_value dbg c v row_id env) (\<lambda>(c, env). Ok (Column c cs, env))))"
| "append_list dbg child [] row_id env = Ok (child, env)"
| "append_list dbg child (v # vs) row_id env =
     bind_r (append_value dbg child v row_id env) (\<lambda>(child, env). append_list dbg child vs (row_id + 1) env)"
| "append_fields dbg cs [] row_id env = Ok (cs, env)"
| "append_fields dbg [] (f # fs) row_id env = Err Panic"
| "append_fields dbg (c # cs) ((_, v) # fs) row_id env =
     bind_r (append_value dbg c v row_id env) (\<lambda>(c, env).
       bind_r (append_fields dbg cs fs row_id env) (\<lambda>(cs, env). Ok (c # cs, env)))"

declare append_value.simps [simp del]

text \<open>The list offsets are stored as numbers; the row before the first starts at 0.\<close>

fun get_value :: "compress_fn \<times> decompress_fn \<Rightarrow> column \<Rightarrow> u64 \<Rightarrow> col_env \<Rightarrow> val result"
  and get_fields :: "compress_fn \<times> decompress_fn \<Rightarrow> column list \<Rightarrow> u64 \<Rightarrow> col_env \<Rightarrow> (string \<times> val) list result"
where
  "get_value alp (Column c cs) row_id env =
     (if is_null c row_id env then Ok NullV
      else
        (case data_type c of
           ListT _ \<Rightarrow>
             bind_r (get_plain_value alp c row_id env) (\<lambda>e.
               bind_r (if row_id = 0 then Ok 0
                       else bind_r (get_plain_value alp c (row_id - 1) env) (\<lambda>s. Ok (f64_to_u64 (as_number s)))) (\<lambda>start.
                 (let stop = f64_to_u64 (as_number e)
                  in case cs of
                       [] \<Rightarrow> if unat start < unat stop then Err Panic else Ok (ListV [])
                     | child # _ \<Rightarrow>
                         bind_r (fold_r (\<lambda>i acc. bind_r (get_value alp child (of_nat i) env) (\<lambda>v. Ok (acc @ [v])))
                                   [unat start..<unat stop] [])
                           (\<lambda>vs. Ok (ListV vs)))))
         | StructT _ \<Rightarrow> bind_r (get_fields alp cs row_id env) (\<lambda>fs. Ok (StructV fs))
         | _ \<Rightarrow> get_plain_value alp c row_id env))"
| "get_fields alp [] row_id env = Ok []"
| "get_fields alp (c # cs) row_id env =
     bind_r (get_value alp c row_id env) (\<lambda>v.
       bind_r (get_fields alp cs row_id env) (\<lambda>fs. Ok ((col_name (info c), v) # fs)))"

declare get_value.simps [simp del]

end
