(* ===== verification/Cell_Roundtrip.thy ===== *)
theory Cell_Roundtrip
  imports Column_Cell
begin

text \<open>
  What the byte form of a value guarantees: writing touches only the cell, a value of the kind of the column
  reads back as it was, and long strings are rebuilt from their overflow pages.
\<close>

section \<open>Pages\<close>

text \<open>Pages have 4096 bytes, and what lies past the end of a file reads as zeros.\<close>

definition pages_ok :: "col_env \<Rightarrow> bool" where
  "pages_ok env \<longleftrightarrow> (\<forall>key. length (stored (fs_disk (store env)) key) = 4096
     \<and> (\<not> snd key < file_pages (store env) (fst key) \<longrightarrow> stored (fs_disk (store env)) key = zero_page))"

lemma length_zero_page [simp]: "length zero_page = 4096"
  by (simp add: zero_page_def PAGE_SIZE_def)

lemma length_read_page: "pages_ok env \<Longrightarrow> length (read_pinned_page key env) = 4096"
  by (simp add: read_pinned_page_def load_page_def read_page_def pages_ok_def)

lemma read_stored: "pages_ok env \<Longrightarrow> read_pinned_page key env = stored (fs_disk (store env)) key"
  by (simp add: read_pinned_page_def load_page_def read_page_def pages_ok_def file_pages_def)

definition in_file :: "page_key \<Rightarrow> col_env \<Rightarrow> bool" where
  "in_file key env \<longleftrightarrow> snd key < file_pages (store env) (fst key)"

lemma read_put_page:
  "read_pinned_page k (put_page key bs env) = (if k = key \<and> in_file key env then bs else read_pinned_page k env)"
  by (simp add: read_pinned_page_def put_page_def load_page_def write_page_def read_page_def in_file_def file_pages_def)

lemma env_put_page [simp]:
  "file_pages (store (put_page key bs env)) = file_pages (store env)" "txn (put_page key bs env) = txn env"
  "free_list f (store (put_page key bs env)) = free_list f (store env)"
  "row_versions (put_page key bs env) = row_versions env" "in_file k (put_page key bs env) = in_file k env"
  by (simp_all add: put_page_def write_page_def file_pages_def free_list_def in_file_def fun_eq_iff)

lemma pages_ok_put_page: "pages_ok env \<Longrightarrow> length bs = 4096 \<Longrightarrow> in_file key env \<Longrightarrow> pages_ok (put_page key bs env)"
  by (simp add: pages_ok_def put_page_def write_page_def in_file_def file_pages_def)

lemma env_poke [simp]:
  "file_pages (store (poke_bytes key off bs env)) = file_pages (store env)" "txn (poke_bytes key off bs env) = txn env"
  "free_list f (store (poke_bytes key off bs env)) = free_list f (store env)"
  "row_versions (poke_bytes key off bs env) = row_versions env" "in_file k (poke_bytes key off bs env) = in_file k env"
  by (simp_all add: poke_bytes_def)

lemma read_poke:
  "read_pinned_page k (poke_bytes key off bs env)
     = (if k = key \<and> in_file key env then write_at off bs (read_pinned_page key env) else read_pinned_page k env)"
  by (simp add: poke_bytes_def read_put_page)

lemma pages_ok_poke: "pages_ok env \<Longrightarrow> off + length bs \<le> 4096 \<Longrightarrow> in_file key env \<Longrightarrow> pages_ok (poke_bytes key off bs env)"
  unfolding poke_bytes_def by (rule pages_ok_put_page) (simp_all add: length_read_page)

lemma env_own [simp]:
  "store (own_page key env) = store env" "read_pinned_page k (own_page key env) = read_pinned_page k env"
  "in_file k (own_page key env) = in_file k env" "pages_ok (own_page key env) = pages_ok env"
  "row_versions (own_page key env) = row_versions env" "tx_id (txn (own_page key env)) = tx_id (txn env)"
  "read_ts (txn (own_page key env)) = read_ts (txn env)" "is_read_only (txn (own_page key env)) = is_read_only (txn env)"
  by (simp_all add: own_page_def read_pinned_page_def in_file_def pages_ok_def)

lemma env_log [simp]:
  "store (log_page key env) = store env" "read_pinned_page k (log_page key env) = read_pinned_page k env"
  "in_file k (log_page key env) = in_file k env" "pages_ok (log_page key env) = pages_ok env"
  "row_versions (log_page key env) = row_versions env" "txn (log_page key env) = txn env"
  by (simp_all add: log_page_def read_pinned_page_def in_file_def pages_ok_def)

section \<open>Overflow pages\<close>

lemma write_overflow_page_store:
  "file_pages (store (write_overflow_page f p data k env)) = file_pages (store env)"
  "free_list g (store (write_overflow_page f p data k env)) = free_list g (store env)"
  by (simp_all add: write_overflow_page_def Let_def)

lemma write_overflow_page_ok:
  "pages_ok env \<Longrightarrow> in_file (f, p + of_nat k) env \<Longrightarrow> pages_ok (write_overflow_page f p data k env)"
  by (simp add: write_overflow_page_def Let_def pages_ok_poke)

lemma read_write_overflow_page:
  assumes "pages_ok env" "in_file (f, p + of_nat k) env" "k * 4096 < length data"
  shows "read_pinned_page key (write_overflow_page f p data k env)
    = (if key = (f, p + of_nat k)
       then slice_at (k * 4096) 4096 data @ drop (length data - k * 4096) (read_pinned_page key env)
       else read_pinned_page key env)"
proof -
  let ?n = "min (k * 4096 + 4096) (length data) - k * 4096"
  have n: "slice_at (k * 4096) ?n data = slice_at (k * 4096) 4096 data" "length (slice_at (k * 4096) 4096 data) = ?n"
    by (auto simp: slice_at_def min_def)
  have "drop ?n (read_pinned_page key env) = drop (length data - k * 4096) (read_pinned_page key env)"
    using length_read_page [OF assms(1), of key] by (auto simp: min_def)
  then show ?thesis
    using assms(2,3) n by (auto simp: write_overflow_page_def Let_def read_poke write_at_def)
qed

lemma overflow_page_count_ge: "length data \<le> overflow_page_count data * 4096"
proof -
  have "(length data + 4095) div 4096 * 4096 + (length data + 4095) mod 4096 = length data + 4095"
    "(length data + 4095) mod 4096 < 4096" by simp_all
  then have "length data \<le> ((length data + 4095) div 4096) * 4096" by linarith
  then show ?thesis unfolding overflow_page_count_def by (rule order.trans) simp
qed

lemma overflow_page_count_lt: "data \<noteq> [] \<Longrightarrow> k < overflow_page_count data \<Longrightarrow> k * 4096 < length data"
proof -
  assume d: "data \<noteq> []" and k: "k < overflow_page_count data"
  have "k * 4096 < length data" if "k < (length data + 4095) div 4096"
  proof -
    have "(k + 1) * 4096 \<le> (length data + 4095) div 4096 * 4096" using that by (intro mult_le_mono1) simp
    also have "\<dots> \<le> length data + 4095" by simp
    finally show ?thesis by simp
  qed
  then show ?thesis using d k by (cases "k = 0") (auto simp: overflow_page_count_def max_def split: if_splits)
qed

text \<open>The write loop of a value lays its bytes out over consecutive pages.\<close>

definition overflow_laid :: "u64 \<Rightarrow> u64 \<Rightarrow> byte list \<Rightarrow> nat \<Rightarrow> col_env \<Rightarrow> bool" where
  "overflow_laid f p data n env \<longleftrightarrow> (\<forall>k < n. \<exists>rest. read_pinned_page (f, p + of_nat k) env = slice_at (k * 4096) 4096 data @ rest)"

lemma of_nat_page_inject:
  assumes "unat p + n < 2 ^ 64" "k < n" "j < n" "p + of_nat k = (p + of_nat j :: u64)"
  shows "k = j"
  using arg_cong [OF assms(4), of unat] unat_plus_of_nat [of p k] unat_plus_of_nat [of p j] assms(1-3) by simp

text \<open>The effects on the transaction that a cell write may have.\<close>

definition quiet :: "col_env \<Rightarrow> col_env \<Rightarrow> bool" where
  "quiet env env' \<longleftrightarrow> row_versions env' = row_versions env \<and> (\<exists>mp. txn env' = (txn env)\<lparr>modified_pages := mp\<rparr>)"

lemma quiet_refl [simp]: "quiet env env"
  unfolding quiet_def by (intro conjI refl exI [of _ "modified_pages (txn env)"]) simp

lemma quiet_trans [trans]: "quiet a b \<Longrightarrow> quiet b c \<Longrightarrow> quiet a c"
  by (auto simp: quiet_def)

lemma quiet_overflow_page [simp]: "quiet env (write_overflow_page f p data k env)"
  by (auto simp: quiet_def write_overflow_page_def Let_def own_page_def)

lemma write_overflow_fold:
  assumes ok: "pages_ok env" and n: "n = overflow_page_count data" "unat p + n < 2 ^ 64" and d: "data \<noteq> []"
    and inf: "\<And>k. k < n \<Longrightarrow> in_file (f, p + of_nat k) env"
  shows "m \<le> n \<Longrightarrow> let env' = fold (write_overflow_page f p data) [0..<m] env
    in pages_ok env' \<and> file_pages (store env') = file_pages (store env) \<and> (\<forall>g. free_list g (store env') = free_list g (store env))
      \<and> quiet env env' \<and> overflow_laid f p data m env'
      \<and> (\<forall>key. (\<forall>k < m. key \<noteq> (f, p + of_nat k)) \<longrightarrow> read_pinned_page key env' = read_pinned_page key env)"
proof (induction m)
  case 0
  then show ?case using ok by (simp add: overflow_laid_def)
next
  case (Suc m)
  let ?e = "fold (write_overflow_page f p data) [0..<m] env"
  have IH: "pages_ok ?e" "file_pages (store ?e) = file_pages (store env)" "\<And>g. free_list g (store ?e) = free_list g (store env)"
    "quiet env ?e" "overflow_laid f p data m ?e"
    "\<And>key. (\<forall>k < m. key \<noteq> (f, p + of_nat k)) \<Longrightarrow> read_pinned_page key ?e = read_pinned_page key env"
    using Suc by (auto simp: Let_def)
  have m: "m < n" "m * 4096 < length data" using Suc.prems n d overflow_page_count_lt by auto
  have im: "in_file (f, p + of_nat m) ?e" using inf [OF m(1)] IH(2) by (simp add: in_file_def)
  note rd = read_write_overflow_page [OF IH(1) im m(2)]
  have ne: "(f, p + of_nat k) \<noteq> (f, p + of_nat m)" if "k < m" for k
    using of_nat_page_inject [OF n(2), of k m] that m(1) by auto
  have "overflow_laid f p data (Suc m) (write_overflow_page f p data m ?e)"
    using IH(5) ne by (auto simp: overflow_laid_def rd less_Suc_eq)
  moreover have "read_pinned_page key (write_overflow_page f p data m ?e) = read_pinned_page key env"
    if "\<forall>k < Suc m. key \<noteq> (f, p + of_nat k)" for key
    using that IH(6) [of key] by (simp add: rd)
  ultimately show ?case
    using IH write_overflow_page_ok [OF IH(1) im] quiet_trans [OF IH(4) quiet_overflow_page]
    by (simp add: Let_def write_overflow_page_store)
qed

lemma add_pages:
  "free_list f st = [] \<Longrightarrow>
   ((\<lambda>st. snd (add_new_page f st)) ^^ m) st = (if m = 0 then st else set_file_pages f (file_pages st f + of_nat m) st)"
proof (induction m)
  case (Suc m)
  then show ?case
    by (auto simp: add_new_page_cases set_file_pages_def file_pages_def free_list_def add.commute add.left_commute)
qed simp

definition overflow_grown :: "u64 \<Rightarrow> byte list \<Rightarrow> col_env \<Rightarrow> col_env \<Rightarrow> bool" where
  "overflow_grown f data env env' \<longleftrightarrow>
     (let p = file_pages (store env) f; n = overflow_page_count data
      in pages_ok env' \<and> file_pages (store env') = (file_pages (store env))(f := p + of_nat n)
         \<and> (\<forall>g. free_list g (store env') = free_list g (store env)) \<and> quiet env env' \<and> overflow_laid f p data n env'
         \<and> (\<forall>key. fst key \<noteq> f \<or> in_file key env \<longrightarrow> read_pinned_page key env' = read_pinned_page key env))"

lemma append_to_overflow_spec:
  assumes ok: "pages_ok env" and f: "overflow_fh c = Some f" "free_list f (store env) = []"
    and room: "unat (file_pages (store env) f) + overflow_page_count data < 2 ^ 64" and d: "data \<noteq> []"
  shows "\<exists>env'. append_to_overflow c data env = Ok (file_pages (store env) f, 0, env') \<and> overflow_grown f data env env'"
proof -
  let ?p = "file_pages (store env) f" and ?n = "overflow_page_count data"
  define st where "st = set_file_pages f (?p + of_nat ?n) (store env)"
  have n1: "0 < ?n" by (simp add: overflow_page_count_def)
  have an: "add_new_page f (store env) = (?p, set_file_pages f (?p + 1) (store env))"
    using f by (simp add: add_new_page_cases)
  have "((\<lambda>st. snd (add_new_page f st)) ^^ (?n - 1)) (set_file_pages f (?p + 1) (store env)) = st"
  proof (cases "?n = 1")
    case False
    have "?p + 1 + of_nat (?n - 1) = ?p + of_nat ?n" using n1 by (simp add: of_nat_diff)
    then show ?thesis using False n1 f by (simp add: add_pages st_def) (simp add: set_file_pages_def)
  qed (simp add: st_def)
  then have run: "append_to_overflow c data env
      = Ok (?p, 0, fold (write_overflow_page f ?p data) [0..<?n] (env\<lparr>store := st\<rparr>))"
    using f an by (simp add: append_to_overflow_def Let_def)
  let ?start = "env\<lparr>store := st\<rparr>" and ?e = "fold (write_overflow_page f ?p data) [0..<?n] (env\<lparr>store := st\<rparr>)"
  have fp: "file_pages st = (file_pages (store env))(f := ?p + of_nat ?n)" by (auto simp: st_def fun_eq_iff)
  have un: "unat (?p + of_nat k) = unat ?p + k" if "k \<le> ?n" for k using room that by (intro unat_plus_of_nat) simp
  then have "?p \<le> ?p + of_nat ?n" by (simp add: word_le_nat_alt)
  then have e0: "pages_ok ?start" using ok by (auto simp: pages_ok_def st_def split: if_splits)
  have inf: "in_file (f, ?p + of_nat k) ?start" if "k < ?n" for k
    using that un [of k] un [of ?n] by (simp add: in_file_def fp word_less_nat_alt)
  have w: "pages_ok ?e" "file_pages (store ?e) = file_pages st" "\<And>g. free_list g (store ?e) = free_list g st"
    "quiet ?start ?e" "overflow_laid f ?p data ?n ?e"
    "\<And>key. (\<forall>k < ?n. key \<noteq> (f, ?p + of_nat k)) \<Longrightarrow> read_pinned_page key ?e = read_pinned_page key ?start"
    using write_overflow_fold [OF e0 refl room d inf, of ?n] by (auto simp: Let_def)
  have "read_pinned_page key ?e = read_pinned_page key env" if "fst key \<noteq> f \<or> in_file key env" for key
  proof -
    have "key \<noteq> (f, ?p + of_nat k)" if "k < ?n" for k
      using \<open>fst key \<noteq> f \<or> in_file key env\<close> un [of k] that by (auto simp: in_file_def word_less_nat_alt)
    then have "read_pinned_page key ?e = read_pinned_page key ?start" using w(6) by blast
    moreover have "read_pinned_page key ?start = read_pinned_page key env"
    proof (cases "fst key = f")
      case True
      then have "snd key < ?p" using that by (simp add: in_file_def)
      moreover have "?p \<le> ?p + of_nat ?n" using un [of ?n] by (simp add: word_le_nat_alt)
      ultimately have "in_file key ?start" "in_file key env" using True by (auto simp: in_file_def fp)
      then show ?thesis by (simp add: read_pinned_page_def load_page_def in_file_def file_pages_def read_page_def st_def set_file_pages_def)
    next
      case False
      then show ?thesis by (simp add: read_pinned_page_def load_page_def read_page_def st_def set_file_pages_def)
    qed
    ultimately show ?thesis by simp
  qed
  moreover have "quiet env ?e" using w(4) by (auto simp: quiet_def)
  moreover have "\<And>g. free_list g st = free_list g (store env)" by (simp add: st_def)
  ultimately have "overflow_grown f data env ?e"
    using w fp by (simp add: overflow_grown_def Let_def)
  then show ?thesis using run by blast
qed

lemma read_overflow_laid:
  assumes laid: "overflow_laid f p data n env" and n: "n = overflow_page_count data" "unat p + n \<le> unat N"
    and ok: "pages_ok env"
  shows "j \<le> n \<Longrightarrow> read_overflow f N (unat p * 4096 + j * 4096) (length data - j * 4096) env = drop (j * 4096) data"
proof (induction "n - j" arbitrary: j rule: less_induct)
  case less
  show ?case
  proof (cases "length data \<le> j * 4096")
    case True
    then show ?thesis by (simp add: read_overflow.simps)
  next
    case False
    then have "j * 4096 < n * 4096" using overflow_page_count_ge [of data] n(1) by linarith
    then have j: "j < n" by simp
    let ?r = "length data - j * 4096" and ?pos = "unat p * 4096 + j * 4096"
    have "?pos = (unat p + j) * 4096" by (simp add: distrib_right)
    then have dm: "?pos div 4096 = unat p + j" "?pos mod 4096 = 0" by simp_all
    have "of_nat (unat p + j) = p + of_nat j" by simp
    then obtain rest where pg: "read_pinned_page (f, of_nat (unat p + j)) env = slice_at (j * 4096) 4096 data @ rest"
      using laid j by (auto simp: overflow_laid_def)
    have len: "length (read_pinned_page (f, of_nat (unat p + j)) env) = 4096" using length_read_page [OF ok] .
    let ?c = "min ?r 4096"
    have sl: "slice_at 0 ?c (read_pinned_page (f, of_nat (unat p + j)) env) = slice_at (j * 4096) 4096 data"
      unfolding pg by (simp add: slice_at_def min_def)
    have "read_overflow f N ?pos ?r env
        = slice_at (j * 4096) 4096 data @ read_overflow f N (?pos + ?c) (?r - ?c) env"
      using False j n(2) len sl by (subst read_overflow.simps) (simp add: Let_def dm)
    also have "read_overflow f N (?pos + ?c) (?r - ?c) env = drop (Suc j * 4096) data"
    proof (cases "?r \<le> 4096")
      case True
      then show ?thesis by (simp add: read_overflow.simps)
    next
      case False
      then have "read_overflow f N (?pos + ?c) (?r - ?c) env
          = read_overflow f N (unat p * 4096 + Suc j * 4096) (length data - Suc j * 4096) env"
        by (simp add: min_def algebra_simps)
      also have "\<dots> = drop (Suc j * 4096) data" using less.hyps [of "Suc j"] j by simp
      finally show ?thesis .
    qed
    also have "slice_at (j * 4096) 4096 data @ drop (Suc j * 4096) data = drop (j * 4096) data"
      by (simp add: slice_at_def add.commute flip: drop_drop)
    finally show ?thesis .
  qed
qed

section \<open>Values\<close>

text \<open>The values a column of each type stores exactly.\<close>

definition storable :: "col \<Rightarrow> val \<Rightarrow> bool" where
  "storable c v =
     (case data_type c of
        Int64T \<Rightarrow> \<exists>i. v = Number (int_to_f64 i) \<and> \<bar>i\<bar> \<le> 2 ^ 53
      | Int32T \<Rightarrow> \<exists>w. v = Number (int_to_f64 (sint (w :: u32)))
      | Uint64T \<Rightarrow> \<exists>i. v = Node i
      | NodeT _ \<Rightarrow> \<exists>i. v = Node i
      | DoubleT \<Rightarrow> \<exists>n. v = Number n
      | FloatT \<Rightarrow> \<exists>n. v = Number n
      | BoolT \<Rightarrow> \<exists>b. v = Boolean b
      | DateT \<Rightarrow> \<exists>d. v = Date d
      | TimestampT \<Rightarrow> \<exists>t. v = Timestamp t
      | StringT \<Rightarrow> \<exists>s. v = StringV s \<and> valid_string s \<and> length s < 2 ^ 32 \<and> (length s < 64 \<or> overflow_fh c \<noteq> None)
      | _ \<Rightarrow> False)"

text \<open>The overflow file has room for the value, and no page of it is free.\<close>

definition overflow_room :: "col \<Rightarrow> val \<Rightarrow> col_env \<Rightarrow> bool" where
  "overflow_room c v env =
     (case (v, overflow_fh c) of
        (StringV s, Some f) \<Rightarrow> free_list f (store env) = []
           \<and> unat (file_pages (store env) f) + overflow_page_count (as_bytes s) < 2 ^ 64
      | _ \<Rightarrow> True)"

text \<open>What a cell write leaves alone.\<close>

definition cell_frame :: "col \<Rightarrow> col_env \<Rightarrow> col_env \<Rightarrow> bool" where
  "cell_frame c env env' \<longleftrightarrow> pages_ok env' \<and> quiet env env'
     \<and> (\<forall>g. free_list g (store env') = free_list g (store env))
     \<and> (\<forall>g. Some g \<noteq> overflow_fh c \<longrightarrow> file_pages (store env') g = file_pages (store env) g)
     \<and> (\<forall>g. file_pages (store env) g \<le> file_pages (store env') g)
     \<and> (\<forall>key. Some (fst key) \<noteq> overflow_fh c \<or> in_file key env \<longrightarrow> read_pinned_page key env' = read_pinned_page key env)"

lemma cell_frame_refl: "pages_ok env \<Longrightarrow> cell_frame c env env"
  by (simp add: cell_frame_def)

lemma take_write_at_0 [simp]: "length bs = n \<Longrightarrow> take n (write_at 0 bs xs) = bs"
  by (simp add: write_at_def)

text \<open>Later states in which the overflow pages of the column are still as they were.\<close>

definition overflow_ext :: "col \<Rightarrow> col_env \<Rightarrow> col_env \<Rightarrow> bool" where
  "overflow_ext c env e \<longleftrightarrow> pages_ok e \<and> (\<forall>f. overflow_fh c = Some f \<longrightarrow>
     file_pages (store env) f \<le> file_pages (store e) f
     \<and> (\<forall>p < file_pages (store env) f. read_pinned_page (f, p) e = read_pinned_page (f, p) env))"

definition holds_value :: "col \<Rightarrow> byte list \<Rightarrow> val \<Rightarrow> col_env \<Rightarrow> bool" where
  "holds_value c data v env \<longleftrightarrow> (\<forall>e. overflow_ext c env e \<longrightarrow> parse_value c data e = v)"

lemma holds_value_parse: "pages_ok env \<Longrightarrow> holds_value c data v env \<Longrightarrow> parse_value c data env = v"
  by (simp add: holds_value_def overflow_ext_def)

lemma overflow_ext_trans: "overflow_ext c env e \<Longrightarrow> overflow_ext c e e' \<Longrightarrow> overflow_ext c env e'"
  by (auto simp: overflow_ext_def)

lemma holds_value_ext: "holds_value c data v env \<Longrightarrow> overflow_ext c env e \<Longrightarrow> holds_value c data v e"
  using overflow_ext_trans by (auto simp: holds_value_def)

lemma overflow_ext_frame: "cell_frame c env env' \<Longrightarrow> overflow_ext c env env'"
  by (auto simp: cell_frame_def overflow_ext_def in_file_def)

lemma serialize_short:
  assumes "length buf = 64" "pages_ok env" "length bs = col_size c"
    "serialize_value_into c v buf env = Ok (write_at 0 bs buf, env)" "\<And>e. parse_value c bs e = v"
  shows "\<exists>buf' env'. serialize_value_into c v buf env = Ok (buf', env') \<and> length buf' = 64 \<and> cell_frame c env env'
    \<and> holds_value c (take (col_size c) buf') v env'"
proof -
  have "col_size c \<le> 64" by (simp add: type_size_def split: logical_type.splits)
  then have "length (write_at 0 bs buf) = 64" using assms(1,3) by simp
  then show ?thesis using assms by (auto simp: cell_frame_refl holds_value_def)
qed

lemma serialize_inline_string:
  assumes "length buf = 64" "pages_ok env" "data_type c = StringT" "valid_string s" "length s < 64"
  shows "\<exists>buf' env'. serialize_value_into c (StringV s) buf env = Ok (buf', env') \<and> length buf' = 64 \<and> cell_frame c env env'
    \<and> holds_value c (take (col_size c) buf') (StringV s) env'"
proof -
  let ?bs = "of_nat (length s) # as_bytes s" and ?b = "write_at 0 (of_nat (length s) # as_bytes s) buf"
  have tk: "take (min (length s) 63) (as_bytes s) = as_bytes s" using assms(5) by (simp add: as_bytes_def)
  have ser: "serialize_value_into c (StringV s) buf env = Ok (?b, env)"
    using assms(3,5) tk by (simp add: serialize_value_into_def Let_def)
  have len: "length ?b = 64" using assms(1,5) by (simp add: as_bytes_def)
  have b0: "unat (?b ! 0) = length s" using assms(5) by (simp add: write_at_def unat_of_nat)
  then have ne: "?b ! 0 \<noteq> 255" using assms(5) by (auto simp: word_unat_eq_iff)
  have "slice_at 1 (length s) ?b = as_bytes s" by (simp add: slice_at_def write_at_def as_bytes_def)
  then have "parse_value c ?b e = StringV s" for e
    using assms(3,4,5) ne b0 by (simp add: parse_value_def string_from_as_bytes)
  then have "holds_value c (take (col_size c) ?b) (StringV s) env"
    using len assms(3) by (simp add: holds_value_def type_size_def)
  then show ?thesis using ser len assms(2) by (auto simp: cell_frame_refl)
qed

lemma serialize_overflow_string:
  assumes buf: "length buf = 64" and ok: "pages_ok env" and t: "data_type c = StringT" and s: "valid_string s" "64 \<le> length s" "length s < 2 ^ 32"
    and f: "overflow_fh c = Some f" and room: "overflow_room c (StringV s) env"
  shows "\<exists>buf' env'. serialize_value_into c (StringV s) buf env = Ok (buf', env') \<and> length buf' = 64 \<and> cell_frame c env env'
    \<and> holds_value c (take (col_size c) buf') (StringV s) env'"
proof -
  let ?d = "as_bytes s" and ?p = "file_pages (store env) f"
  let ?n = "overflow_page_count ?d"
  have d: "?d \<noteq> []" "length ?d = length s" using s(2) by (auto simp: as_bytes_def)
  have r: "free_list f (store env) = []" "unat ?p + ?n < 2 ^ 64" using room f by (auto simp: overflow_room_def)
  obtain env' where ap: "append_to_overflow c ?d env = Ok (?p, 0, env')" and gr: "overflow_grown f ?d env env'"
    using append_to_overflow_spec [OF ok f r d(1)] by blast
  let ?h = "[255] @ le_bytes 8 ?p @ le_bytes 8 (0 :: u64) @ le_bytes 4 (of_nat (length s) :: u32)"
  let ?b = "write_at 0 ?h buf"
  have ser: "serialize_value_into c (StringV s) buf env = Ok (?b, env')"
    using t s(2) f ap by (simp add: serialize_value_into_def Let_def)
  have len: "length ?b = 64" using buf by simp
  have pn: "unat (?p + of_nat ?n) = unat ?p + ?n" using r(2) by (intro unat_plus_of_nat) simp
  have fr: "cell_frame c env env'"
    using gr f pn by (auto simp: cell_frame_def overflow_grown_def Let_def word_le_nat_alt)
  have parts: "?b ! 0 = 255" "slice_at 1 8 ?b = le_bytes 8 ?p" "slice_at 9 8 ?b = le_bytes 8 (0 :: u64)"
    "slice_at 17 4 ?b = le_bytes 4 (of_nat (length s) :: u32)"
    by (simp_all add: write_at_def slice_at_def)
  have l32: "unat (of_nat (length s) :: u32) = length s" using s(3) by (simp add: unat_of_nat)
  have "parse_value c ?b e = StringV s" if e: "overflow_ext c env' e" for e
  proof -
    have fp: "file_pages (store env') f = ?p + of_nat ?n" using gr by (simp add: overflow_grown_def Let_def)
    have ef: "?p + of_nat ?n \<le> file_pages (store e) f" "\<And>q. q < ?p + of_nat ?n \<Longrightarrow> read_pinned_page (f, q) e = read_pinned_page (f, q) env'"
      "pages_ok e" using e f fp by (auto simp: overflow_ext_def)
    have "?p + of_nat k < ?p + of_nat ?n" if "k < ?n" for k
      using that pn r(2) unat_plus_of_nat [of ?p k] by (simp add: word_less_nat_alt)
    then have "overflow_laid f ?p ?d ?n e"
      using gr ef(2) by (simp add: overflow_grown_def Let_def overflow_laid_def)
    moreover have "unat ?p + ?n \<le> unat (file_pages (store e) f)" using ef(1) pn by (simp add: word_le_nat_alt)
    ultimately have "read_overflow f (file_pages (store e) f) (unat ?p * 4096 + 0 * 4096) (length ?d - 0 * 4096) e = drop (0 * 4096) ?d"
      using read_overflow_laid [OF _ refl _ ef(3), where j = 0] by blast
    then show ?thesis
      using t f parts l32 s(1) d(2) by (simp add: parse_value_def Let_def string_from_as_bytes)
  qed
  then have "holds_value c (take (col_size c) ?b) (StringV s) env'"
    using len t by (simp add: holds_value_def type_size_def)
  then show ?thesis using ser len fr by blast
qed

lemma serialize_spec:
  assumes buf: "length buf = 64" and ok: "pages_ok env" and st: "storable c v" and room: "overflow_room c v env"
  shows "\<exists>buf' env'. serialize_value_into c v buf env = Ok (buf', env') \<and> length buf' = 64 \<and> cell_frame c env env'
    \<and> holds_value c (take (col_size c) buf') v env'"
proof -
  note short = serialize_short [OF buf ok]
  note defs = serialize_value_into_def parse_value_def type_size_def Let_def
  show ?thesis
  proof (cases "data_type c")
    case Int64T
    then obtain i where v: "v = Number (int_to_f64 i)" "\<bar>i\<bar> \<le> 2 ^ 53" using st by (auto simp: storable_def)
    then have "f64_to_i64 (int_to_f64 i) = word_of_int i" by (simp add: f64_to_i64_def f64_saturate_int)
    moreover have "sint (word_of_int i :: u64) = i" using v(2) by (simp add: sint_sbintrunc' signed_take_bit_int_eq_self)
    ultimately show ?thesis using Int64T v by (intro short [where bs = "le_bytes 8 (word_of_int i :: u64)"]) (simp_all add: defs)
  next
    case Int32T
    then obtain w :: u32 where "v = Number (int_to_f64 (sint w))" using st by (auto simp: storable_def)
    then show ?thesis using Int32T by (intro short [where bs = "le_bytes 4 w"]) (simp_all add: defs i32_f64_i32)
  next
    case Uint64T
    then obtain i where "v = Node i" using st by (auto simp: storable_def)
    then show ?thesis using Uint64T by (intro short [where bs = "le_bytes 8 i"]) (simp_all add: defs)
  next
    case (NodeT fs)
    then obtain i where "v = Node i" using st by (auto simp: storable_def)
    then show ?thesis using NodeT by (intro short [where bs = "le_bytes 8 i"]) (simp_all add: defs)
  next
    case DoubleT
    then obtain n where "v = Number n" using st by (auto simp: storable_def)
    then show ?thesis using DoubleT by (intro short [where bs = "le_bytes 8 n"]) (simp_all add: defs)
  next
    case FloatT
    then obtain n where "v = Number n" using st by (auto simp: storable_def)
    then show ?thesis using FloatT by (intro short [where bs = "le_bytes 8 n"]) (simp_all add: defs)
  next
    case BoolT
    then obtain b where "v = Boolean b" using st by (auto simp: storable_def)
    then show ?thesis using BoolT by (intro short [where bs = "[if b then 1 else 0]"]) (simp_all add: defs)
  next
    case DateT
    then obtain d where "v = Date d" using st by (auto simp: storable_def)
    then show ?thesis using DateT by (intro short [where bs = "le_bytes 4 d"]) (simp_all add: defs)
  next
    case TimestampT
    then obtain d where "v = Timestamp d" using st by (auto simp: storable_def)
    then show ?thesis using TimestampT by (intro short [where bs = "le_bytes 8 d"]) (simp_all add: defs)
  next
    case StringT
    then obtain s where s: "v = StringV s" "valid_string s" "length s < 2 ^ 32" "length s < 64 \<or> overflow_fh c \<noteq> None"
      using st by (auto simp: storable_def)
    show ?thesis
    proof (cases "length s < 64")
      case True
      then show ?thesis using serialize_inline_string [OF buf ok StringT s(2)] s(1) by blast
    next
      case False
      then obtain f where "overflow_fh c = Some f" using s(4) by auto
      then show ?thesis
        using serialize_overflow_string [OF buf ok StringT s(2) _ s(3)] False room s(1) by simp
    qed
  qed (use st in \<open>simp_all add: storable_def\<close>)
qed

section \<open>Properties\<close>

text \<open>
  C9 [cell_roundtrip]. A value that fits the type of the column is written into a cell without an error and
  reads back as it was: exact integers up to 2 to the power 53, node ids, doubles, booleans, dates, time
  stamps and well-formed strings of any length below 4 GiB, which move to consecutive overflow pages when
  they have 64 bytes or more. It still reads back after any later operation that leaves the overflow pages
  alone, and the write touches nothing but new overflow pages.
\<close>

theorem cell_roundtrip:
  assumes "pages_ok env" "storable c v" "overflow_room c v env" "length buf = 64"
  shows "\<exists>buf' env'. serialize_value_into c v buf env = Ok (buf', env')
    \<and> parse_value c (take (type_size (data_type c)) buf') env' = v
    \<and> (\<forall>e. overflow_ext c env' e \<longrightarrow> parse_value c (take (type_size (data_type c)) buf') e = v)
    \<and> (\<forall>key. in_file key env \<longrightarrow> read_pinned_page key env' = read_pinned_page key env)"
proof -
  obtain buf' env' where s: "serialize_value_into c v buf env = Ok (buf', env')" "cell_frame c env env'"
    "holds_value c (take (type_size (data_type c)) buf') v env'"
    using serialize_spec [OF assms(4,1,2,3)] by blast
  moreover have "pages_ok env'" using s(2) by (simp add: cell_frame_def)
  ultimately show ?thesis
    using holds_value_parse by (intro exI [of _ buf'] exI [of _ env']) (auto simp: cell_frame_def holds_value_def)
qed

definition example_store :: "u64 \<Rightarrow> col_env" where
  "example_store n = \<lparr>store = \<lparr>fs_disk = \<lparr>num_pages = (\<lambda>_. n), stored = (\<lambda>_. zero_page)\<rparr>, free_pages = Map.empty\<rparr>,
     row_versions = (\<lambda>_. new_row_version), txn = new_transaction 1 False 0, page_log = []\<rparr>"

lemma pages_ok_example: "pages_ok (example_store n)"
  by (simp add: pages_ok_def example_store_def)

theorem cell_roundtrip_witness:
  "\<exists>buf' env'. serialize_value_into (new_col ''name'' StringT 1 2 (Some 3) 0) (StringV (replicate 5000 CHR ''a''))
       (replicate 64 0) (example_store 0) = Ok (buf', env')
     \<and> parse_value (new_col ''name'' StringT 1 2 (Some 3) 0) (take 64 buf') env' = StringV (replicate 5000 CHR ''a'')"
proof -
  let ?c = "new_col ''name'' StringT 1 2 (Some 3) 0" and ?s = "replicate 5000 CHR ''a''"
  have "utf8_valid (replicate n (97 :: nat))" for n
  proof (induction n)
    case (Suc n)
    then show ?case by (subst utf8_valid.simps) (simp add: utf8_head_def)
  qed (simp add: utf8_valid.simps)
  from this [of 5000] have "valid_string ?s" unfolding valid_string_def map_replicate by (simp add: of_char_def)
  then have st: "storable ?c (StringV ?s)" by (simp add: storable_def new_col_def)
  have "overflow_room ?c (StringV ?s) (example_store 0)"
    by (simp add: overflow_room_def new_col_def example_store_def free_list_def file_pages_def overflow_page_count_def as_bytes_def)
  moreover have "type_size (data_type ?c) = 64" by (simp add: new_col_def type_size_def)
  ultimately show ?thesis using cell_roundtrip [OF pages_ok_example st, of 0 "replicate 64 0"] by auto
qed

end
