(* ===== verification/Column_Rows.thy ===== *)
theory Column_Rows
  imports Column_Ops Cell_Roundtrip
begin

text \<open>
  The rows of a column of a plain type: cells of different rows never overlap, a row that is written reads
  back, and the other rows, their null bits and their overflow pages stay as they are.
\<close>

section \<open>Layout\<close>

lemma type_size_cases: "type_size t = 1 \<or> type_size t = 4 \<or> type_size t = 8 \<or> type_size t = 64"
  by (simp add: type_size_def split: logical_type.splits)

lemma rows_per_page_cases:
  "col_size c = 1 \<and> unat (rows_per_page c) = 4096 \<or> col_size c = 4 \<and> unat (rows_per_page c) = 1024
   \<or> col_size c = 8 \<and> unat (rows_per_page c) = 512 \<or> col_size c = 64 \<and> unat (rows_per_page c) = 64"
  using type_size_cases [of "data_type c"] by (auto simp: rows_per_page_def)

lemma lay_vpp_layout [simp]: "lay_vpp (layout c) = rows_per_page c"
  using type_size_cases [of "data_type c"] by (auto simp: layout_def uncompressed_layout_def rows_per_page_def)

lemma cell_in_page: "unat (r mod rows_per_page c) * col_size c + col_size c \<le> 4096"
proof -
  have "unat (r mod rows_per_page c) < unat (rows_per_page c)"
    using rows_per_page_cases [of c] by (auto simp: unat_mod)
  then have "(unat (r mod rows_per_page c) + 1) * col_size c \<le> unat (rows_per_page c) * col_size c"
    by (intro mult_le_mono1) simp
  also have "\<dots> \<le> 4096" using rows_per_page_cases [of c] by auto
  finally show ?thesis by simp
qed

lemma div_mod_inject:
  assumes "r div n = r' div n" "r mod n = (r' mod n :: u64)"
  shows "r = r'"
  using assms by (metis div_mult_mod_eq)

lemma page_not_last: "r div rows_per_page c \<noteq> - 1"
proof
  assume "r div rows_per_page c = - 1"
  then have "unat (r div rows_per_page c) = 2 ^ 64 - 1" by (simp add: unsigned_minus_1_eq_mask mask_eq_exp_minus_1)
  moreover have "unat (r div rows_per_page c) \<le> unat r div 2"
    using rows_per_page_cases [of c] by (auto simp: unat_div intro: div_le_mono2)
  ultimately show False using unsigned_less [of r, where ?'a = nat] by simp
qed

lemma null_page_not_last: "(r :: u64) div 4096 \<noteq> - 1"
proof
  assume "r div 4096 = - 1"
  then have "unat (r div 4096) = 2 ^ 64 - 1" by (simp add: unsigned_minus_1_eq_mask mask_eq_exp_minus_1)
  then show False using unsigned_less [of r, where ?'a = nat] by (simp add: unat_div)
qed

text \<open>
  C23 [cells_disjoint]. Every cell lies inside its page, and the cells of two different rows of a column are
  on different pages or do not overlap; the page index, byte offset and value index of \<open>ColumnLayout\<close> are the
  ones the direct computations of the read and write paths use.
\<close>

theorem cells_disjoint:
  assumes "r \<noteq> r'"
  shows "unat (r mod rows_per_page c) * type_size (data_type c) + type_size (data_type c) \<le> 4096
    \<and> (r div rows_per_page c \<noteq> r' div rows_per_page c
       \<or> unat (r mod rows_per_page c) * type_size (data_type c) + type_size (data_type c) \<le> unat (r' mod rows_per_page c) * type_size (data_type c)
       \<or> unat (r' mod rows_per_page c) * type_size (data_type c) + type_size (data_type c) \<le> unat (r mod rows_per_page c) * type_size (data_type c))
    \<and> page_index (layout c) r = r div rows_per_page c
    \<and> byte_offset (layout c) r = unat (r mod rows_per_page c) * type_size (data_type c)
    \<and> value_index (layout c) r = unat (r mod rows_per_page c)"
proof -
  have "max (rows_per_page c) 1 = rows_per_page c" using rows_per_page_cases [of c] by (auto simp: max_def word_le_nat_alt)
  moreover have "a * n + n \<le> b * n \<or> b * n + n \<le> a * n" if "a \<noteq> b" for a b n :: nat
    using that mult_le_mono1 [of "a + 1" b n] mult_le_mono1 [of "b + 1" a n] by (cases "a < b") auto
  moreover have "unat (r mod rows_per_page c) \<noteq> unat (r' mod rows_per_page c)" if "r div rows_per_page c = r' div rows_per_page c"
    using div_mod_inject [OF that] assms by (auto simp: word_unat_eq_iff)
  ultimately show ?thesis using cell_in_page [of r c]
    by (auto simp: page_index_def byte_offset_def value_index_def layout_def uncompressed_layout_def simp flip: lay_vpp_layout)
qed

theorem cells_disjoint_witness:
  "byte_offset (layout (new_col ''a'' Int64T 1 2 None 0)) 513 = 8 \<and> page_index (layout (new_col ''a'' Int64T 1 2 None 0)) 513 = 1"
proof -
  let ?c = "new_col ''a'' Int64T 1 2 None 0"
  have "rows_per_page ?c = 512" "type_size (data_type ?c) = 8" by (simp_all add: rows_per_page_def new_col_def type_size_def)
  moreover have "page_index (layout ?c) 513 = 513 div rows_per_page ?c"
    "byte_offset (layout ?c) 513 = unat ((513 :: u64) mod rows_per_page ?c) * type_size (data_type ?c)"
    using cells_disjoint [of 513 0 ?c] by simp_all
  ultimately show ?thesis by simp
qed

section \<open>Frame lemmas\<close>

lemma with_page_props:
  assumes "pages_ok env" "p \<noteq> - 1"
  shows "pages_ok (with_page f p env)" "read_pinned_page key (with_page f p env) = read_pinned_page key env"
    "in_file (f, p) (with_page f p env)" "file_pages (store env) g \<le> file_pages (store (with_page f p env)) g"
    "g \<noteq> f \<Longrightarrow> file_pages (store (with_page f p env)) g = file_pages (store env) g"
    "g \<noteq> f \<Longrightarrow> free_list g (store (with_page f p env)) = free_list g (store env)"
    "txn (with_page f p env) = txn env" "row_versions (with_page f p env) = row_versions env"
proof -
  note e = ensure_page_spec [OF assms(2), where f = f and st = "store env"]
  show le: "file_pages (store env) g \<le> file_pages (store (with_page f p env)) g" for g
    using e(2) e(3) [of g] by (cases "g = f") (simp_all add: with_page_def)
  then have "file_pages (store env) g \<le> file_pages (ensure_page f p (store env)) g" for g
    by (simp add: with_page_def)
  then show ok: "pages_ok (with_page f p env)"
    using assms(1) e(5) unfolding pages_ok_def with_page_def by (auto dest: order.strict_trans2)
  show "read_pinned_page key (with_page f p env) = read_pinned_page key env"
    using read_stored [OF ok] read_stored [OF assms(1)] e(5) by (simp add: with_page_def)
  show "in_file (f, p) (with_page f p env)" using e(1) by (simp add: in_file_def with_page_def)
  show "g \<noteq> f \<Longrightarrow> file_pages (store (with_page f p env)) g = file_pages (store env) g"
    "g \<noteq> f \<Longrightarrow> free_list g (store (with_page f p env)) = free_list g (store env)"
    using e(3,4) by (simp_all add: with_page_def)
qed (simp_all add: with_page_def)

text \<open>What the operations of a column keep of a column and of the files.\<close>

definition same_shape :: "col \<Rightarrow> col \<Rightarrow> bool" where
  "same_shape c c' \<longleftrightarrow> data_type c' = data_type c \<and> fh c' = fh c \<and> null_fh c' = null_fh c
     \<and> overflow_fh c' = overflow_fh c \<and> compressed c' = compressed c
     \<and> compression_meta (col_stats c') = compression_meta (col_stats c) \<and> version_info c' = version_info c"

lemma same_shape_read:
  assumes "same_shape c c'"
  shows "read_cell c' r env = read_cell c r env" "parse_value c' data env = parse_value c data env"
    "holds_value c' data v env = holds_value c data v env" "overflow_ext c' env e = overflow_ext c env e"
    "rows_per_page c' = rows_per_page c" "storable c' v = storable c v" "col_compression c' = col_compression c"
  using assms unfolding same_shape_def
  by (simp_all add: read_cell_def parse_value_def rows_per_page_def holds_value_def overflow_ext_def storable_def
      col_compression_def cong: logical_type.case_cong)

text \<open>The files of a column are pairwise different.\<close>

definition files_distinct :: "col \<Rightarrow> bool" where
  "files_distinct c \<longleftrightarrow> fh c \<noteq> null_fh c \<and> overflow_fh c \<noteq> Some (fh c) \<and> overflow_fh c \<noteq> Some (null_fh c)"

text \<open>The row holds the given bytes, and nothing else a reader of the column looks at has changed.\<close>

definition cell_written :: "col \<Rightarrow> u64 \<Rightarrow> byte list \<Rightarrow> col_env \<Rightarrow> col_env \<Rightarrow> bool" where
  "cell_written c r bs env env' \<longleftrightarrow> pages_ok env' \<and> overflow_ext c env env' \<and> read_cell c r env' = bs
     \<and> (\<forall>r'. r' \<noteq> r \<longrightarrow> read_cell c r' env' = read_cell c r' env)
     \<and> (\<forall>p. read_pinned_page (null_fh c, p) env' = read_pinned_page (null_fh c, p) env)
     \<and> tx_id (txn env') = tx_id (txn env) \<and> read_ts (txn env') = read_ts (txn env)
     \<and> is_read_only (txn env') = is_read_only (txn env)"

lemma read_cell_poke:
  assumes ok: "pages_ok env" and inf: "in_file (fh c, r div rows_per_page c) env" and len: "length bs = col_size c"
  shows "read_cell c r' (poke_bytes (fh c, r div rows_per_page c) (unat (r mod rows_per_page c) * col_size c) bs env)
    = (if r' = r then bs else read_cell c r' env)"
proof -
  let ?o = "\<lambda>r. unat (r mod rows_per_page c) * col_size c" and ?pg = "\<lambda>r. (fh c, r div rows_per_page c)"
  have l: "length (read_pinned_page (?pg r) env) = 4096" using length_read_page [OF ok] .
  show ?thesis
  proof (cases "r' = r")
    case True
    then show ?thesis using slice_at_write_same [of "?o r" bs "read_pinned_page (?pg r) env"] l len cell_in_page [of r c] inf
      by (simp add: read_cell_def read_poke)
  next
    case False
    show ?thesis
    proof (cases "r' div rows_per_page c = r div rows_per_page c")
      case True
      have "unat (r' mod rows_per_page c) \<noteq> unat (r mod rows_per_page c)"
        using div_mod_inject [OF True] False by (auto simp: word_unat_eq_iff)
      then have "?o r' + col_size c \<le> ?o r \<or> ?o r + col_size c \<le> ?o r'"
        using mult_le_mono1 [of "unat (r' mod rows_per_page c) + 1" "unat (r mod rows_per_page c)" "col_size c"]
          mult_le_mono1 [of "unat (r mod rows_per_page c) + 1" "unat (r' mod rows_per_page c)" "col_size c"] by fastforce
      then show ?thesis
        using slice_at_write_other [of "?o r" bs "read_pinned_page (?pg r) env" "?o r'" "col_size c"] l len
          cell_in_page [of r c] cell_in_page [of r' c] inf True False by (simp add: read_cell_def read_poke)
    qed (use False in \<open>simp add: read_cell_def read_poke\<close>)
  qed
qed

lemma env_record [simp]:
  "store (record_mod m env) = store env" "read_pinned_page k (record_mod m env) = read_pinned_page k env"
  "in_file k (record_mod m env) = in_file k env" "pages_ok (record_mod m env) = pages_ok env"
  "row_versions (record_mod m env) = row_versions env" "tx_id (txn (record_mod m env)) = tx_id (txn env)"
  "read_ts (txn (record_mod m env)) = read_ts (txn env)" "is_read_only (txn (record_mod m env)) = is_read_only (txn env)"
  by (simp_all add: record_mod_def read_pinned_page_def in_file_def pages_ok_def)

lemma env_update [simp]:
  "read_pinned_page k (env\<lparr>txn := t\<rparr>) = read_pinned_page k env" "pages_ok (env\<lparr>txn := t\<rparr>) = pages_ok env"
  "read_pinned_page k (env\<lparr>row_versions := rv\<rparr>) = read_pinned_page k env" "pages_ok (env\<lparr>row_versions := rv\<rparr>) = pages_ok env"
  by (simp_all add: read_pinned_page_def pages_ok_def)

lemma read_cell_cong:
  "(\<And>k. read_pinned_page k e = read_pinned_page k e') \<Longrightarrow> read_cell c r e = read_cell c r e'"
  by (simp add: read_cell_def)

lemma append_plain_core:
  fixes env r c
  defines "start \<equiv> own_page (fh c, r div rows_per_page c) (with_page (fh c) (r div rows_per_page c) env)"
  assumes ok: "pages_ok env" and fd: "files_distinct c"
    and ser: "serialize_value_into c v (replicate 64 0) start = Ok (buf, env2)" "cell_frame c start env2" "length buf = 64"
  shows "\<exists>c' env'. append_plain_value dbg c v r env
      = (case mark_row (row_versions env (version_info c)) r (tx_id (txn env)) (read_ts (txn env)) of
           Inl cf \<Rightarrow> Err (Database (conflict_message cf)) | Inr rv \<Rightarrow> Ok (c', env'))
    \<and> same_shape c c' \<and> pending_nulls c' = pending_nulls c
    \<and> cell_written c r (take (col_size c) buf) env env' \<and> overflow_ext c env2 env'"
proof -
  let ?key = "(fh c, r div rows_per_page c)" and ?o = "unat (r mod rows_per_page c) * col_size c"
  define env3 where "env3 = poke_bytes ?key ?o (take (col_size c) buf) env2"
  note wp = with_page_props [OF ok page_not_last, where f = "fh c"]
  have s: "pages_ok start" "\<And>k. read_pinned_page k start = read_pinned_page k env" "in_file ?key start"
    using wp(1-3) by (simp_all add: start_def)
  have f2: "pages_ok env2" "quiet start env2" "\<And>g. Some g \<noteq> overflow_fh c \<Longrightarrow> file_pages (store env2) g = file_pages (store start) g"
    "\<And>k. Some (fst k) \<noteq> overflow_fh c \<or> in_file k start \<Longrightarrow> read_pinned_page k env2 = read_pinned_page k start"
    "\<And>g. file_pages (store start) g \<le> file_pages (store env2) g"
    using ser(2) by (auto simp: cell_frame_def)
  have ofh: "Some (fh c) \<noteq> overflow_fh c" "Some (null_fh c) \<noteq> overflow_fh c" "fh c \<noteq> null_fh c"
    using fd by (auto simp: files_distinct_def)
  have in2: "in_file ?key env2" using s(3) f2(3) [OF ofh(1)] by (simp add: in_file_def)
  have lb: "length (take (col_size c) buf) = col_size c" using ser(3) rows_per_page_cases [of c] by auto
  have ok3: "pages_ok env3" unfolding env3_def using lb cell_in_page [of r c] in2 f2(1) by (intro pages_ok_poke) auto
  have fs: "file_pages (store env) g \<le> file_pages (store start) g" for g using wp(4) by (simp add: start_def)
  have rd2: "read_pinned_page (fh c, p) env2 = read_pinned_page (fh c, p) env" for p using f2(4) s(2) ofh(1) by simp
  have "read_cell c r' env2 = read_cell c r' env" for r' by (simp add: read_cell_def rd2)
  then have rc: "read_cell c r' env3 = (if r' = r then take (col_size c) buf else read_cell c r' env)" for r'
    unfolding env3_def using read_cell_poke [OF f2(1) in2 lb, of r'] by simp
  have ext2: "overflow_ext c env2 env3" using ok3 ofh(1) by (auto simp: overflow_ext_def env3_def read_poke)
  have "overflow_ext c env env2"
    unfolding overflow_ext_def
  proof (intro conjI allI impI)
    fix g assume g: "overflow_fh c = Some g"
    show le: "file_pages (store env) g \<le> file_pages (store env2) g" using fs f2(5) by (meson order.trans)
    fix p assume p: "p < file_pages (store env) g"
    then have "in_file (g, p) start" using fs [of g] by (simp add: in_file_def)
    then show "read_pinned_page (g, p) env2 = read_pinned_page (g, p) env" using f2(4) s(2) by simp
  qed (rule f2(1))
  then have ext: "overflow_ext c env env3" using ext2 by (rule overflow_ext_trans)
  have nul: "read_pinned_page (null_fh c, p) env3 = read_pinned_page (null_fh c, p) env" for p
    using f2(4) s(2) ofh by (simp add: env3_def read_poke)
  have tx: "tx_id (txn env3) = tx_id (txn env)" "read_ts (txn env3) = read_ts (txn env)" "row_versions env3 = row_versions env"
    "is_read_only (txn env3) = is_read_only (txn env)"
    using f2(2) wp(7,8) by (auto simp: quiet_def env3_def start_def)
  then have tx2: "tx_id (txn env2) = tx_id (txn env)" "read_ts (txn env2) = read_ts (txn env)" "row_versions env2 = row_versions env"
    by (simp_all add: env3_def)
  show ?thesis
  proof (cases "mark_row (row_versions env (version_info c)) r (tx_id (txn env)) (read_ts (txn env))")
    case (Inl cf)
    then have "append_plain_value dbg c v r env = Err (Database (conflict_message cf))"
      using ser(1) tx2 unfolding start_def by (simp add: append_plain_value_def Let_def mark_version_def)
    moreover have "cell_written c r (take (col_size c) buf) env env3"
      using ok3 ext rc nul tx by (simp add: cell_written_def)
    ultimately show ?thesis using Inl ext2 by (intro exI [of _ c] exI [of _ env3]) (simp add: same_shape_def)
  next
    case (Inr rv)
    define env4 where "env4 = env3\<lparr>row_versions := (row_versions env3)(version_info c := rv)\<rparr>"
    define env5 where "env5 = env4\<lparr>txn := (txn env4)\<lparr>modified_rows := modified_rows (txn env4) @ [(version_info c, r)]\<rparr>\<rparr>"
    define env6 where "env6 = log_page ?key (record_mod (row_mod c (r div rows_per_page c) r (take (col_size c) buf) (overflow_copy c buf env5)) env5)"
    define c' where "c' = c\<lparr>atomic_num_values := atomic_num_values c + 1,
       atomic_null_count := atomic_null_count c + (if v = NullV then 1 else 0),
       col_stats := update_page_bounds dbg (unat (r div rows_per_page c)) v (col_stats c)\<rparr>"
    have run: "append_plain_value dbg c v r env = Ok (c', env6)"
      using ser(1) tx2 Inr unfolding start_def c'_def env6_def env5_def env4_def env3_def
      by (simp add: append_plain_value_def Let_def mark_version_def)
    have shape: "same_shape c c'" "pending_nulls c' = pending_nulls c"
      by (simp_all add: same_shape_def c'_def update_page_bounds_def Let_def)
    have rd: "read_pinned_page k env6 = read_pinned_page k env3" for k by (simp add: env6_def env5_def env4_def)
    have "store env6 = store env3" by (simp add: env6_def env5_def env4_def)
    then have st: "file_pages (store env6) = file_pages (store env3)" "pages_ok env6"
      using ok3 by (simp_all add: pages_ok_def)
    have "overflow_ext c env3 env6" using st rd by (simp add: overflow_ext_def)
    then have "overflow_ext c env env6" "overflow_ext c env2 env6" using ext ext2 overflow_ext_trans by blast+
    moreover have "read_cell c r' env6 = read_cell c r' env3" for r' by (rule read_cell_cong) (rule rd)
    moreover have "tx_id (txn env6) = tx_id (txn env)" "read_ts (txn env6) = read_ts (txn env)" "is_read_only (txn env6) = is_read_only (txn env)"
      using tx by (simp_all add: env6_def env5_def env4_def)
    ultimately have "cell_written c r (take (col_size c) buf) env env6" "overflow_ext c env2 env6"
      using rc nul rd st by (simp_all add: cell_written_def)
    then show ?thesis using run Inr shape by (intro exI [of _ c'] exI [of _ env6]) simp
  qed
qed

end
