(* ===== verification/Column_Nulls.thy ===== *)
theory Column_Nulls
  imports Column_Rows
begin

text \<open>
  Null bits: the entries buffered per transaction and the bytes of the null file together are the null state
  of a row; buffering, flushing and writing entries change the state of the rows they name and of no other.
\<close>

section \<open>Writing entries\<close>

definition null_bit :: "col \<Rightarrow> u64 \<Rightarrow> col_env \<Rightarrow> byte" where
  "null_bit c r env = read_pinned_page (null_fh c, r div 4096) env ! unat (r mod 4096)"

definition last_entry :: "(u64 \<times> byte) list \<Rightarrow> u64 \<Rightarrow> byte \<Rightarrow> byte" where
  "last_entry es r d = (case find (\<lambda>e. fst e = r) (rev es) of Some e \<Rightarrow> snd e | None \<Rightarrow> d)"

lemma last_entry_snoc: "last_entry (es @ [e]) r d = (if fst e = r then snd e else last_entry es r d)"
  by (simp add: last_entry_def)

lemma last_entry_Nil [simp]: "last_entry [] r d = d"
  by (simp add: last_entry_def)

text \<open>The effect of a write to the null file on everything else.\<close>

definition null_frame :: "col \<Rightarrow> col_env \<Rightarrow> col_env \<Rightarrow> bool" where
  "null_frame c env env' \<longleftrightarrow> pages_ok env'
     \<and> (\<forall>key. fst key \<noteq> null_fh c \<longrightarrow> read_pinned_page key env' = read_pinned_page key env)
     \<and> (\<forall>g. g \<noteq> null_fh c \<longrightarrow> file_pages (store env') g = file_pages (store env) g \<and> free_list g (store env') = free_list g (store env))
     \<and> tx_id (txn env') = tx_id (txn env) \<and> read_ts (txn env') = read_ts (txn env)
     \<and> is_read_only (txn env') = is_read_only (txn env) \<and> row_versions env' = row_versions env"

lemma null_frame_refl: "pages_ok env \<Longrightarrow> null_frame c env env"
  by (simp add: null_frame_def)

lemma null_frame_trans: "null_frame c a b \<Longrightarrow> null_frame c b d \<Longrightarrow> null_frame c a d"
  by (simp add: null_frame_def)

lemma unat_mod_4096: "unat ((r :: u64) mod 4096) < 4096"
  by (simp add: unat_mod)

lemma poke_null:
  assumes "pages_ok env" "in_file (null_fh c, r div 4096) env"
  shows "null_frame c env (poke_bytes (null_fh c, r div 4096) (unat (r mod 4096)) [v] env)"
    and "null_bit c r' (poke_bytes (null_fh c, r div 4096) (unat (r mod 4096)) [v] env) = (if r' = r then v else null_bit c r' env)"
proof -
  show "null_frame c env (poke_bytes (null_fh c, r div 4096) (unat (r mod 4096)) [v] env)"
    using assms unat_mod_4096 [of r] pages_ok_poke [of env "unat (r mod 4096)" "[v]" "(null_fh c, r div 4096)"]
    by (auto simp: null_frame_def read_poke)
  have l: "length (read_pinned_page (null_fh c, r div 4096) env) = 4096" using length_read_page [OF assms(1)] .
  have "unat (r' mod 4096) \<noteq> unat (r mod 4096)" if "r' \<noteq> r" "r' div 4096 = r div 4096"
    using div_mod_inject [OF that(2)] that(1) by (auto simp: word_unat_eq_iff)
  then show "null_bit c r' (poke_bytes (null_fh c, r div 4096) (unat (r mod 4096)) [v] env) = (if r' = r then v else null_bit c r' env)"
    using assms(2) l unat_mod_4096 [of r] unat_mod_4096 [of r'] by (auto simp: null_bit_def read_poke nth_write_at)
qed

lemma poke_null_fold:
  "pages_ok env \<Longrightarrow> in_file (null_fh c, p) env \<Longrightarrow> \<forall>e \<in> set es. fst e div 4096 = p \<Longrightarrow>
   let env' = fold (\<lambda>(r, v). poke_bytes (null_fh c, p) (unat (r mod 4096)) [v]) es env
   in null_frame c env env' \<and> in_file (null_fh c, p) env' \<and> (\<forall>r. null_bit c r env' = last_entry es r (null_bit c r env))"
proof (induction es rule: rev_induct)
  case Nil
  then show ?case by (simp add: null_frame_refl)
next
  case (snoc e es)
  obtain r v where e: "e = (r, v)" by fastforce
  let ?e1 = "fold (\<lambda>(r, v). poke_bytes (null_fh c, p) (unat (r mod 4096)) [v]) es env"
  have IH: "null_frame c env ?e1" "in_file (null_fh c, p) ?e1" "\<And>r. null_bit c r ?e1 = last_entry es r (null_bit c r env)"
    using snoc by (auto simp: Let_def)
  have r: "r div 4096 = p" using snoc.prems(3) e by simp
  have ok: "pages_ok ?e1" using IH(1) by (simp add: null_frame_def)
  note pn = poke_null [OF ok, where c = c and r = r and v = v]
  show ?case
    using pn IH null_frame_trans [OF IH(1)] r by (simp add: e Let_def last_entry_snoc)
qed

lemma null_frame_log: "null_frame c env env' \<Longrightarrow> null_frame c env (log_page key env')"
  by (simp add: null_frame_def)

lemma null_bit_simps [simp]:
  "null_bit c r (log_page key env) = null_bit c r env" "null_bit c r (own_page key env) = null_bit c r env"
  "null_bit c r (record_mod m env) = null_bit c r env"
  by (simp_all add: null_bit_def)

definition null_page_write :: "col \<Rightarrow> (u64 \<times> byte) list \<Rightarrow> u64 set \<Rightarrow> col_env \<Rightarrow> col_env \<Rightarrow> bool" where
  "null_page_write c es ps env env' \<longleftrightarrow> null_frame c env env'
     \<and> (\<forall>r. null_bit c r env' = (if r div 4096 \<in> ps then last_entry es r (null_bit c r env) else null_bit c r env))"

lemma find_filter_page: "last_entry (filter (\<lambda>(r, v). r div 4096 = p) es) r d = (if r div 4096 = p then last_entry es r d else d)"
  by (induction es rule: rev_induct) (auto simp: last_entry_snoc)

lemma write_null_page_spec:
  assumes ok: "pages_ok env" and p: "p \<noteq> - 1"
  shows "null_page_write c es {p} env (write_null_page c es p env)"
proof -
  note wp = with_page_props [OF ok p, where f = "null_fh c"]
  let ?s = "own_page (null_fh c, p) (with_page (null_fh c) p env)" and ?es = "filter (\<lambda>(r, v). r div 4096 = p) es"
  have s: "null_frame c env ?s" "in_file (null_fh c, p) ?s" "pages_ok ?s" "\<And>r. null_bit c r ?s = null_bit c r env"
    using wp by (auto simp: null_frame_def null_bit_def)
  have "\<forall>e \<in> set ?es. fst e div 4096 = p" by auto
  from poke_null_fold [OF s(3,2) this]
  show ?thesis
    using s null_frame_trans [OF s(1)] by (simp add: null_page_write_def write_null_page_def Let_def null_frame_log find_filter_page)
qed

lemma write_null_pages_fold:
  "pages_ok env \<Longrightarrow> distinct ps \<Longrightarrow> \<forall>p \<in> set ps. p \<noteq> - 1 \<Longrightarrow>
   null_page_write c es (set ps) env (fold (write_null_page c es) ps env)"
proof (induction ps arbitrary: env)
  case Nil
  then show ?case by (simp add: null_page_write_def null_frame_refl)
next
  case (Cons p ps)
  let ?e = "write_null_page c es p env"
  have w: "null_page_write c es {p} env ?e" using Cons.prems by (intro write_null_page_spec) auto
  then have ok: "pages_ok ?e" by (simp add: null_page_write_def null_frame_def)
  have IH: "null_page_write c es (set ps) ?e (fold (write_null_page c es) ps ?e)" using Cons ok by simp
  have "null_frame c env (fold (write_null_page c es) ps ?e)"
    using w IH null_frame_trans by (auto simp: null_page_write_def)
  then show ?case using w IH Cons.prems(2) by (auto simp: null_page_write_def)
qed

lemma last_entry_absent: "r \<notin> fst ` set es \<Longrightarrow> last_entry es r d = d"
  by (induction es rule: rev_induct) (auto simp: last_entry_snoc)

lemma null_frame_records:
  assumes "null_frame c env env'"
  shows "null_frame c env (fold (\<lambda>e. record_mod (m e)) es env')"
    and "null_bit c r (fold (\<lambda>e. record_mod (m e)) es env') = null_bit c r env'"
  using assms by (induction es arbitrary: env') (auto simp: null_frame_def)

lemma write_null_entries_spec:
  assumes ok: "pages_ok env"
  shows "null_frame c env (write_null_entries c es env)"
    and "null_bit c r (write_null_entries c es env) = last_entry es r (null_bit c r env)"
proof -
  let ?s = "if is_read_only (txn env) then env else fold (\<lambda>e. record_mod (null_mod c e)) es env"
  let ?ps = "remdups (map (\<lambda>(r, v). r div 4096) es)"
  have s: "null_frame c env ?s" "\<And>r. null_bit c r ?s = null_bit c r env"
    using null_frame_records [OF null_frame_refl [OF ok]] null_frame_refl [OF ok] by auto
  then have oks: "pages_ok ?s" unfolding null_frame_def by blast
  have w: "null_page_write c es (set ?ps) ?s (write_null_entries c es env)"
    unfolding write_null_entries_def Let_def using oks null_page_not_last by (intro write_null_pages_fold) auto
  then show "null_frame c env (write_null_entries c es env)"
    using null_frame_trans [OF s(1)] by (simp add: null_page_write_def)
  show "null_bit c r (write_null_entries c es env) = last_entry es r (null_bit c r env)"
  proof (cases "r \<in> fst ` set es")
    case True
    then have "r div 4096 \<in> set ?ps" by force
    then show ?thesis using w s(2) by (simp add: null_page_write_def)
  next
    case False
    then show ?thesis using w s(2) last_entry_absent [OF False] by (simp add: null_page_write_def)
  qed
qed

section \<open>The null state of a row\<close>

definition pending_of :: "col \<Rightarrow> col_env \<Rightarrow> (u64 \<times> byte) list" where
  "pending_of c env = (case pending_nulls c (tx_id (txn env)) of None \<Rightarrow> [] | Some es \<Rightarrow> es)"

lemma is_null_eq: "is_null c r env \<longleftrightarrow> last_entry (pending_of c env) r (null_bit c r env) \<noteq> 0"
  by (auto simp: is_null_def pending_of_def last_entry_def null_bit_def split: option.splits)

lemma set_null_spec:
  assumes ok: "pages_ok env" and s: "set_null c r b env = (c', env')"
  shows "null_frame c env env'" and "same_shape c c'" and "is_null c' r' env' = (if r' = r then b else is_null c r' env)"
proof -
  let ?e = "pending_of c env @ [(r, if b then 1 else 0)]"
  have le: "last_entry ?e r' d \<noteq> 0 \<longleftrightarrow> (if r' = r then b else last_entry (pending_of c env) r' d \<noteq> 0)" for r' d
    by (simp add: last_entry_snoc)
  have "null_frame c env env' \<and> same_shape c c' \<and> is_null c' r' env' = (if r' = r then b else is_null c r' env)"
  proof (cases "PENDING_NULLS_FLUSH_THRESHOLD \<le> length ?e")
    case True
    let ?c = "c\<lparr>dirty := True\<rparr>"
    have eq: "c' = c\<lparr>dirty := True, pending_nulls := (pending_nulls c)(tx_id (txn env) \<mapsto> [])\<rparr>"
      "env' = write_null_entries ?c ?e env"
      using s True by (auto simp: set_null_def Let_def pending_of_def)
    note w = write_null_entries_spec [OF ok, where c = ?c and es = ?e]
    have nf: "null_frame c env env'" using w(1) eq by (simp add: null_frame_def)
    then have "pending_of c' env' = []" by (simp add: eq(1) pending_of_def null_frame_def)
    moreover have "null_bit c' r' env' = last_entry ?e r' (null_bit c r' env)"
      using w(2) [where r = r'] eq by (simp add: null_bit_def)
    ultimately show ?thesis using nf eq(1) le by (simp add: is_null_eq same_shape_def)
  next
    case False
    have eq: "c' = c\<lparr>dirty := True, pending_nulls := (pending_nulls c)(tx_id (txn env) \<mapsto> ?e)\<rparr>" "env' = env"
      using s False by (auto simp: set_null_def Let_def pending_of_def)
    then have "pending_of c' env' = ?e" "null_bit c' r' env' = null_bit c r' env" by (simp_all add: pending_of_def null_bit_def)
    then show ?thesis using eq le null_frame_refl [OF ok] by (simp add: is_null_eq same_shape_def)
  qed
  then show "null_frame c env env'" "same_shape c c'" "is_null c' r' env' = (if r' = r then b else is_null c r' env)"
    by blast+
qed

lemma flush_pending_spec:
  assumes ok: "pages_ok env" and s: "flush_pending_nulls c env = (c', env')"
  shows "null_frame c env env'" and "same_shape c c'" and "is_null c' r env' = is_null c r env"
proof -
  let ?c = "c\<lparr>pending_nulls := (pending_nulls c)(tx_id (txn env) := None)\<rparr>"
  have eq: "c' = ?c" "env' = (if pending_of c env = [] then env else write_null_entries ?c (pending_of c env) env)"
    using s by (auto simp: flush_pending_nulls_def Let_def pending_of_def split: if_splits)
  note w = write_null_entries_spec [OF ok, where c = ?c and es = "pending_of c env"]
  show nf: "null_frame c env env'" using w(1) eq null_frame_refl [OF ok] by (auto simp: null_frame_def)
  show "same_shape c c'" using eq by (simp add: same_shape_def)
  have "pending_of c' env' = []" using nf by (simp add: eq(1) pending_of_def null_frame_def)
  moreover have "null_bit c' r env' = last_entry (pending_of c env) r (null_bit c r env)"
    using w(2) [where r = r] eq by (simp add: null_bit_def)
  ultimately show "is_null c' r env' = is_null c r env" by (simp add: is_null_eq)
qed

end
