(* ===== verification/Column_Append.thy ===== *)
theory Column_Append
  imports Column_Nulls
begin

text \<open>
  Appending and reading the values of a column of a plain type, through the null bits, the cells and the
  overflow pages.
\<close>

section \<open>Rows\<close>

definition plain_type :: "logical_type \<Rightarrow> bool" where
  "plain_type t = (case t of ListT _ \<Rightarrow> False | StructT _ \<Rightarrow> False | _ \<Rightarrow> True)"

lemma plain_case: "plain_type t \<Longrightarrow> (case t of ListT a \<Rightarrow> f a | StructT b \<Rightarrow> g b | _ \<Rightarrow> h) = h"
  by (cases t) (simp_all add: plain_type_def)

text \<open>A writable plain column.\<close>

definition plain_col :: "col \<Rightarrow> bool" where
  "plain_col c \<longleftrightarrow> plain_type (data_type c) \<and> files_distinct c \<and> \<not> compressed c \<and> compression_meta (col_stats c) = None"

definition row_holds :: "col \<Rightarrow> u64 \<Rightarrow> val \<Rightarrow> col_env \<Rightarrow> bool" where
  "row_holds c r w env = (if is_null c r env then w = NullV else holds_value c (read_cell c r env) w env)"

lemma plain_col_shape: "same_shape c c' \<Longrightarrow> plain_col c' = plain_col c"
  by (simp add: same_shape_def plain_col_def files_distinct_def)

lemma get_value_plain:
  assumes "plain_col c" "pages_ok env" "row_holds c r w env"
  shows "get_value alp (Column c cs) r env = Ok w"
proof -
  have "get_plain_value alp c r env = Ok (parse_value c (read_cell c r env) env)"
    using assms(1) by (simp add: get_plain_value_def col_compression_def plain_col_def)
  then show ?thesis
    using assms holds_value_parse [of env c "read_cell c r env" w]
    by (simp add: get_value.simps row_holds_def plain_col_def plain_case split: if_splits)
qed

lemma row_holds_null_frame:
  assumes "pages_ok env" "null_frame c env env'" "same_shape c c'" "files_distinct c" "row_holds c r w env"
    and "is_null c' r env' = is_null c r env"
  shows "row_holds c' r w env'"
proof -
  have "read_cell c r env' = read_cell c r env" "overflow_ext c env env'"
    using assms(2,4) by (auto simp: null_frame_def read_cell_def files_distinct_def overflow_ext_def)
  then show ?thesis using assms(3,5,6) holds_value_ext by (auto simp: row_holds_def same_shape_read [OF assms(3)])
qed

lemma is_null_cell_written:
  assumes "cell_written c r bs env env'" "same_shape c c'" "pending_nulls c' = pending_nulls c"
  shows "is_null c' r' env' = is_null c r' env"
  using assms by (simp add: is_null_eq pending_of_def null_bit_def cell_written_def same_shape_def)

lemma row_holds_cell_written:
  assumes w: "cell_written c r bs env env'" "same_shape c c'" "pending_nulls c' = pending_nulls c"
    and "row_holds c r' w env" "r' \<noteq> r"
  shows "row_holds c' r' w env'"
proof -
  have "read_cell c r' env' = read_cell c r' env" "overflow_ext c env env'" using w(1) assms(5) by (simp_all add: cell_written_def)
  then show ?thesis
    using assms(4) is_null_cell_written [OF w, of r'] holds_value_ext by (auto simp: row_holds_def same_shape_read [OF w(2)])
qed

lemma serialize_number: "length buf = 64 \<Longrightarrow> \<exists>buf'. serialize_value_into c (Number n) buf env = Ok (buf', env) \<and> length buf' = 64"
  by (cases "data_type c") (simp_all add: serialize_value_into_def Let_def)

section \<open>Appending\<close>

text \<open>The outcome of an append: a conflict of the row version store, or the row holds the value and no other row changed.\<close>

definition appended :: "(col \<times> col_env) result \<Rightarrow> col \<Rightarrow> u64 \<Rightarrow> val \<Rightarrow> col_env \<Rightarrow> bool" where
  "appended res c r v env \<longleftrightarrow>
     (case mark_row (row_versions env (version_info c)) r (tx_id (txn env)) (read_ts (txn env)) of
        Inl cf \<Rightarrow> res = Err (Database (conflict_message cf))
      | Inr rv \<Rightarrow> \<exists>c' env'. res = Ok (c', env') \<and> same_shape c c' \<and> pages_ok env'
          \<and> row_holds c' r v env' \<and> (\<forall>r' w. r' \<noteq> r \<longrightarrow> row_holds c r' w env \<longrightarrow> row_holds c' r' w env'))"

lemma overflow_room_frame:
  assumes "overflow_room c v env" "\<And>f. overflow_fh c = Some f \<Longrightarrow>
    file_pages (store env') f = file_pages (store env) f \<and> free_list f (store env') = free_list f (store env)"
  shows "overflow_room c v env'"
  using assms by (auto simp: overflow_room_def split: val.splits option.splits)

lemma append_plain_value_spec:
  assumes ok: "pages_ok env" and fd: "files_distinct c" and st: "storable c v" and room: "overflow_room c v env"
    and nn: "\<not> is_null c r env"
  shows "appended (append_plain_value dbg c v r env) c r v env"
proof -
  let ?s = "own_page (fh c, r div rows_per_page c) (with_page (fh c) (r div rows_per_page c) env)"
  note wp = with_page_props [OF ok page_not_last, where f = "fh c"]
  have oks: "pages_ok ?s" using wp(1) by simp
  have rooms: "overflow_room c v ?s"
    by (rule overflow_room_frame [OF room]) (use wp(5,6) fd in \<open>auto simp: files_distinct_def\<close>)
  obtain buf env2 where ser: "serialize_value_into c v (replicate 64 0) ?s = Ok (buf, env2)" "length buf = 64"
    "cell_frame c ?s env2" "holds_value c (take (col_size c) buf) v env2"
    using serialize_spec [OF _ oks st rooms, of "replicate 64 0"] by auto
  obtain c' env' where ap: "append_plain_value dbg c v r env
      = (case mark_row (row_versions env (version_info c)) r (tx_id (txn env)) (read_ts (txn env)) of
           Inl cf \<Rightarrow> Err (Database (conflict_message cf)) | Inr rv \<Rightarrow> Ok (c', env'))"
    "same_shape c c'" "pending_nulls c' = pending_nulls c" "cell_written c r (take (col_size c) buf) env env'" "overflow_ext c env2 env'"
    using append_plain_core [OF ok fd ser(1,3,2), of dbg] by blast
  have "holds_value c (read_cell c r env') v env'"
    using holds_value_ext [OF ser(4) ap(5)] ap(4) by (simp add: cell_written_def)
  then have "row_holds c' r v env'"
    using nn is_null_cell_written [OF ap(4,2,3), of r] by (simp add: row_holds_def same_shape_read [OF ap(2)])
  moreover have "pages_ok env'" using ap(4) by (simp add: cell_written_def)
  ultimately show ?thesis
    using ap row_holds_cell_written [OF ap(4,2,3)] by (auto simp: appended_def split: sum.splits)
qed

lemma append_null_placeholder:
  assumes ok: "pages_ok env" and fd: "files_distinct c" and nn: "is_null c r env"
  shows "appended (append_plain_value dbg c zero_value r env) c r NullV env"
proof -
  let ?s = "own_page (fh c, r div rows_per_page c) (with_page (fh c) (r div rows_per_page c) env)"
  have oks: "pages_ok ?s" using with_page_props(1) [OF ok page_not_last, where f = "fh c"] by simp
  obtain buf where ser: "serialize_value_into c zero_value (replicate 64 0) ?s = Ok (buf, ?s)" "length buf = 64"
    using serialize_number [of "replicate 64 0" c 0 ?s] by (auto simp: zero_value_def)
  obtain c' env' where ap: "append_plain_value dbg c zero_value r env
      = (case mark_row (row_versions env (version_info c)) r (tx_id (txn env)) (read_ts (txn env)) of
           Inl cf \<Rightarrow> Err (Database (conflict_message cf)) | Inr rv \<Rightarrow> Ok (c', env'))"
    "same_shape c c'" "pending_nulls c' = pending_nulls c" "cell_written c r (take (col_size c) buf) env env'"
    using append_plain_core [OF ok fd ser(1) cell_frame_refl [OF oks] ser(2), of dbg] by blast
  have "row_holds c' r NullV env'" using nn is_null_cell_written [OF ap(4,2,3), of r] by (simp add: row_holds_def)
  moreover have "pages_ok env'" using ap(4) by (simp add: cell_written_def)
  ultimately show ?thesis
    using ap row_holds_cell_written [OF ap(4,2,3)] by (auto simp: appended_def split: sum.splits)
qed

lemma same_shape_trans: "same_shape a b \<Longrightarrow> same_shape b c \<Longrightarrow> same_shape a c"
  by (simp add: same_shape_def)

lemma appended_after:
  assumes "appended res c1 r v env1" "null_frame c env env1" "same_shape c c1" "pages_ok env" "files_distinct c"
    and "\<And>r'. r' \<noteq> r \<Longrightarrow> is_null c1 r' env1 = is_null c r' env"
  shows "appended res c r v env"
proof -
  have "row_versions env1 = row_versions env" "tx_id (txn env1) = tx_id (txn env)" "read_ts (txn env1) = read_ts (txn env)"
    "version_info c1 = version_info c"
    using assms(2,3) by (simp_all add: null_frame_def same_shape_def)
  moreover have "row_holds c1 r' w env1" if "r' \<noteq> r" "row_holds c r' w env" for r' w
    using row_holds_null_frame [OF assms(4,2,3,5) that(2)] assms(6) [OF that(1)] by simp
  ultimately show ?thesis
    using assms(1) same_shape_trans [OF assms(3)] unfolding appended_def by (auto split: sum.splits)
qed

lemma append_value_plain:
  assumes ok: "pages_ok env" and pc: "plain_col c" and v: "v = NullV \<or> storable c v \<and> overflow_room c v env"
  shows "\<exists>res. append_value dbg (Column c cs) v r env = bind_r res (\<lambda>(c, env). Ok (Column c cs, env)) \<and> appended res c r v env"
proof -
  let ?c = "c\<lparr>dirty := True\<rparr>"
  obtain c1 env1 where sn: "set_null ?c r (v = NullV) env = (c1, env1)" by fastforce
  have fd: "files_distinct c" "\<not> compressed c" "plain_type (data_type c)" using pc by (simp_all add: plain_col_def)
  note s = set_null_spec [OF ok sn]
  have sh: "same_shape c c1" "null_frame c env env1"
    using s(1,2) by (simp_all add: same_shape_def null_frame_def)
  have isn: "is_null c1 r' env1 = (if r' = r then v = NullV else is_null c r' env)" for r'
    using s(3) [of r'] by (simp add: is_null_eq pending_of_def null_bit_def)
  have ok1: "pages_ok env1" using sh(2) by (simp add: null_frame_def)
  have fd1: "files_distinct c1" using fd(1) sh(1) by (simp add: files_distinct_def same_shape_def)
  have dt: "data_type c1 = data_type c" using sh(1) by (simp add: same_shape_def)
  show ?thesis
  proof (cases "v = NullV")
    case True
    obtain c2 env2 where fp: "flush_pending_nulls c1 env1 = (c2, env2)" by fastforce
    note f = flush_pending_spec [OF ok1 fp]
    let ?c2 = "c2\<lparr>atomic_null_count := atomic_null_count c2 + 1\<rparr>"
    have sh2: "same_shape c ?c2" "null_frame c env env2"
      using same_shape_trans [OF sh(1) f(2)] f(1) sh by (simp_all add: same_shape_def null_frame_def)
    have isn2: "is_null ?c2 r' env2 = is_null c1 r' env1" for r'
      using f(3) [of r'] by (simp add: is_null_eq pending_of_def null_bit_def)
    have "pages_ok env2" "files_distinct ?c2" "is_null ?c2 r env2"
      using sh2 fd(1) isn2 isn True by (simp_all add: null_frame_def files_distinct_def same_shape_def)
    from appended_after [OF append_null_placeholder [OF this, of dbg] sh2(2,1) ok fd(1)]
    have "appended (append_plain_value dbg ?c2 zero_value r env2) c r NullV env" using isn isn2 by simp
    then show ?thesis using True sn fp fd(2)
      by (intro exI [of _ "append_plain_value dbg ?c2 zero_value r env2"])
        (simp add: append_value.simps ensure_writable_def Let_def)
  next
    case False
    have st: "storable c1 v" using v False by (simp add: same_shape_read [OF sh(1)])
    have "overflow_room c v env" using v False by simp
    then have "overflow_room c v env1"
      by (rule overflow_room_frame) (use sh(2) fd(1) in \<open>auto simp: null_frame_def files_distinct_def\<close>)
    then have room: "overflow_room c1 v env1" using sh(1) by (simp add: overflow_room_def same_shape_def)
    have "\<not> is_null c1 r env1" using isn False by simp
    from appended_after [OF append_plain_value_spec [OF ok1 fd1 st room this, of dbg] sh(2,1) ok fd(1)]
    have "appended (append_plain_value dbg c1 v r env1) c r v env" using isn by simp
    moreover have "append_value dbg (Column c cs) v r env
        = bind_r (append_plain_value dbg c1 v r env1) (\<lambda>(c, env). Ok (Column c cs, env))"
      using False sn fd(2,3) dt by (simp add: append_value.simps ensure_writable_def plain_case)
    ultimately show ?thesis by blast
  qed
qed

lemma mark_row_new: "\<exists>rv. mark_row new_row_version r t ts = Inr rv"
  by (simp add: mark_row_def new_row_version_def empty_shard_def get_shard_idx_def Let_def)

section \<open>Properties\<close>

text \<open>
  C4 [append_value_get_value]. Appending a value, or null, to a column of a plain type fails exactly when the
  row version store refuses the row, and otherwise the row reads back as the value and every other row that
  held a value, or null, still reads as it did, long strings in overflow pages included.
\<close>

theorem append_value_get_value:
  assumes "pages_ok env" "plain_col c" "v = NullV \<or> storable c v \<and> overflow_room c v env"
  shows "case mark_row (row_versions env (version_info c)) r (tx_id (txn env)) (read_ts (txn env)) of
      Inl cf \<Rightarrow> append_value dbg (Column c cs) v r env = Err (Database (conflict_message cf))
    | Inr rv \<Rightarrow> \<exists>col' env'. append_value dbg (Column c cs) v r env = Ok (col', env')
        \<and> get_value alp col' r env' = Ok v
        \<and> (\<forall>r' w. r' \<noteq> r \<longrightarrow> row_holds c r' w env \<longrightarrow>
             get_value alp (Column c cs) r' env = Ok w \<and> get_value alp col' r' env' = Ok w)"
proof -
  obtain res where res: "append_value dbg (Column c cs) v r env = bind_r res (\<lambda>(c, env). Ok (Column c cs, env))"
    "appended res c r v env"
    using append_value_plain [OF assms] by blast
  show ?thesis
  proof (cases "mark_row (row_versions env (version_info c)) r (tx_id (txn env)) (read_ts (txn env))")
    case (Inl cf)
    then show ?thesis using res by (simp add: appended_def)
  next
    case (Inr rv)
    then obtain c' env' where e: "res = Ok (c', env')" "same_shape c c'" "pages_ok env'" "row_holds c' r v env'"
      "\<forall>r' w. r' \<noteq> r \<longrightarrow> row_holds c r' w env \<longrightarrow> row_holds c' r' w env'"
      using res(2) by (auto simp: appended_def)
    have pc: "plain_col c'" using plain_col_shape [OF e(2)] assms(2) by simp
    have "append_value dbg (Column c cs) v r env = Ok (Column c' cs, env')" using res(1) e(1) by simp
    moreover have "get_value alp (Column c' cs) r env' = Ok v" using get_value_plain [OF pc e(3,4)] .
    ultimately show ?thesis
      using Inr e(5) get_value_plain [OF pc e(3)] get_value_plain [OF assms(2,1)] by auto
  qed
qed

theorem append_value_get_value_witness:
  "\<exists>col' env'. append_value (\<lambda>_. []) (Column (new_col ''age'' Int64T 1 2 None 0) []) (Number (int_to_f64 7)) 3 (example_store 0)
       = Ok (col', env')
     \<and> get_value (constant_compress, constant_decompress) col' 3 env' = Ok (Number (int_to_f64 7))"
proof -
  let ?c = "new_col ''age'' Int64T 1 2 None 0" and ?env = "example_store 0"
  have pc: "plain_col ?c" by (simp add: plain_col_def plain_type_def new_col_def files_distinct_def new_column_stats_def)
  have st: "storable ?c (Number (int_to_f64 7))"
    by (auto simp: storable_def new_col_def intro: exI [of _ 7])
  have room: "overflow_room ?c (Number (int_to_f64 7)) ?env" by (simp add: overflow_room_def)
  obtain rv where "mark_row (row_versions ?env (version_info ?c)) 3 (tx_id (txn ?env)) (read_ts (txn ?env)) = Inr rv"
    using mark_row_new [of 3 "tx_id (txn ?env)" "read_ts (txn ?env)"] by (auto simp: example_store_def)
  then show ?thesis
    using append_value_get_value [where env = ?env and c = ?c and v = "Number (int_to_f64 7)" and r = 3 and dbg = "\<lambda>_. []"
        and cs = "[]" and alp = "(constant_compress, constant_decompress)"] pages_ok_example pc st room
    by auto
qed

end
