(* ===== verification/Column_Scan.thy ===== *)
theory Column_Scan
  imports Column_Rows
begin

text \<open>
  The scan of a column (\<open>Column::scan\<close> of \<open>storage/column.rs\<close>): values are read in chunks of at most 32 that do not
  cross a page, straight from the page or through the codec of the column.
\<close>

text \<open>
  The loop of \<open>scan\<close>; \<open>cnt\<close> is \<open>num_values\<close> and \<open>temp\<close> the block that the codec fills. The chunk is never empty,
  because \<open>vpp\<close>, the number of values per page, is positive.
\<close>

function scan_loop ::
  "compress_fn \<times> decompress_fn \<Rightarrow> col \<Rightarrow> compression_metadata \<Rightarrow> compression_type \<Rightarrow> u64 \<Rightarrow> u64 \<Rightarrow> nat \<Rightarrow> nat \<Rightarrow> byte list \<Rightarrow> col_env
    \<Rightarrow> val list \<Rightarrow> val list result" where
  "scan_loop alp c m t vpp off cnt values_read temp env res =
     (if values_read < cnt \<and> 0 < vpp then
        (let current = off + of_nat values_read;
             value_idx = unat (current mod vpp);
             to_read = min (min (cnt - values_read) 32) (unat vpp - value_idx);
             page = read_pinned_page (fh c, current div vpp) env;
             es = col_size c
         in if t = UncompressedT
            then scan_loop alp c m t vpp off cnt (values_read + to_read) temp env
                   (res @ map (\<lambda>k. parse_value c (slice_at ((value_idx + k) * es) es page) env) [0..<to_read])
            else (case snd (get_alg alp t es) m page value_idx temp 0 to_read of
                    Err e \<Rightarrow> Err e
                  | Ok temp \<Rightarrow>
                      scan_loop alp c m t vpp off cnt (values_read + to_read) temp env
                        (res @ map (\<lambda>k. parse_value c (slice_at (k * es) es temp) env) [0..<to_read])))
      else Ok res)"
  by pat_completeness auto

lemma chunk_positive: "0 < vpp \<Longrightarrow> unat ((r :: u64) mod vpp) < unat vpp"
  by (simp add: unat_mod unat_gt_0 word_neq_0_conv)

lemma chunk_decreases:
  "values_read < cnt \<Longrightarrow> 0 < vpp \<Longrightarrow>
   cnt - (values_read + min (min (cnt - values_read) 32) (unat vpp - unat ((r :: u64) mod vpp))) < cnt - values_read"
  using chunk_positive [of vpp r] by auto

termination scan_loop
  by (relation "measure (\<lambda>(alp, c, m, t, vpp, off, n, r, temp, env, res). n - r)") (simp_all add: chunk_decreases)

declare scan_loop.simps [simp del]

definition scan :: "compress_fn \<times> decompress_fn \<Rightarrow> col \<Rightarrow> u64 \<Rightarrow> nat \<Rightarrow> col_env \<Rightarrow> val list \<Rightarrow> val list result" where
  "scan alp c off cnt env res =
     (case (col_compression c, compression_meta (col_stats c)) of
        (ConstantT, Some m) \<Rightarrow> Ok (res @ replicate cnt (min_value m))
      | (t, meta) \<Rightarrow>
          scan_loop alp c
            (case meta of Some m \<Rightarrow> m | None \<Rightarrow> \<lparr>min_value = NullV, max_value = NullV, compression = UncompressedT, bit_width = 0\<rparr>)
            t (if t = UncompressedT then rows_per_page c else 32) off cnt 0 (replicate (32 * col_size c) 0) env res)"

text \<open>The rows of a chunk lie on the page of its first row.\<close>

lemma nat_chunk:
  assumes "a mod v + k < (v :: nat)"
  shows "(a + k) div v = a div v" "(a + k) mod v = a mod v + k"
proof -
  have eq: "a + k = (a mod v + k) + a div v * v" by (simp add: mod_div_mult_eq)
  show "(a + k) div v = a div v" unfolding eq using assms by (subst div_mult_self1) auto
  show "(a + k) mod v = a mod v + k" unfolding eq using assms by (subst mod_mult_self1) auto
qed

lemma chunk_row:
  assumes "0 < vpp" "unat (r mod vpp) + k < unat vpp" "unat r + k < 2 ^ 64"
  shows "(r + of_nat k) div vpp = r div (vpp :: u64)" "unat ((r + of_nat k) mod vpp) = unat (r mod vpp) + k"
proof -
  have u: "unat (r + of_nat k) = unat r + k" using assms(3) by (intro unat_plus_of_nat) simp
  have lt: "unat r mod unat vpp + k < unat vpp" using assms(2) by (simp add: unat_mod)
  show "(r + of_nat k) div vpp = r div vpp" using nat_chunk(1) [OF lt] by (simp add: word_unat_eq_iff unat_div u)
  show "unat ((r + of_nat k) mod vpp) = unat (r mod vpp) + k" using nat_chunk(2) [OF lt] by (simp add: unat_mod u)
qed

lemma scan_loop_rows:
  assumes "vpp = rows_per_page c" "0 < vpp" "unat off + cnt \<le> 2 ^ 64" "values_read \<le> cnt"
  shows "scan_loop alp c m UncompressedT vpp off cnt values_read temp env res
    = Ok (res @ map (\<lambda>i. parse_value c (read_cell c (off + of_nat i) env) env) [values_read..<cnt])"
  using assms
proof (induction "cnt - values_read" arbitrary: values_read res rule: less_induct)
  case less
  show ?case
  proof (cases "values_read < cnt")
    case False
    then show ?thesis by (simp add: scan_loop.simps)
  next
    case True
    let ?r = "off + of_nat values_read :: u64"
    let ?n = "min (min (cnt - values_read) 32) (unat vpp - unat (?r mod vpp))"
    have ur: "unat ?r = unat off + values_read" using True less.prems(3) by (intro unat_plus_of_nat) simp
    have n: "0 < ?n" "values_read + ?n \<le> cnt" using True chunk_positive [OF less.prems(2), of ?r] by auto
    have cell: "parse_value c (slice_at ((unat (?r mod vpp) + k) * col_size c) (col_size c) (read_pinned_page (fh c, ?r div vpp) env)) env
        = parse_value c (read_cell c (off + of_nat (values_read + k)) env) env" if "k < ?n" for k
    proof -
      have "unat (?r mod vpp) + k < unat vpp" "unat ?r + k < 2 ^ 64" using that ur less.prems(3) by auto
      note row = chunk_row [OF less.prems(2) this]
      have "off + of_nat (values_read + k) = ?r + of_nat k" by simp
      then show ?thesis using row less.prems(1) by (simp only: read_cell_def)
    qed
    let ?chunk = "map (\<lambda>k. parse_value c (read_cell c (off + of_nat (values_read + k)) env) env) [0..<?n]"
    have chunk: "map (\<lambda>k. parse_value c (slice_at ((unat (?r mod vpp) + k) * col_size c) (col_size c)
        (read_pinned_page (fh c, ?r div vpp) env)) env) [0..<?n] = ?chunk"
      by (rule map_cong [OF refl], rule cell) simp
    have "scan_loop alp c m UncompressedT vpp off cnt values_read temp env res
        = scan_loop alp c m UncompressedT vpp off cnt (values_read + ?n) temp env (res @ ?chunk)"
      unfolding chunk [symmetric] using True less.prems(2) by (subst scan_loop.simps) (simp only: Let_def simp_thms if_True)
    also have "\<dots> = Ok ((res @ ?chunk) @ map (\<lambda>i. parse_value c (read_cell c (off + of_nat i) env) env) [values_read + ?n..<cnt])"
      by (rule less.hyps) (use n less.prems chunk_decreases [OF True less.prems(2)] in simp_all)
    also have "?chunk = map (\<lambda>i. parse_value c (read_cell c (off + of_nat i) env) env) [values_read..<values_read + ?n]"
      by (rule nth_equalityI) (simp_all del: of_nat_add)
    finally have "scan_loop alp c m UncompressedT vpp off cnt values_read temp env res
        = Ok (res @ map (\<lambda>i. parse_value c (read_cell c (off + of_nat i) env) env) ([values_read..<values_read + ?n] @ [values_read + ?n..<cnt]))"
      by (simp only: map_append append_assoc)
    moreover have "[values_read..<values_read + ?n] @ [values_read + ?n..<cnt] = [values_read..<cnt]"
      using upt_add_eq_append [of values_read "values_read + ?n" "cnt - (values_read + ?n)"] n(2) by (simp del: upt_add_eq_append)
    ultimately show ?thesis by (simp only:)
  qed
qed

text \<open>
  C22 [scan_row_by_row]. Scanning a range of rows of an uncompressed or constant column appends, in order, exactly the
  values that reading the rows one by one returns; chunks and page boundaries make no difference.
\<close>

theorem scan_row_by_row:
  assumes "col_compression c = UncompressedT \<or> col_compression c = ConstantT" "unat off + cnt \<le> 2 ^ 64"
  shows "\<exists>vs. scan alp c off cnt env res = Ok (res @ vs) \<and> length vs = cnt
    \<and> (\<forall>i < cnt. get_plain_value alp c (off + of_nat i) env = Ok (vs ! i))"
proof (cases "col_compression c = UncompressedT")
  case True
  let ?vs = "map (\<lambda>i. parse_value c (read_cell c (off + of_nat i) env) env) [0..<cnt]"
  have "0 < rows_per_page c" using rows_per_page_cases [of c] by (auto simp: word_gt_0)
  then have "scan alp c off cnt env res = Ok (res @ ?vs)"
    using True scan_loop_rows [OF refl, of c off cnt 0] assms(2) by (simp add: scan_def)
  moreover have "get_plain_value alp c (off + of_nat i) env = Ok (?vs ! i)" if "i < cnt" for i
    using True that by (simp add: get_plain_value_def)
  ultimately show ?thesis by (intro exI [of _ ?vs]) simp
next
  case False
  then have t: "col_compression c = ConstantT" using assms(1) by simp
  then obtain m where "compression_meta (col_stats c) = Some m"
    by (cases "compression_meta (col_stats c)") (auto simp: col_compression_def)
  then show ?thesis using t
    by (intro exI [of _ "replicate cnt (min_value m)"]) (simp add: scan_def get_plain_value_def)
qed

definition scan_col :: col where
  "scan_col = new_col ''age'' Int64T 1 2 None 0"

theorem scan_row_by_row_witness:
  "\<exists>vs. scan (rle_compress, rle_decompress) scan_col 510 40 (example_store 0) [] = Ok vs \<and> length vs = 40
     \<and> get_plain_value (rle_compress, rle_decompress) scan_col 513 (example_store 0) = Ok (vs ! 3)"
proof -
  have "col_compression scan_col = UncompressedT" by (simp add: scan_col_def new_col_def new_column_stats_def col_compression_def)
  then obtain vs where vs: "scan (rle_compress, rle_decompress) scan_col 510 40 (example_store 0) [] = Ok vs" "length vs = 40"
    "\<forall>i < 40. get_plain_value (rle_compress, rle_decompress) scan_col (510 + of_nat i) (example_store 0) = Ok (vs ! i)"
    using scan_row_by_row [of scan_col 510 40 "(rle_compress, rle_decompress)" "example_store 0" "[]"] by auto
  from vs(3) have "get_plain_value (rle_compress, rle_decompress) scan_col (510 + of_nat 3) (example_store 0) = Ok (vs ! 3)"
    by (elim allE [of _ 3]) simp
  then show ?thesis using vs(1,2) by auto
qed

end
