(* ===== verification/Wal.thy ===== *)
theory Wal
  imports Lightning_Prelude "HOL-Library.AList"
begin

text \<open>
  The write-ahead log (\<open>storage/wal.rs\<close>): the records, the group commit buffer, the log file with the position
  that reads and writes share, replay, and the record iterator of change data capture. The checksum of the
  \<open>crc\<close> crate is the argument \<open>crc\<close>. Reads and writes of the file succeed; flushing to disk and the archive of
  old logs are not part of the model.
\<close>

section \<open>Records\<close>

definition WAL_MAGIC :: "byte list" where
  "WAL_MAGIC = [76, 78, 73, 87]"

definition WAL_VERSION :: byte where
  "WAL_VERSION = 2"

definition WAL_VERSION_V1 :: byte where
  "WAL_VERSION_V1 = 1"

definition WAL_HEADER_SIZE :: nat where
  "WAL_HEADER_SIZE = 5"

definition RECORD_TYPE_PAGE_UPDATE :: byte where
  "RECORD_TYPE_PAGE_UPDATE = 1"

definition RECORD_TYPE_COMMIT :: byte where
  "RECORD_TYPE_COMMIT = 2"

definition PAGE_UPDATE_PAYLOAD_SIZE :: nat where
  "PAGE_UPDATE_PAYLOAD_SIZE = 24 + 4096"

definition COMMIT_PAYLOAD_SIZE :: nat where
  "COMMIT_PAYLOAD_SIZE = 8"

definition VALID_PAGE_UPDATE_LENGTH :: nat where
  "VALID_PAGE_UPDATE_LENGTH = 4 + PAGE_UPDATE_PAYLOAD_SIZE"

definition VALID_COMMIT_LENGTH :: nat where
  "VALID_COMMIT_LENGTH = 4 + COMMIT_PAYLOAD_SIZE"

definition MAX_SKIP_PER_CORRUPT_RECORD :: nat where
  "MAX_SKIP_PER_CORRUPT_RECORD = 65536"

definition WAL_PENDING_FLUSH_BYTES :: nat where
  "WAL_PENDING_FLUSH_BYTES = 8 * 1024 * 1024"

definition MAX_WAL_READ_SIZE :: nat where
  "MAX_WAL_READ_SIZE = 64 * 1024 * 1024"

lemmas wal_consts = WAL_MAGIC_def WAL_VERSION_def WAL_VERSION_V1_def WAL_HEADER_SIZE_def RECORD_TYPE_PAGE_UPDATE_def
  RECORD_TYPE_COMMIT_def PAGE_UPDATE_PAYLOAD_SIZE_def COMMIT_PAYLOAD_SIZE_def VALID_PAGE_UPDATE_LENGTH_def
  VALID_COMMIT_LENGTH_def

definition compute_checksum_v2 :: "(byte list \<Rightarrow> u32) \<Rightarrow> byte \<Rightarrow> u16 \<Rightarrow> byte list \<Rightarrow> u32" where
  "compute_checksum_v2 crc record_type len payload = crc ([record_type] @ le_bytes 2 len @ payload)"

section \<open>Writing\<close>

record wal =
  wal_file :: "byte list"
  wal_pos :: nat
  committed_txs :: "u64 set"
  pending_buf :: "byte list"
  wal_version :: byte

definition write_all :: "byte list \<Rightarrow> wal \<Rightarrow> wal" where
  "write_all bs w = w\<lparr>wal_file := write_at (wal_pos w) bs (wal_file w), wal_pos := wal_pos w + length bs\<rparr>"

definition write_header :: "wal \<Rightarrow> wal" where
  "write_header w = write_all [WAL_VERSION] (write_all WAL_MAGIC w)"

text \<open>The version of a valid header; the message of the error is only logged.\<close>

definition validate_header :: "byte list \<Rightarrow> byte option" where
  "validate_header bs =
     (if take 4 bs \<noteq> WAL_MAGIC then None
      else if bs ! 4 = WAL_VERSION_V1 then Some WAL_VERSION_V1
      else if bs ! 4 = WAL_VERSION then Some WAL_VERSION
      else None)"

text \<open>\<open>WAL::new\<close> on a file with the given contents; a file without a valid header starts over.\<close>

definition wal_new :: "byte list \<Rightarrow> wal" where
  "wal_new bs =
     (let fresh = write_header \<lparr>wal_file = [], wal_pos = 0, committed_txs = {}, pending_buf = [], wal_version = WAL_VERSION\<rparr>
      in if bs = [] then fresh
         else if length bs < WAL_HEADER_SIZE then fresh
         else (case validate_header bs of
                 Some v \<Rightarrow> \<lparr>wal_file = bs, wal_pos = WAL_HEADER_SIZE, committed_txs = {}, pending_buf = [], wal_version = v\<rparr>
               | None \<Rightarrow> fresh))"

definition padding :: "nat \<Rightarrow> nat" where
  "padding pos = (8 - pos mod 8) mod 8"

definition align_position :: "wal \<Rightarrow> wal" where
  "align_position w = (if 0 < padding (wal_pos w) then write_all (replicate (padding (wal_pos w)) 0) w else w)"

definition flush_pending :: "wal \<Rightarrow> wal" where
  "flush_pending w =
     (if pending_buf w = [] then w else align_position (write_all (pending_buf w) (w\<lparr>pending_buf := []\<rparr>)))"

definition page_payload :: "u64 \<Rightarrow> u64 \<Rightarrow> u64 \<Rightarrow> byte list \<Rightarrow> byte list" where
  "page_payload tx_id file_id page_idx data = le_bytes 8 tx_id @ le_bytes 8 file_id @ le_bytes 8 page_idx @ data"

definition log_page_update :: "(byte list \<Rightarrow> u32) \<Rightarrow> u64 \<Rightarrow> u64 \<Rightarrow> u64 \<Rightarrow> byte list \<Rightarrow> wal \<Rightarrow> wal" where
  "log_page_update crc tx_id file_id page_idx data w =
     (let len = of_nat (4 + 8 + 8 + 8 + 4096) :: u16;
          payload = page_payload tx_id file_id page_idx data;
          checksum = compute_checksum_v2 crc RECORD_TYPE_PAGE_UPDATE len payload;
          w = w\<lparr>pending_buf := pending_buf w @ [RECORD_TYPE_PAGE_UPDATE] @ le_bytes 2 len @ le_bytes 4 checksum @ payload\<rparr>
      in if WAL_PENDING_FLUSH_BYTES \<le> length (pending_buf w) then flush_pending w else w)"

definition log_commit :: "(byte list \<Rightarrow> u32) \<Rightarrow> u64 \<Rightarrow> wal \<Rightarrow> wal" where
  "log_commit crc tx_id w =
     (let len = of_nat (4 + 8) :: u16;
          payload = le_bytes 8 tx_id;
          checksum = compute_checksum_v2 crc RECORD_TYPE_COMMIT len payload;
          commit_record = pending_buf w @ [RECORD_TYPE_COMMIT] @ le_bytes 2 len @ le_bytes 4 checksum @ le_bytes 8 tx_id;
          w = align_position (write_all commit_record (w\<lparr>pending_buf := []\<rparr>))
      in w\<lparr>committed_txs := insert tx_id (committed_txs w)\<rparr>)"

definition wal_truncate :: "wal \<Rightarrow> wal" where
  "wal_truncate w = (write_header (w\<lparr>wal_file := [], wal_pos := 0\<rparr>))\<lparr>committed_txs := {}\<rparr>"

section \<open>Replay\<close>

text \<open>
  \<open>applied\<close> lists the calls of \<open>apply_page\<close> in order; what they return is ignored. The hash map of pending updates
  is an association list; the order in which \<open>drain\<close> visits it stands for the order of the hash map.
\<close>

type_synonym page_image = "u64 \<times> u64 \<times> byte list"

record replay_state =
  commits :: "u64 set"
  rp_pending :: "(u64 \<times> page_image list) list"
  applied :: "page_image list"
  records_read :: nat
  corrupt_records_skipped :: nat
  partial_record_at_eof :: bool
  max_tx_id :: u64
  framing_lost :: bool

definition replay_init :: replay_state where
  "replay_init = \<lparr>commits = {}, rp_pending = [], applied = [], records_read = 0, corrupt_records_skipped = 0,
     partial_record_at_eof = False, max_tx_id = 0, framing_lost = False\<rparr>"

definition read_exact :: "nat \<Rightarrow> byte list \<Rightarrow> (byte list \<times> byte list) option" where
  "read_exact n bs = (if n \<le> length bs then Some (take n bs, drop n bs) else None)"

definition handle_page_update :: "u64 \<Rightarrow> u64 \<Rightarrow> u64 \<Rightarrow> u64 \<Rightarrow> byte list \<Rightarrow> replay_state \<Rightarrow> replay_state" where
  "handle_page_update last_checkpoint_tx tx_id file_id page_idx data st =
     (if tx_id \<in> commits st \<and> tx_id > last_checkpoint_tx
      then st\<lparr>applied := applied st @ [(file_id, page_idx, data)]\<rparr>
      else st\<lparr>rp_pending := AList.update tx_id
                 ((case map_of (rp_pending st) tx_id of None \<Rightarrow> [] | Some us \<Rightarrow> us) @ [(file_id, page_idx, data)])
                 (rp_pending st)\<rparr>)"

text \<open>A record with a matching checksum.\<close>

definition page_update_ok :: "u64 \<Rightarrow> byte list \<Rightarrow> replay_state \<Rightarrow> replay_state" where
  "page_update_ok last_checkpoint_tx payload st =
     (let tx_id = from_le_bytes (slice_at 0 8 payload);
          st = st\<lparr>max_tx_id := max (max_tx_id st) tx_id\<rparr>
      in handle_page_update last_checkpoint_tx tx_id (from_le_bytes (slice_at 8 8 payload))
           (from_le_bytes (slice_at 16 8 payload)) (drop 24 payload) st)"

definition commit_ok :: "u64 \<Rightarrow> byte list \<Rightarrow> replay_state \<Rightarrow> replay_state" where
  "commit_ok last_checkpoint_tx payload st =
     (let tx_id = from_le_bytes payload;
          st = st\<lparr>max_tx_id := max (max_tx_id st) tx_id, commits := insert tx_id (commits st)\<rparr>
      in if tx_id > last_checkpoint_tx
         then (case map_of (rp_pending st) tx_id of
                 Some updates \<Rightarrow> st\<lparr>rp_pending := AList.delete tx_id (rp_pending st), applied := applied st @ updates\<rparr>
               | None \<Rightarrow> st)
         else st)"

text \<open>
  The result of reading a record after its type byte: whether it was processed, what is left of the file, and the
  state. After a torn record nothing is left.
\<close>

abbreviation torn :: "replay_state \<Rightarrow> bool \<times> byte list \<times> replay_state" where
  "torn st \<equiv> (False, [], st\<lparr>partial_record_at_eof := True\<rparr>)"

definition read_checked ::
  "byte \<Rightarrow> (byte list \<Rightarrow> u32) \<Rightarrow> byte \<Rightarrow> nat \<Rightarrow> nat \<Rightarrow> (byte list \<Rightarrow> replay_state \<Rightarrow> replay_state) \<Rightarrow> byte list \<Rightarrow> replay_state
    \<Rightarrow> bool \<times> byte list \<times> replay_state" where
  "read_checked version crc record_type valid_length payload_size ok bs st =
     (if version \<ge> 2 then
        (case read_exact 2 bs of
           None \<Rightarrow> torn st
         | Some (length_bytes, bs) \<Rightarrow>
             (let record_length = from_le_bytes length_bytes :: u16
              in if unat record_length \<noteq> valid_length
                 then (False, bs, st\<lparr>corrupt_records_skipped := corrupt_records_skipped st + 1, framing_lost := True\<rparr>)
                 else (case read_exact 4 bs of
                         None \<Rightarrow> torn st
                       | Some (checksum_bytes, bs) \<Rightarrow>
                           (case read_exact payload_size bs of
                              None \<Rightarrow> torn st
                            | Some (payload, bs) \<Rightarrow>
                                if compute_checksum_v2 crc record_type record_length payload \<noteq> from_le_bytes checksum_bytes
                                then (False, bs, st\<lparr>corrupt_records_skipped := corrupt_records_skipped st + 1\<rparr>)
                                else (True, bs, ok payload st)))))
      else
        (case read_exact 4 bs of
           None \<Rightarrow> torn st
         | Some (checksum_bytes, bs) \<Rightarrow>
             (case read_exact payload_size bs of
                None \<Rightarrow> torn st
              | Some (payload, bs) \<Rightarrow>
                  if crc ([record_type] @ payload) \<noteq> from_le_bytes checksum_bytes
                  then (False, bs, st\<lparr>corrupt_records_skipped := corrupt_records_skipped st + 1\<rparr>)
                  else (True, bs, ok payload st))))"

definition read_and_apply_page_update ::
  "byte \<Rightarrow> (byte list \<Rightarrow> u32) \<Rightarrow> u64 \<Rightarrow> byte list \<Rightarrow> replay_state \<Rightarrow> bool \<times> byte list \<times> replay_state" where
  "read_and_apply_page_update version crc last_checkpoint_tx bs st =
     read_checked version crc RECORD_TYPE_PAGE_UPDATE VALID_PAGE_UPDATE_LENGTH PAGE_UPDATE_PAYLOAD_SIZE
       (page_update_ok last_checkpoint_tx) bs st"

definition read_and_apply_commit ::
  "byte \<Rightarrow> (byte list \<Rightarrow> u32) \<Rightarrow> u64 \<Rightarrow> byte list \<Rightarrow> replay_state \<Rightarrow> bool \<times> byte list \<times> replay_state" where
  "read_and_apply_commit version crc last_checkpoint_tx bs st =
     read_checked version crc RECORD_TYPE_COMMIT VALID_COMMIT_LENGTH COMMIT_PAYLOAD_SIZE
       (commit_ok last_checkpoint_tx) bs st"

definition skip_unknown_record :: "byte \<Rightarrow> byte list \<Rightarrow> replay_state \<Rightarrow> byte list \<times> replay_state" where
  "skip_unknown_record version bs st =
     (if version \<ge> 2 then
        (case read_exact 2 bs of
           None \<Rightarrow> ([], st\<lparr>partial_record_at_eof := True\<rparr>)
         | Some (length_bytes, bs) \<Rightarrow>
             (let record_length = unat (from_le_bytes length_bytes :: u16)
              in if record_length > MAX_SKIP_PER_CORRUPT_RECORD
                 then (bs, st\<lparr>corrupt_records_skipped := corrupt_records_skipped st + 1, framing_lost := True\<rparr>)
                 else (case read_exact record_length bs of
                         None \<Rightarrow> ([], st\<lparr>partial_record_at_eof := True\<rparr>)
                       | Some (_, bs) \<Rightarrow> (bs, st\<lparr>corrupt_records_skipped := corrupt_records_skipped st + 1\<rparr>))))
      else (bs, st\<lparr>corrupt_records_skipped := corrupt_records_skipped st + 1\<rparr>))"

lemma read_exact_length: "read_exact n bs = Some (x, y) \<Longrightarrow> length y \<le> length bs \<and> length x = n"
  by (auto simp: read_exact_def split: if_splits)

lemma read_checked_length: "read_checked v crc ty l n ok bs st = (b, bs', st') \<Longrightarrow> length bs' \<le> length bs"
  by (auto simp: read_checked_def Let_def split: if_splits option.splits dest!: read_exact_length)

lemma skip_unknown_length: "skip_unknown_record v bs st = (bs', st') \<Longrightarrow> length bs' \<le> length bs"
  by (auto simp: skip_unknown_record_def Let_def split: if_splits option.splits dest!: read_exact_length)

lemma record_types [simp]: "RECORD_TYPE_COMMIT \<noteq> RECORD_TYPE_PAGE_UPDATE" "RECORD_TYPE_PAGE_UPDATE \<noteq> RECORD_TYPE_COMMIT"
  "RECORD_TYPE_COMMIT \<noteq> 0" "RECORD_TYPE_PAGE_UPDATE \<noteq> 0"
  by (simp_all add: wal_consts)

lemma record_lengths:
  "(b, bs', st') = read_and_apply_page_update v crc ckpt bs st \<Longrightarrow> length bs' \<le> length bs"
  "(b, bs', st') = read_and_apply_commit v crc ckpt bs st \<Longrightarrow> length bs' \<le> length bs"
  "(bs', st') = skip_unknown_record v bs st \<Longrightarrow> length bs' \<le> length bs"
  by (auto simp: read_and_apply_page_update_def read_and_apply_commit_def
      intro: read_checked_length [OF sym] skip_unknown_length [OF sym])

text \<open>The loop of \<open>replay\<close> over what is left of the file; it returns what it did not read.\<close>

function replay_loop :: "byte \<Rightarrow> (byte list \<Rightarrow> u32) \<Rightarrow> u64 \<Rightarrow> byte list \<Rightarrow> replay_state \<Rightarrow> byte list \<times> replay_state" where
  "replay_loop version crc ckpt [] st = ([], st)"
| "replay_loop version crc ckpt (record_type # bs) st =
     (if record_type = RECORD_TYPE_PAGE_UPDATE \<or> record_type = RECORD_TYPE_COMMIT then
        (case (if record_type = RECORD_TYPE_PAGE_UPDATE then read_and_apply_page_update version crc ckpt bs st
               else read_and_apply_commit version crc ckpt bs st) of
           (ok, bs, st) \<Rightarrow>
             if ok then replay_loop version crc ckpt bs (st\<lparr>records_read := records_read st + 1\<rparr>)
             else if partial_record_at_eof st \<or> framing_lost st then (bs, st)
             else replay_loop version crc ckpt bs st)
      else if record_type = 0 then replay_loop version crc ckpt bs st
      else
        (case skip_unknown_record version bs st of
           (bs, st) \<Rightarrow>
             if partial_record_at_eof st \<or> framing_lost st then (bs, st) else replay_loop version crc ckpt bs st))"
  by pat_completeness auto

termination replay_loop
  by (relation "measure (\<lambda>(v, crc, ckpt, bs, st). length bs)")
    (auto simp: less_Suc_eq_le split: prod.splits dest: record_lengths skip_unknown_length)

declare replay_loop.simps(2) [simp del]

definition drain_pending :: "u64 \<Rightarrow> replay_state \<Rightarrow> replay_state" where
  "drain_pending ckpt st =
     st\<lparr>rp_pending := [],
        applied := applied st @ concat (map snd (filter (\<lambda>(t, us). t > ckpt \<and> t \<in> commits st) (rp_pending st)))\<rparr>"

definition replay :: "(byte list \<Rightarrow> u32) \<Rightarrow> u64 \<Rightarrow> wal \<Rightarrow> replay_state \<times> wal" where
  "replay crc last_checkpoint_tx w =
     (let (rest, st) = replay_loop (wal_version w) crc last_checkpoint_tx (drop WAL_HEADER_SIZE (wal_file w)) replay_init;
          st = drain_pending last_checkpoint_tx st
      in (st, w\<lparr>wal_pos := length (wal_file w) - length rest,
                committed_txs := committed_txs w \<union> {t \<in> commits st. t > last_checkpoint_tx}\<rparr>))"

section \<open>The record iterator\<close>

record wal_iter =
  it_buf :: "byte list"
  it_pos :: nat
  base_offset :: nat
  it_version :: byte

text \<open>The message of a corrupt record is the position and the kind of damage; it is only logged.\<close>

datatype wal_record = PageUpdate u64 u64 u64 "byte list" | Commit u64 | Corrupt

text \<open>The read moves the position of the file that the writers share.\<close>

definition read_records_from :: "nat \<Rightarrow> wal \<Rightarrow> wal_iter \<times> wal" where
  "read_records_from off w =
     (let start = (if off < WAL_HEADER_SIZE then WAL_HEADER_SIZE else off);
          file_len = length (wal_file w)
      in if file_len \<le> start
         then (\<lparr>it_buf = [], it_pos = 0, base_offset = start, it_version = wal_version w\<rparr>, w)
         else (let to_read = min (file_len - start) MAX_WAL_READ_SIZE
               in (\<lparr>it_buf = slice_at start to_read (wal_file w), it_pos = 0, base_offset = start, it_version = wal_version w\<rparr>,
                   w\<lparr>wal_pos := start + to_read\<rparr>)))"

definition absolute_pos :: "wal_iter \<Rightarrow> nat" where
  "absolute_pos it = base_offset it + it_pos it"

definition iter_align :: "wal_iter \<Rightarrow> wal_iter" where
  "iter_align it = it\<lparr>it_pos := min (it_pos it + padding (base_offset it + it_pos it)) (length (it_buf it))\<rparr>"

text \<open>A page update or a commit at the position of the iterator; \<open>None\<close> in the middle skips a commit of version 1.\<close>

definition iter_page_update :: "(byte list \<Rightarrow> u32) \<Rightarrow> wal_iter \<Rightarrow> wal_record option \<times> wal_iter" where
  "iter_page_update crc it =
     (let hdr = (if it_version it \<ge> 2 then 1 + 2 + 4 else 1 + 4);
          needed = hdr + PAGE_UPDATE_PAYLOAD_SIZE;
          p = it_pos it;
          buf = it_buf it
      in if p + needed > length buf then (None, it)
         else
           (let payload = slice_at (p + hdr) PAGE_UPDATE_PAYLOAD_SIZE buf;
                stored_crc = from_le_bytes (slice_at (p + hdr - 4) 4 buf);
                record_length = from_le_bytes (slice_at (p + 1) 2 buf) :: u16
            in if it_version it \<ge> 2 \<and> unat record_length \<noteq> VALID_PAGE_UPDATE_LENGTH then (Some Corrupt, it)
               else if (if it_version it \<ge> 2 then compute_checksum_v2 crc RECORD_TYPE_PAGE_UPDATE record_length payload
                        else crc ([RECORD_TYPE_PAGE_UPDATE] @ payload)) \<noteq> stored_crc
               then (Some Corrupt, it)
               else (Some (PageUpdate (from_le_bytes (slice_at 0 8 payload)) (from_le_bytes (slice_at 8 8 payload))
                             (from_le_bytes (slice_at 16 8 payload)) (drop 24 payload)),
                     it\<lparr>it_pos := p + needed\<rparr>)))"

definition iter_commit :: "(byte list \<Rightarrow> u32) \<Rightarrow> wal_iter \<Rightarrow> wal_record option option \<times> wal_iter" where
  "iter_commit crc it =
     (let hdr = (if it_version it \<ge> 2 then 1 + 2 + 4 else 1 + 4);
          needed = hdr + COMMIT_PAYLOAD_SIZE;
          p = it_pos it;
          buf = it_buf it
      in if p + needed > length buf then (Some None, it)
         else
           (let payload = slice_at (p + hdr) COMMIT_PAYLOAD_SIZE buf;
                stored_crc = from_le_bytes (slice_at (p + hdr - 4) 4 buf);
                record_length = from_le_bytes (slice_at (p + 1) 2 buf) :: u16;
                next = iter_align (it\<lparr>it_pos := p + needed\<rparr>)
            in if it_version it \<ge> 2 then
                 (if unat record_length \<noteq> VALID_COMMIT_LENGTH then (Some (Some Corrupt), it)
                  else if compute_checksum_v2 crc RECORD_TYPE_COMMIT record_length payload \<noteq> stored_crc
                  then (Some (Some Corrupt), it)
                  else (Some (Some (Commit (from_le_bytes payload))), next))
               else if crc ([RECORD_TYPE_COMMIT] @ payload) \<noteq> stored_crc then (None, next)
               else (Some (Some (Commit (from_le_bytes payload))), next)))"

definition iter_skip :: "wal_iter \<Rightarrow> bool \<times> wal_iter" where
  "iter_skip it =
     (if it_version it \<ge> 2 then
        (if it_pos it + 1 + 2 > length (it_buf it) then (False, it)
         else
           (let record_length = unat (from_le_bytes (slice_at (it_pos it + 1) 2 (it_buf it)) :: u16);
                total = 1 + 2 + min record_length MAX_SKIP_PER_CORRUPT_RECORD
            in if it_pos it + total > length (it_buf it) then (False, it\<lparr>it_pos := length (it_buf it)\<rparr>)
               else (True, it\<lparr>it_pos := it_pos it + total\<rparr>)))
      else (True, it\<lparr>it_pos := it_pos it + 1\<rparr>))"

lemma iter_skip_advances: "iter_skip it = (True, it') \<Longrightarrow> it_pos it < it_pos it' \<and> it_buf it' = it_buf it"
  by (auto simp: iter_skip_def Let_def split: if_splits)

lemma iter_commit_advances:
  "iter_commit crc it = (None, it') \<Longrightarrow> it_pos it < length (it_buf it) \<Longrightarrow> it_pos it < it_pos it' \<and> it_buf it' = it_buf it"
  by (auto simp: iter_commit_def iter_align_def wal_consts Let_def split: if_splits)

function next_record :: "(byte list \<Rightarrow> u32) \<Rightarrow> wal_iter \<Rightarrow> wal_record option \<times> wal_iter" where
  "next_record crc it =
     (if it_pos it < length (it_buf it) then
        (let record_type = it_buf it ! it_pos it
         in if record_type = RECORD_TYPE_PAGE_UPDATE then iter_page_update crc it
            else if record_type = RECORD_TYPE_COMMIT
            then (case iter_commit crc it of (Some r, it) \<Rightarrow> (r, it) | (None, it) \<Rightarrow> next_record crc it)
            else if record_type = 0 then next_record crc (it\<lparr>it_pos := it_pos it + 1\<rparr>)
            else (case iter_skip it of (False, it) \<Rightarrow> (None, it) | (True, it) \<Rightarrow> next_record crc it))
      else (None, it))"
  by pat_completeness auto

termination next_record
proof (relation "measure (\<lambda>(crc, it). length (it_buf it) - it_pos it)", goal_cases)
  case (2 crc it x y z)
  then show ?case using iter_commit_advances [of crc it z] by (auto simp: diff_less_mono2)
next
  case (4 crc it x y z)
  then show ?case using iter_skip_advances [of it z] by (auto simp: diff_less_mono2)
qed auto

declare next_record.simps [simp del]

end
