(* ===== verification/Wal_Replay.thy ===== *)
theory Wal_Replay
  imports Wal
begin

text \<open>
  What replay recovers. The log file is a header and a sequence of encoded records and padding bytes; replay is
  shown to run over the records of the file, to stop at a torn record at its end, and to apply exactly the page
  images of the transactions whose commit record it reads.
\<close>

section \<open>Encoded records\<close>

fun enc :: "(byte list \<Rightarrow> u32) \<Rightarrow> wal_record \<Rightarrow> byte list" where
  "enc crc (PageUpdate t f p d) =
     [RECORD_TYPE_PAGE_UPDATE] @ le_bytes 2 (4124 :: u16)
       @ le_bytes 4 (compute_checksum_v2 crc RECORD_TYPE_PAGE_UPDATE 4124 (page_payload t f p d)) @ page_payload t f p d"
| "enc crc (Commit t) =
     [RECORD_TYPE_COMMIT] @ le_bytes 2 (12 :: u16)
       @ le_bytes 4 (compute_checksum_v2 crc RECORD_TYPE_COMMIT 12 (le_bytes 8 t)) @ le_bytes 8 t"
| "enc crc Corrupt = []"

fun wf_record :: "wal_record \<Rightarrow> bool" where
  "wf_record (PageUpdate t f p d) \<longleftrightarrow> length d = 4096"
| "wf_record (Commit t) \<longleftrightarrow> True"
| "wf_record Corrupt \<longleftrightarrow> False"

text \<open>An item of the file is a record or a padding byte.\<close>

fun enc_item :: "(byte list \<Rightarrow> u32) \<Rightarrow> wal_record option \<Rightarrow> byte list" where
  "enc_item crc None = [0]"
| "enc_item crc (Some r) = enc crc r"

definition wf_item :: "wal_record option \<Rightarrow> bool" where
  "wf_item i = (case i of None \<Rightarrow> True | Some r \<Rightarrow> wf_record r)"

fun record_step :: "u64 \<Rightarrow> wal_record \<Rightarrow> replay_state \<Rightarrow> replay_state" where
  "record_step ckpt (PageUpdate t f p d) st =
     (handle_page_update ckpt t f p d (st\<lparr>max_tx_id := max (max_tx_id st) t\<rparr>))\<lparr>records_read := records_read st + 1\<rparr>"
| "record_step ckpt (Commit t) st = (commit_ok ckpt (le_bytes 8 t) st)\<lparr>records_read := records_read st + 1\<rparr>"
| "record_step ckpt Corrupt st = st"

definition item_step :: "u64 \<Rightarrow> wal_record option \<Rightarrow> replay_state \<Rightarrow> replay_state" where
  "item_step ckpt i st = (case i of None \<Rightarrow> st | Some r \<Rightarrow> record_step ckpt r st)"

lemma read_exact_append [simp]: "length xs = n \<Longrightarrow> read_exact n (xs @ ys) = Some (xs, ys)"
  by (simp add: read_exact_def)

lemma length_page_payload [simp]: "length (page_payload t f p d) = 24 + length d"
  by (simp add: page_payload_def)

lemma page_update_ok_payload:
  "page_update_ok ckpt (page_payload t f p d) st = handle_page_update ckpt t f p d (st\<lparr>max_tx_id := max (max_tx_id st) t\<rparr>)"
  by (simp add: page_update_ok_def page_payload_def slice_at_def)

lemma counters_kept [simp]:
  "records_read (handle_page_update ckpt t f p d st) = records_read st"
  "records_read (commit_ok ckpt bs st) = records_read st"
  by (auto simp: handle_page_update_def commit_ok_def Let_def split: option.splits)

lemma record_sizes: "VALID_PAGE_UPDATE_LENGTH = 4124" "PAGE_UPDATE_PAYLOAD_SIZE = 4120" "VALID_COMMIT_LENGTH = 12" "COMMIT_PAYLOAD_SIZE = 8"
  by (simp_all add: wal_consts)

text \<open>Reading one checked record whose length field and checksum are those the writer computes.\<close>

lemma read_checked_enc:
  assumes "unat len = valid" "length payload = n"
  shows "read_checked WAL_VERSION crc ty valid n ok
      (le_bytes 2 (len :: u16) @ le_bytes 4 (compute_checksum_v2 crc ty len payload) @ payload @ bs) st = (True, bs, ok payload st)"
  using assms by (simp add: read_checked_def WAL_VERSION_def)

lemma read_checked_torn:
  assumes "unat len = valid" "length payload = n" "k < 6 + n"
  shows "read_checked WAL_VERSION crc ty valid n ok
      (take k (le_bytes 2 (len :: u16) @ le_bytes 4 (compute_checksum_v2 crc ty len payload) @ payload)) st
    = torn st"
proof -
  let ?c = "le_bytes 4 (compute_checksum_v2 crc ty len payload)"
  consider "k < 2" | "2 \<le> k" "k < 6" | "6 \<le> k" by linarith
  then show ?thesis
  proof cases
    case 1
    then show ?thesis by (simp add: read_checked_def WAL_VERSION_def read_exact_def)
  next
    case 2
    then have "take k (le_bytes 2 len @ ?c @ payload) = le_bytes 2 len @ take (k - 2) ?c" by simp
    moreover have "read_exact 4 (take (k - 2) ?c) = None" using 2 by (auto simp: read_exact_def)
    ultimately show ?thesis using assms(1) by (simp add: read_checked_def WAL_VERSION_def)
  next
    case 3
    then have eq: "take k (le_bytes 2 len @ ?c @ payload) = le_bytes 2 len @ ?c @ take (k - 6) payload" by simp
    have "read_exact n (take (k - 6) payload) = None" using 3 assms by (auto simp: read_exact_def)
    then show ?thesis unfolding eq using assms(1) by (simp add: read_checked_def WAL_VERSION_def)
  qed
qed

lemma replay_item:
  assumes "wf_item i"
  shows "replay_loop WAL_VERSION crc ckpt (enc_item crc i @ bs) st = replay_loop WAL_VERSION crc ckpt bs (item_step ckpt i st)"
proof (cases i)
  case None
  then show ?thesis by (simp add: replay_loop.simps(2) item_step_def)
next
  case (Some r)
  then have wf: "wf_record r" using assms by (simp add: wf_item_def)
  show ?thesis
  proof (cases r)
    case (PageUpdate t f p d)
    have "read_and_apply_page_update WAL_VERSION crc ckpt (tl (enc crc r) @ bs) st
        = (True, bs, page_update_ok ckpt (page_payload t f p d) st)"
      unfolding read_and_apply_page_update_def PageUpdate enc.simps append.simps list.sel append_assoc
      by (rule read_checked_enc) (use wf PageUpdate in \<open>simp_all add: record_sizes\<close>)
    then show ?thesis using Some PageUpdate
      by (simp add: replay_loop.simps(2) item_step_def page_update_ok_payload)
  next
    case (Commit t)
    have "read_and_apply_commit WAL_VERSION crc ckpt (tl (enc crc r) @ bs) st = (True, bs, commit_ok ckpt (le_bytes 8 t) st)"
      unfolding read_and_apply_commit_def Commit enc.simps append.simps list.sel append_assoc
      by (rule read_checked_enc) (simp_all add: record_sizes)
    then show ?thesis using Some Commit by (simp add: replay_loop.simps(2) item_step_def)
  next
    case Corrupt
    then show ?thesis using wf by simp
  qed
qed

lemma replay_items:
  "\<forall>i \<in> set items. wf_item i \<Longrightarrow>
   replay_loop WAL_VERSION crc ckpt (concat (map (enc_item crc) items) @ bs) st
     = replay_loop WAL_VERSION crc ckpt bs (fold (item_step ckpt) items st)"
  by (induction items arbitrary: st) (simp_all add: replay_item)

lemma replay_torn:
  assumes "wf_item i" "0 < k" "k < length (enc_item crc i)"
  shows "replay_loop WAL_VERSION crc ckpt (take k (enc_item crc i)) st = ([], st\<lparr>partial_record_at_eof := True\<rparr>)"
proof (cases i)
  case None
  then show ?thesis using assms by simp
next
  case (Some r)
  then have wf: "wf_record r" using assms by (simp add: wf_item_def)
  obtain k' where k: "k = Suc k'" using assms(2) by (cases k) auto
  show ?thesis
  proof (cases r)
    case (PageUpdate t f p d)
    have "read_and_apply_page_update WAL_VERSION crc ckpt (take k' (tl (enc crc r))) st = torn st"
      unfolding read_and_apply_page_update_def PageUpdate enc.simps append.simps list.sel
      by (rule read_checked_torn) (use wf PageUpdate Some assms(3) k in \<open>simp_all add: record_sizes\<close>)
    then show ?thesis using Some PageUpdate k by (simp add: replay_loop.simps(2))
  next
    case (Commit t)
    have "read_and_apply_commit WAL_VERSION crc ckpt (take k' (tl (enc crc r))) st = torn st"
      unfolding read_and_apply_commit_def Commit enc.simps append.simps list.sel
      by (rule read_checked_torn) (use Commit Some assms(3) k in \<open>simp_all add: record_sizes\<close>)
    then show ?thesis using Some Commit k by (simp add: replay_loop.simps(2))
  next
    case Corrupt
    then show ?thesis using wf by simp
  qed
qed

text \<open>A file cut off at any point: the records that are complete, and possibly a torn one.\<close>

lemma replay_prefix:
  "\<forall>i \<in> set items. wf_item i \<Longrightarrow>
   \<exists>n part. n \<le> length items \<and> length (concat (map (enc_item crc) (take n items))) \<le> k
     \<and> (n = length items \<or> k < length (concat (map (enc_item crc) (take (Suc n) items))))
     \<and> replay_loop WAL_VERSION crc ckpt (take k (concat (map (enc_item crc) items))) st
         = ([], (fold (item_step ckpt) (take n items) st)\<lparr>partial_record_at_eof := part\<rparr>)"
proof (induction items arbitrary: k st)
  case Nil
  have "replay_loop WAL_VERSION crc ckpt [] st = ([], st\<lparr>partial_record_at_eof := partial_record_at_eof st\<rparr>)" by simp
  then show ?case by (intro exI [of _ 0] exI [of _ "partial_record_at_eof st"]) simp
next
  case (Cons i items)
  let ?e = "enc_item crc i"
  show ?case
  proof (cases "length ?e \<le> k")
    case True
    obtain n part where n: "n \<le> length items" "length (concat (map (enc_item crc) (take n items))) \<le> k - length ?e"
      "n = length items \<or> k - length ?e < length (concat (map (enc_item crc) (take (Suc n) items)))"
      "replay_loop WAL_VERSION crc ckpt (take (k - length ?e) (concat (map (enc_item crc) items))) (item_step ckpt i st)
         = ([], (fold (item_step ckpt) (take n items) (item_step ckpt i st))\<lparr>partial_record_at_eof := part\<rparr>)"
      using Cons.IH [of "k - length ?e" "item_step ckpt i st"] Cons.prems by auto
    have "take k (concat (map (enc_item crc) (i # items))) = ?e @ take (k - length ?e) (concat (map (enc_item crc) items))"
      using True by simp
    then show ?thesis using n True Cons.prems
      by (intro exI [of _ "Suc n"] exI [of _ part]) (auto simp: replay_item)
  next
    case False
    then have "take k (concat (map (enc_item crc) (i # items))) = take k ?e" by simp
    moreover have "replay_loop WAL_VERSION crc ckpt (take k ?e) st
        = ([], st\<lparr>partial_record_at_eof := (if k = 0 then partial_record_at_eof st else True)\<rparr>)"
      using replay_torn [of i k crc ckpt st] False Cons.prems by auto
    ultimately show ?thesis using False by (intro exI [of _ 0] exI) (auto simp: not_le)
  qed
qed

section \<open>The log file\<close>

datatype wal_op = LogPage u64 u64 u64 "byte list" | LogCommit u64 | FlushPending

fun run_op :: "(byte list \<Rightarrow> u32) \<Rightarrow> wal_op \<Rightarrow> wal \<Rightarrow> wal" where
  "run_op crc (LogPage t f p d) w = log_page_update crc t f p d w"
| "run_op crc (LogCommit t) w = log_commit crc t w"
| "run_op crc FlushPending w = flush_pending w"

definition run_ops :: "(byte list \<Rightarrow> u32) \<Rightarrow> wal_op list \<Rightarrow> wal \<Rightarrow> wal" where
  "run_ops crc ops w = fold (run_op crc) ops w"

fun wf_op :: "wal_op \<Rightarrow> bool" where
  "wf_op (LogPage t f p d) \<longleftrightarrow> length d = 4096"
| "wf_op _ \<longleftrightarrow> True"

text \<open>The records that the operations write.\<close>

fun op_records :: "wal_op \<Rightarrow> wal_record list" where
  "op_records (LogPage t f p d) = [PageUpdate t f p d]"
| "op_records (LogCommit t) = [Commit t]"
| "op_records FlushPending = []"

definition records_of :: "wal_op list \<Rightarrow> wal_record list" where
  "records_of ops = concat (map op_records ops)"

fun somes :: "'a option list \<Rightarrow> 'a list" where
  "somes [] = []"
| "somes (None # xs) = somes xs"
| "somes (Some y # xs) = y # somes xs"

lemma somes_append [simp]: "somes (xs @ ys) = somes xs @ somes ys"
  by (induction xs rule: somes.induct) simp_all

lemma somes_map_Some [simp]: "somes (map Some ys) = ys"
  by (induction ys) simp_all

lemma somes_replicate [simp]: "somes (replicate n None) = []"
  by (induction n) simp_all

abbreviation wal_header :: "byte list" where
  "wal_header \<equiv> WAL_MAGIC @ [WAL_VERSION]"

definition log_shape :: "(byte list \<Rightarrow> u32) \<Rightarrow> wal_record option list \<Rightarrow> wal_record list \<Rightarrow> wal \<Rightarrow> bool" where
  "log_shape crc items buffered w \<longleftrightarrow> wal_version w = WAL_VERSION
     \<and> wal_file w = wal_header @ concat (map (enc_item crc) items) \<and> wal_pos w = length (wal_file w)
     \<and> pending_buf w = concat (map (enc crc) buffered) \<and> (\<forall>i \<in> set items. wf_item i) \<and> (\<forall>r \<in> set buffered. wf_record r)"

lemma log_shape_write:
  assumes "log_shape crc items buffered w" "\<forall>r \<in> set rs. wf_record r"
  shows "\<exists>n. log_shape crc (items @ map Some (buffered @ rs) @ replicate n None) []
       (align_position (write_all (pending_buf w @ concat (map (enc crc) rs)) (w\<lparr>pending_buf := []\<rparr>)))"
proof -
  define w' where "w' = write_all (pending_buf w @ concat (map (enc crc) rs)) (w\<lparr>pending_buf := []\<rparr>)"
  have enc_some: "concat (map (enc_item crc) (map Some xs)) = concat (map (enc crc) xs)" for xs
    by (induction xs) simp_all
  have pads: "concat (map (enc_item crc) (replicate n None)) = replicate n 0" for n
    by (induction n) simp_all
  have w': "log_shape crc (items @ map Some (buffered @ rs)) [] w'"
    using assms enc_some unfolding log_shape_def w'_def write_all_def
    by (auto simp: write_at_def wf_item_def)
  have "log_shape crc ((items @ map Some (buffered @ rs)) @ replicate (padding (wal_pos w')) None) [] (align_position w')"
    using w' pads unfolding log_shape_def align_position_def write_all_def
    by (auto simp: write_at_def wf_item_def)
  then show ?thesis unfolding w'_def [symmetric] by auto
qed

lemma log_shape_flush:
  assumes "log_shape crc items buffered w"
  shows "\<exists>items'. log_shape crc (items @ items') [] (flush_pending w) \<and> somes items' = buffered"
proof (cases "buffered = []")
  case True
  then have "flush_pending w = w" using assms by (simp add: flush_pending_def log_shape_def)
  then show ?thesis using assms True by (intro exI [of _ "[]"]) simp
next
  case False
  have "enc crc r \<noteq> []" if "wf_record r" for r using that by (cases r) simp_all
  then have "pending_buf w \<noteq> []" using assms False by (cases buffered) (auto simp: log_shape_def)
  moreover obtain n where "log_shape crc (items @ map Some buffered @ replicate n None) []
      (align_position (write_all (pending_buf w) (w\<lparr>pending_buf := []\<rparr>)))"
    using log_shape_write [OF assms, of "[]"] by auto
  ultimately show ?thesis
    by (intro exI [of _ "map Some buffered @ replicate n None"]) (simp add: flush_pending_def)
qed

lemma log_shape_page:
  assumes "log_shape crc items buffered w" "length d = 4096"
  shows "\<exists>items' buffered'. log_shape crc (items @ items') buffered' (log_page_update crc t f p d w)
    \<and> somes items' @ buffered' = buffered @ [PageUpdate t f p d]"
proof -
  define w' where "w' = w\<lparr>pending_buf := pending_buf w @ enc crc (PageUpdate t f p d)\<rparr>"
  have w': "log_shape crc items (buffered @ [PageUpdate t f p d]) w'"
    using assms by (auto simp: log_shape_def w'_def)
  have eq: "log_page_update crc t f p d w = (if WAL_PENDING_FLUSH_BYTES \<le> length (pending_buf w') then flush_pending w' else w')"
    by (simp add: log_page_update_def w'_def Let_def)
  show ?thesis
  proof (cases "WAL_PENDING_FLUSH_BYTES \<le> length (pending_buf w')")
    case True
    obtain items' where "log_shape crc (items @ items') [] (flush_pending w')" "somes items' = buffered @ [PageUpdate t f p d]"
      using log_shape_flush [OF w'] by blast
    then show ?thesis using True eq by (intro exI [of _ items'] exI [of _ "[]"]) simp
  next
    case False
    then show ?thesis using w' eq by (intro exI [of _ "[]"] exI) auto
  qed
qed

lemma log_shape_commit:
  assumes "log_shape crc items buffered w"
  shows "\<exists>items'. log_shape crc (items @ items') [] (log_commit crc t w) \<and> somes items' = buffered @ [Commit t]"
proof -
  obtain n where "log_shape crc (items @ map Some (buffered @ [Commit t]) @ replicate n None) []
      (align_position (write_all (pending_buf w @ enc crc (Commit t)) (w\<lparr>pending_buf := []\<rparr>)))"
    using log_shape_write [OF assms, of "[Commit t]"] by auto
  then have "log_shape crc (items @ map Some (buffered @ [Commit t]) @ replicate n None) [] (log_commit crc t w)"
    by (simp add: log_commit_def Let_def log_shape_def)
  then show ?thesis by (intro exI [of _ "map Some (buffered @ [Commit t]) @ replicate n None"]) simp
qed

lemma log_shape_op:
  assumes "log_shape crc items buffered w" "wf_op op"
  shows "\<exists>items' buffered'. log_shape crc (items @ items') buffered' (run_op crc op w)
    \<and> somes items' @ buffered' = buffered @ op_records op"
proof (cases op)
  case (LogPage t f p d)
  then show ?thesis using log_shape_page [OF assms(1), of d t f p] assms(2) by simp
next
  case (LogCommit t)
  then show ?thesis using log_shape_commit [OF assms(1), of t] by (metis append_Nil2 op_records.simps(2) run_op.simps(2))
next
  case FlushPending
  then show ?thesis using log_shape_flush [OF assms(1)] by (metis append_Nil2 op_records.simps(3) run_op.simps(3))
qed

lemma log_shape_ops:
  assumes "log_shape crc items buffered w" "\<forall>op \<in> set ops. wf_op op"
  shows "\<exists>items' buffered'. log_shape crc (items @ items') buffered' (run_ops crc ops w)
    \<and> somes items' @ buffered' = buffered @ records_of ops"
  using assms
proof (induction ops arbitrary: items buffered w)
  case Nil
  then show ?case by (intro exI [of _ "[]"] exI [of _ buffered]) (simp add: run_ops_def records_of_def)
next
  case (Cons op ops)
  obtain i1 b1 where 1: "log_shape crc (items @ i1) b1 (run_op crc op w)" "somes i1 @ b1 = buffered @ op_records op"
    using log_shape_op Cons.prems by force
  obtain i2 b2 where 2: "log_shape crc ((items @ i1) @ i2) b2 (run_ops crc ops (run_op crc op w))" "somes i2 @ b2 = b1 @ records_of ops"
    using Cons.IH [OF 1(1)] Cons.prems by auto
  have "somes (i1 @ i2) @ b2 = buffered @ records_of (op # ops)"
    using 1(2) 2(2) by (metis append.assoc concat.simps(2) list.simps(9) records_of_def somes_append)
  then show ?case using 2(1) by (intro exI [of _ "i1 @ i2"] exI [of _ b2]) (simp add: run_ops_def)
qed

lemma log_shape_new: "log_shape crc [] [] (wal_new [])"
  by (simp add: log_shape_def wal_new_def write_header_def write_all_def write_at_def)

end
