(* ===== verification/Wal_Properties.thy ===== *)
theory Wal_Properties
  imports Wal_Replay
begin

text \<open>
  The durability of the log: replay refines a redo of the committed transactions in commit order, every crash after
  a commit keeps it, and what the reader of change data capture does to the file it shares with the writers.
\<close>

section \<open>Replay over records\<close>

fun image_of :: "u64 \<Rightarrow> wal_record \<Rightarrow> page_image list" where
  "image_of t (PageUpdate u f p d) = (if u = t then [(f, p, d)] else [])"
| "image_of t _ = []"

text \<open>The page images a transaction logged, in order, and the transactions in the order of their commits.\<close>

definition images :: "u64 \<Rightarrow> wal_record list \<Rightarrow> page_image list" where
  "images t rs = concat (map (image_of t) rs)"

fun commit_order :: "wal_record list \<Rightarrow> u64 list" where
  "commit_order [] = []"
| "commit_order (Commit t # rs) = t # commit_order rs"
| "commit_order (_ # rs) = commit_order rs"

definition redo :: "u64 \<Rightarrow> wal_record list \<Rightarrow> page_image list" where
  "redo ckpt rs = concat (map (\<lambda>t. images t rs) (filter (\<lambda>t. ckpt < t) (commit_order rs)))"

text \<open>A transaction logs nothing after its commit.\<close>

fun tx_of :: "wal_record \<Rightarrow> u64" where
  "tx_of (PageUpdate t f p d) = t"
| "tx_of (Commit t) = t"
| "tx_of Corrupt = 0"

fun sealed :: "wal_record list \<Rightarrow> bool" where
  "sealed [] \<longleftrightarrow> True"
| "sealed (Commit t # rs) \<longleftrightarrow> t \<notin> tx_of ` set rs \<and> sealed rs"
| "sealed (_ # rs) \<longleftrightarrow> sealed rs"

lemma images_simps [simp]: "images t [] = []" "images t (rs @ rs') = images t rs @ images t rs'"
  "images t [r] = image_of t r"
  by (simp_all add: images_def)

lemma commit_order_append [simp]: "commit_order (rs @ rs') = commit_order rs @ commit_order rs'"
  by (induction rs rule: commit_order.induct) simp_all

lemma set_commit_order: "t \<in> set (commit_order rs) \<longleftrightarrow> Commit t \<in> set rs"
  by (induction rs rule: commit_order.induct) auto

lemma sealed_append: "sealed (rs @ [r]) \<Longrightarrow> sealed rs \<and> Commit (tx_of r) \<notin> set rs"
  by (induction rs rule: sealed.induct) auto

definition replay_inv :: "u64 \<Rightarrow> wal_record list \<Rightarrow> replay_state \<Rightarrow> bool" where
  "replay_inv ckpt rs st \<longleftrightarrow> commits st = {t. Commit t \<in> set rs} \<and> distinct (map fst (rp_pending st))
     \<and> (\<forall>t. map_of (rp_pending st) t
          = (if Commit t \<in> set rs \<and> ckpt < t \<or> images t rs = [] then None else Some (images t rs)))
     \<and> set (applied st) = (\<Union>t \<in> {t. Commit t \<in> set rs \<and> ckpt < t}. set (images t rs))
     \<and> (sealed rs \<longrightarrow> applied st = redo ckpt rs)
     \<and> corrupt_records_skipped st = 0 \<and> \<not> framing_lost st"

lemma replay_inv_init: "replay_inv ckpt [] replay_init"
  by (simp add: replay_inv_def replay_init_def redo_def)

lemma redo_page:
  assumes "Commit t \<notin> set rs"
  shows "redo ckpt (rs @ [PageUpdate t f p d]) = redo ckpt rs"
proof -
  have "map (\<lambda>u. images u (rs @ [PageUpdate t f p d])) (filter (\<lambda>u. ckpt < u) (commit_order rs))
      = map (\<lambda>u. images u rs) (filter (\<lambda>u. ckpt < u) (commit_order rs))"
    using assms by (intro map_cong) (auto simp: set_commit_order)
  then show ?thesis unfolding redo_def commit_order_append commit_order.simps append_Nil2 by (rule arg_cong)
qed

lemma redo_commit: "redo ckpt (rs @ [Commit t]) = redo ckpt rs @ (if ckpt < t then images t rs else [])"
  by (simp add: redo_def)

lemma replay_inv_page:
  assumes "replay_inv ckpt rs st"
  shows "replay_inv ckpt (rs @ [PageUpdate t f p d]) (record_step ckpt (PageUpdate t f p d) st)"
proof (cases "Commit t \<in> set rs \<and> ckpt < t")
  case True
  moreover have "\<not> sealed (rs @ [PageUpdate t f p d])" using True sealed_append by fastforce
  ultimately show ?thesis using assms
    by (auto simp: replay_inv_def handle_page_update_def)
next
  case False
  have old: "(case map_of (rp_pending st) t of None \<Rightarrow> [] | Some us \<Rightarrow> us) = images t rs"
    using assms False by (auto simp: replay_inv_def)
  have "sealed (rs @ [PageUpdate t f p d]) \<Longrightarrow> redo ckpt (rs @ [PageUpdate t f p d]) = redo ckpt rs"
    using sealed_append redo_page by fastforce
  then show ?thesis using assms False old
    by (auto simp: replay_inv_def handle_page_update_def update_conv' distinct_update dest: sealed_append)
qed

lemma replay_inv_commit:
  assumes "replay_inv ckpt rs st"
  shows "replay_inv ckpt (rs @ [Commit t]) (record_step ckpt (Commit t) st)"
proof -
  have sl: "sealed (rs @ [Commit t]) \<Longrightarrow> sealed rs \<and> Commit t \<notin> set rs" using sealed_append by fastforce
  show ?thesis
  proof (cases "ckpt < t \<and> images t rs \<noteq> [] \<and> Commit t \<notin> set rs")
    case True
    then have "map_of (rp_pending st) t = Some (images t rs)" using assms by (simp add: replay_inv_def)
    then show ?thesis using assms True sl
      by (auto simp: replay_inv_def commit_ok_def Let_def redo_commit delete_conv' distinct_delete)
  next
    case False
    then have "ckpt < t \<Longrightarrow> map_of (rp_pending st) t = None" using assms by (auto simp: replay_inv_def)
    then show ?thesis using assms False sl
      by (auto simp: replay_inv_def commit_ok_def Let_def redo_commit)
  qed
qed

lemma replay_inv_records:
  "\<forall>r \<in> set rs'. wf_record r \<Longrightarrow> replay_inv ckpt rs st \<Longrightarrow> replay_inv ckpt (rs @ rs') (fold (record_step ckpt) rs' st)"
proof (induction rs' arbitrary: rs st)
  case Nil
  then show ?case by simp
next
  case (Cons r rs')
  have "replay_inv ckpt (rs @ [r]) (record_step ckpt r st)"
    using Cons.prems replay_inv_page replay_inv_commit by (cases r) auto
  then show ?case using Cons.IH [of "rs @ [r]" "record_step ckpt r st"] Cons.prems by simp
qed

lemma fold_items: "fold (item_step ckpt) items st = fold (record_step ckpt) (somes items) st"
  by (induction items arbitrary: st rule: somes.induct) (simp_all add: item_step_def)

lemma wf_somes: "\<forall>i \<in> set items. wf_item i \<Longrightarrow> \<forall>r \<in> set (somes items). wf_record r"
  by (induction items rule: somes.induct) (auto simp: wf_item_def)

text \<open>The final drain finds nothing left to apply.\<close>

lemma drain_nothing:
  assumes "replay_inv ckpt rs st"
  shows "applied (drain_pending ckpt st) = applied st"
proof -
  have "\<not> (ckpt < t \<and> t \<in> commits st)" if "(t, us) \<in> set (rp_pending st)" for t us
  proof -
    have "distinct (map fst (rp_pending st))" using assms by (simp add: replay_inv_def)
    then have "map_of (rp_pending st) t = Some us" using that by (rule map_of_is_SomeI)
    then show ?thesis using assms by (auto simp: replay_inv_def split: if_splits)
  qed
  then have "filter (\<lambda>(t, us). t > ckpt \<and> t \<in> commits st) (rp_pending st) = []"
    by (auto simp: filter_empty_conv)
  then show ?thesis unfolding drain_pending_def by simp
qed

lemma replay_inv_partial [simp]: "replay_inv ckpt rs (st\<lparr>partial_record_at_eof := b\<rparr>) = replay_inv ckpt rs st"
  by (simp add: replay_inv_def)

section \<open>Reopening the log\<close>

lemma wal_new_reopen:
  assumes "5 \<le> k"
  shows "wal_new (take k (wal_header @ bs)) = \<lparr>wal_file = wal_header @ take (k - 5) bs, wal_pos = 5, committed_txs = {},
    pending_buf = [], wal_version = WAL_VERSION\<rparr>"
proof -
  have "take k (wal_header @ bs) = wal_header @ take (k - 5) bs"
    using assms unfolding take_append by (simp add: WAL_MAGIC_def numeral_eq_Suc)
  then show ?thesis
    by (simp add: wal_new_def validate_header_def WAL_HEADER_SIZE_def WAL_MAGIC_def WAL_VERSION_def WAL_VERSION_V1_def Let_def)
qed

text \<open>Replay of a log cut off at \<open>k\<close> bytes sees the records of some prefix of its items, with all that fit.\<close>

lemma replay_cut:
  assumes "log_shape crc items buffered w" "5 \<le> k"
  shows "\<exists>n. n \<le> length items
    \<and> (n = length items \<or> k < 5 + length (concat (map (enc_item crc) (take (Suc n) items))))
    \<and> (let st = fst (replay crc ckpt (wal_new (take k (wal_file w))))
       in \<exists>st'. replay_inv ckpt (somes (take n items)) st' \<and> commits st = commits st' \<and> applied st = applied st'
          \<and> corrupt_records_skipped st = 0 \<and> \<not> framing_lost st)"
proof -
  have wf: "\<forall>i \<in> set items. wf_item i" and wf_file: "wal_file w = wal_header @ concat (map (enc_item crc) items)"
    using assms(1) by (simp_all add: log_shape_def)
  obtain n part where n: "n \<le> length items"
    "n = length items \<or> k - 5 < length (concat (map (enc_item crc) (take (Suc n) items)))"
    "replay_loop WAL_VERSION crc ckpt (take (k - 5) (concat (map (enc_item crc) items))) replay_init
       = ([], (fold (item_step ckpt) (take n items) replay_init)\<lparr>partial_record_at_eof := part\<rparr>)"
    using replay_prefix [OF wf, of crc "k - 5" ckpt replay_init] by blast
  let ?st = "(fold (item_step ckpt) (take n items) replay_init)\<lparr>partial_record_at_eof := part\<rparr>"
  have "\<forall>i \<in> set (take n items). wf_item i" using wf by (auto dest: in_set_takeD)
  then have "replay_inv ckpt ([] @ somes (take n items)) (fold (record_step ckpt) (somes (take n items)) replay_init)"
    by (intro replay_inv_records wf_somes replay_inv_init)
  then have inv: "replay_inv ckpt (somes (take n items)) ?st" by (simp add: fold_items)
  have "wal_new (take k (wal_file w)) = \<lparr>wal_file = wal_header @ take (k - 5) (concat (map (enc_item crc) items)), wal_pos = 5,
      committed_txs = {}, pending_buf = [], wal_version = WAL_VERSION\<rparr>"
    unfolding wf_file using assms(2) by (rule wal_new_reopen)
  then have "fst (replay crc ckpt (wal_new (take k (wal_file w)))) = drain_pending ckpt ?st"
    using n(3) by (simp add: replay_def WAL_HEADER_SIZE_def WAL_MAGIC_def Let_def)
  moreover have "commits (drain_pending ckpt ?st) = commits ?st" "corrupt_records_skipped (drain_pending ckpt ?st) = 0"
    "\<not> framing_lost (drain_pending ckpt ?st)"
    using inv by (simp_all add: drain_pending_def replay_inv_def)
  ultimately show ?thesis using n(1,2) inv drain_nothing [OF inv] assms(2)
    by (intro exI [of _ n]) (auto simp: Let_def)
qed

lemma records_of_simps [simp]: "records_of [] = []" "records_of (ops @ ops') = records_of ops @ records_of ops'"
  "records_of (op # ops) = op_records op @ records_of ops"
  by (simp_all add: records_of_def)

lemma write_at_write_at:
  "off \<le> length xs \<Longrightarrow> write_at (off + length ys) zs (write_at off ys xs) = write_at off (ys @ zs) xs"
  by (simp add: write_at_def ac_simps)

lemma run_ops_append: "run_ops crc (ops @ ops') w = run_ops crc ops' (run_ops crc ops w)"
  by (simp add: run_ops_def)

text \<open>After a commit everything logged so far is in the file.\<close>

lemma committed_shape:
  assumes "\<forall>op \<in> set ops. wf_op op"
  shows "\<exists>items. log_shape crc items [] (run_ops crc (ops @ [LogCommit t]) (wal_new [])) \<and> somes items = records_of (ops @ [LogCommit t])"
proof -
  obtain i b where "log_shape crc i b (run_ops crc ops (wal_new []))" "somes i @ b = records_of ops"
    using log_shape_ops [OF log_shape_new [of crc] assms] by auto
  moreover obtain i' where "log_shape crc (i @ i') [] (log_commit crc t (run_ops crc ops (wal_new [])))" "somes i' = b @ [Commit t]"
    using log_shape_commit [OF calculation(1)] by blast
  ultimately show ?thesis
    by (intro exI [of _ "i @ i'"]) (simp add: run_ops_append, simp add: run_ops_def)
qed

text \<open>
  C8 [wal_replay_refines]. When transactions log nothing after their commit, replaying the log after a commit
  applies exactly the page images of the committed transactions above the checkpoint, transaction by transaction
  in the order of their commit records and each in the order it logged them, and reports no damage.
\<close>

theorem wal_replay_refines:
  assumes "\<forall>op \<in> set ops. wf_op op" "sealed (records_of (ops @ [LogCommit t]))"
  shows "applied (fst (replay crc ckpt (wal_new (wal_file (run_ops crc (ops @ [LogCommit t]) (wal_new []))))))
    = redo ckpt (records_of (ops @ [LogCommit t]))"
proof -
  let ?w = "run_ops crc (ops @ [LogCommit t]) (wal_new [])"
  obtain items where items: "log_shape crc items [] ?w" "somes items = records_of (ops @ [LogCommit t])"
    using committed_shape [OF assms(1)] by blast
  have len: "length (wal_file ?w) = 5 + length (concat (map (enc_item crc) items))"
    using items(1) by (simp add: log_shape_def WAL_MAGIC_def)
  obtain n where n: "n \<le> length items"
    "n = length items \<or> length (wal_file ?w) < 5 + length (concat (map (enc_item crc) (take (Suc n) items)))"
    and st: "\<exists>st'. replay_inv ckpt (somes (take n items)) st'
      \<and> applied (fst (replay crc ckpt (wal_new (take (length (wal_file ?w)) (wal_file ?w))))) = applied st'"
    using replay_cut [OF items(1), of "length (wal_file ?w)" ckpt] len by (auto simp: Let_def)
  have "length (concat (map (enc_item crc) (take (Suc n) items))) \<le> length (concat (map (enc_item crc) items))"
    by (subst (2) append_take_drop_id [of "Suc n" items, symmetric]) (simp only: map_append concat_append length_append le_add1)
  then have "n = length items" using n(2) len by simp
  then show ?thesis using st items(2) assms(2) by (auto simp: replay_inv_def)
qed

theorem wal_replay_refines_witness:
  "applied (fst (replay (\<lambda>_. 0) 0 (wal_new (wal_file
     (run_ops (\<lambda>_. 0) ([LogPage 3 1 0 (replicate 4096 7), LogPage 4 1 1 (replicate 4096 8)] @ [LogCommit 3]) (wal_new []))))))
   = [(1, 0, replicate 4096 7)]"
  by (subst wal_replay_refines) (simp_all add: redo_def images_def)

lemma length_items_mono:
  "n \<le> length xs \<Longrightarrow> length (concat (map g (take n (xs @ ys)))) \<le> length (concat (map g xs))"
  by (subst (2) append_take_drop_id [of n xs, symmetric]) (simp only: take_append map_append concat_append length_append; simp)

lemma set_somes_take: "r \<in> set (somes (take n items)) \<Longrightarrow> r \<in> set (somes items)"
  by (subst append_take_drop_id [of n items, symmetric], subst somes_append) simp

lemma in_images: "x \<in> set (images u rs) \<longleftrightarrow> (\<exists>r \<in> set rs. x \<in> set (image_of u r))"
  by (auto simp: images_def)

text \<open>
  C1 [wal_crash_recovery]. Once \<open>log_commit\<close> has returned, whatever is logged afterwards and wherever a crash cuts
  the file behind that point, replay finds the transaction committed and applies every page image it had
  logged; and nothing is applied that does not belong to a committed transaction above the checkpoint.
\<close>

theorem wal_crash_recovery:
  assumes "\<forall>op \<in> set ops1. wf_op op" "\<forall>op \<in> set ops2. wf_op op" "ckpt < t"
    and "w1 = run_ops crc (ops1 @ [LogCommit t]) (wal_new [])" "length (wal_file w1) \<le> k"
    and "st = fst (replay crc ckpt (wal_new (take k (wal_file (run_ops crc ops2 w1)))))"
  shows "t \<in> commits st \<and> set (images t (records_of ops1)) \<subseteq> set (applied st)
    \<and> (\<forall>x \<in> set (applied st). \<exists>u > ckpt. x \<in> set (images u (records_of (ops1 @ ops2)))
         \<and> Commit u \<in> set (records_of (ops1 @ [LogCommit t] @ ops2)))
    \<and> corrupt_records_skipped st = 0 \<and> \<not> framing_lost st"
proof -
  obtain i1 where i1: "log_shape crc i1 [] w1" "somes i1 = records_of ops1 @ [Commit t]"
    using committed_shape [OF assms(1)] assms(4) by fastforce
  obtain i2 b where i2: "log_shape crc (i1 @ i2) b (run_ops crc ops2 w1)" "somes i2 @ b = records_of ops2"
    using log_shape_ops [OF i1(1) assms(2)] by auto
  have len: "length (wal_file w1) = 5 + length (concat (map (enc_item crc) i1))"
    using i1(1) by (simp add: log_shape_def WAL_MAGIC_def)
  obtain n st' where n: "n \<le> length (i1 @ i2)"
    "n = length (i1 @ i2) \<or> k < 5 + length (concat (map (enc_item crc) (take (Suc n) (i1 @ i2))))"
    and st: "replay_inv ckpt (somes (take n (i1 @ i2))) st'" "commits st = commits st'" "applied st = applied st'"
      "corrupt_records_skipped st = 0" "\<not> framing_lost st"
    using replay_cut [OF i2(1), of k ckpt] assms(5,6) len by (auto simp: Let_def)
  have "length i1 \<le> n"
  proof (rule ccontr)
    assume less: "\<not> length i1 \<le> n"
    then have "length (concat (map (enc_item crc) (take (Suc n) (i1 @ i2)))) \<le> length (concat (map (enc_item crc) i1))"
      by (intro length_items_mono) simp
    then show False using n(2) less assms(5) len by auto
  qed
  then have rs: "somes (take n (i1 @ i2)) = records_of ops1 @ [Commit t] @ somes (take (n - length i1) i2)"
    using i1(2) by simp
  have sub: "r \<in> set (records_of ops2)" if "r \<in> set (somes (take (n - length i1) i2))" for r
    using set_somes_take [OF that] i2(2) by (metis Un_iff set_append)
  let ?rs = "somes (take n (i1 @ i2))"
  have ap: "set (applied st) = (\<Union>u \<in> {u. Commit u \<in> set ?rs \<and> ckpt < u}. set (images u ?rs))"
    and cm: "commits st = {u. Commit u \<in> set ?rs}" using st by (simp_all add: replay_inv_def)
  have "set (images t (records_of ops1)) \<subseteq> set (applied st)" unfolding ap using rs assms(3) by auto
  moreover have "\<exists>u > ckpt. x \<in> set (images u (records_of (ops1 @ ops2)))
      \<and> Commit u \<in> set (records_of (ops1 @ [LogCommit t] @ ops2))" if x: "x \<in> set (applied st)" for x
  proof -
    obtain u where u: "Commit u \<in> set ?rs" "ckpt < u" "x \<in> set (images u ?rs)" using x unfolding ap by auto
    have "x \<in> set (images u (records_of (ops1 @ ops2)))" using u(3) sub unfolding rs by (auto simp: in_images)
    moreover have "Commit u \<in> set (records_of (ops1 @ [LogCommit t] @ ops2))" using u(1) sub unfolding rs by auto
    ultimately show ?thesis using u(2) by blast
  qed
  ultimately show ?thesis using st(4,5) cm rs by auto
qed

theorem wal_crash_recovery_witness:
  "let w1 = run_ops (\<lambda>_. 0) ([LogPage 3 1 0 (replicate 4096 7)] @ [LogCommit 3]) (wal_new []);
       st = fst (replay (\<lambda>_. 0) 0 (wal_new (take (length (wal_file w1) + 10)
              (wal_file (run_ops (\<lambda>_. 0) [LogPage 4 1 0 (replicate 4096 9), FlushPending] w1)))))
   in 3 \<in> commits st \<and> (1, 0, replicate 4096 7) \<in> set (applied st)"
proof -
  let ?w1 = "run_ops (\<lambda>_. 0) ([LogPage 3 1 0 (replicate 4096 7)] @ [LogCommit 3]) (wal_new [])"
  have "length (wal_file ?w1) \<le> length (wal_file ?w1) + 10" by simp
  note wal_crash_recovery [OF _ _ _ refl this refl, of "[LogPage 4 1 0 (replicate 4096 9), FlushPending]" 0]
  then show ?thesis unfolding Let_def by simp
qed

section \<open>The shared file position\<close>

text \<open>
  C38 [cdc_read_overwrites_log]. \<open>read_records_from\<close> leaves the position of the file where its read ended. When
  more than \<open>MAX_WAL_READ_SIZE\<close> bytes follow the start of the read, the next commit is written at that position,
  over the records that are there, and not at the end of the log.
\<close>

theorem cdc_read_overwrites_log:
  assumes "WAL_HEADER_SIZE \<le> start" "start + MAX_WAL_READ_SIZE < length (wal_file w)"
  shows "\<exists>n < 8. wal_file (log_commit crc t (snd (read_records_from start w)))
    = write_at (start + MAX_WAL_READ_SIZE) (pending_buf w @ enc crc (Commit t) @ replicate n 0) (wal_file w)"
proof -
  let ?p = "start + MAX_WAL_READ_SIZE" and ?b = "pending_buf w @ enc crc (Commit t)"
  have pos: "snd (read_records_from start w) = w\<lparr>wal_pos := ?p\<rparr>"
    using assms by (auto simp: read_records_from_def Let_def)
  let ?q = "padding (?p + length ?b)"
  have app: "write_at (?p + length ?b) zs (write_at ?p ?b (wal_file w)) = write_at ?p (?b @ zs) (wal_file w)" for zs
    using assms(2) by (intro write_at_write_at) simp
  have "wal_file (log_commit crc t (snd (read_records_from start w))) = write_at ?p (?b @ replicate ?q 0) (wal_file w)"
    using app [of "replicate ?q 0"] unfolding pos log_commit_def align_position_def write_all_def by (simp add: Let_def)
  moreover have "?q < 8" by (simp add: padding_def)
  ultimately show ?thesis by (intro exI [of _ ?q]) simp
qed

theorem cdc_read_overwrites_log_witness:
  "\<exists>n < 8. wal_file (log_commit (\<lambda>_. 0) 3 (snd (read_records_from 5
       \<lparr>wal_file = replicate 70000000 0, wal_pos = 70000000, committed_txs = {}, pending_buf = [], wal_version = 2\<rparr>)))
     = write_at (5 + MAX_WAL_READ_SIZE) ([] @ enc (\<lambda>_. 0) (Commit 3) @ replicate n 0) (replicate 70000000 0)"
  using cdc_read_overwrites_log [of 5
      "\<lparr>wal_file = replicate 70000000 0, wal_pos = 70000000, committed_txs = {}, pending_buf = [], wal_version = 2\<rparr>" "\<lambda>_. 0" 3]
  by (simp only: wal.simps length_replicate) (simp add: WAL_HEADER_SIZE_def MAX_WAL_READ_SIZE_def)

text \<open>
  C39 [corrupt_record_repeats]. An iterator that reports a corrupt record stays at it: every later call reports
  the same record again, so a loop that reads until the iterator is exhausted never ends.
\<close>

theorem corrupt_record_repeats:
  assumes "next_record crc it = (Some Corrupt, it')"
  shows "next_record crc it' = (Some Corrupt, it')"
  using assms
proof (induction crc it rule: next_record.induct)
  case (1 crc it)
  show ?case
  proof (cases "it_pos it < length (it_buf it)")
    case False
    then show ?thesis using "1.prems" by (simp add: next_record.simps [of crc it])
  next
    case True
    let ?ty = "it_buf it ! it_pos it"
    consider "?ty = RECORD_TYPE_PAGE_UPDATE" | "?ty = RECORD_TYPE_COMMIT" | "?ty = 0"
      | "?ty \<noteq> RECORD_TYPE_PAGE_UPDATE" "?ty \<noteq> RECORD_TYPE_COMMIT" "?ty \<noteq> 0" by blast
    then show ?thesis
    proof cases
      case 1
      then have "iter_page_update crc it = (Some Corrupt, it')"
        using "1.prems" True by (simp add: next_record.simps [of crc it] Let_def)
      moreover from this have "it' = it" by (auto simp: iter_page_update_def Let_def split: if_splits)
      ultimately show ?thesis using "1.prems" by simp
    next
      case 2
      obtain r it2 where c: "iter_commit crc it = (r, it2)" by (cases "iter_commit crc it")
      show ?thesis
      proof (cases r)
        case None
        then show ?thesis using "1.IH"(1) "1.prems" True 2 c by (simp add: next_record.simps [of crc it] Let_def)
      next
        case (Some r')
        then have "r' = Some Corrupt" "it2 = it'"
          using "1.prems" True 2 c by (simp_all add: next_record.simps [of crc it] Let_def)
        then have "it' = it" using c Some by (auto simp: iter_commit_def Let_def split: if_splits)
        then show ?thesis using "1.prems" by simp
      qed
    next
      case 3
      then show ?thesis using "1.IH"(2) "1.prems" True by (simp add: next_record.simps [of crc it] Let_def)
    next
      case 4
      obtain b it2 where s: "iter_skip it = (b, it2)" by (cases "iter_skip it")
      then show ?thesis using "1.IH"(3) "1.prems" True 4 by (cases b) (simp_all add: next_record.simps [of crc it] Let_def)
    qed
  qed
qed

definition corrupt_iter :: wal_iter where
  "corrupt_iter = \<lparr>it_buf = replicate 20 2, it_pos = 0, base_offset = 5, it_version = 2\<rparr>"

theorem corrupt_record_repeats_witness:
  "next_record (\<lambda>_. 0) (snd (next_record (\<lambda>_. 0) corrupt_iter)) = (Some Corrupt, corrupt_iter)"
proof -
  have "next_record (\<lambda>_. 0) corrupt_iter = (Some Corrupt, corrupt_iter)" by code_simp
  with corrupt_record_repeats [OF this] show ?thesis by simp
qed

end
