(* ===== verification/Circuit_Breaker.thy ===== *)
theory Circuit_Breaker
  imports Main
begin

text \<open>
  The circuit breaker of the Rust client (\<open>packages/lightning-rust/src/circuit_breaker.rs\<close>). The mutex makes each
  call one step. Times are read from a monotonic clock, in any unit, and are arguments of the calls; counters
  are natural numbers, bounded by the thresholds of the configuration.
\<close>

datatype circuit_state = Closed | Open | HalfOpen

record breaker_config =
  failure_threshold :: nat
  recovery_timeout :: nat
  half_open_max_requests :: nat
  success_threshold :: nat

text \<open>The default configuration, in seconds.\<close>

definition default_config :: breaker_config where
  "default_config = \<lparr>failure_threshold = 5, recovery_timeout = 30, half_open_max_requests = 3, success_threshold = 2\<rparr>"

record breaker =
  state :: circuit_state
  failure_count :: nat
  success_count :: nat
  half_open_requests :: nat
  last_failure_time :: "nat option"

definition new_breaker :: breaker where
  "new_breaker = \<lparr>state = Closed, failure_count = 0, success_count = 0, half_open_requests = 0, last_failure_time = None\<rparr>"

definition allow_request :: "breaker_config \<Rightarrow> nat \<Rightarrow> breaker \<Rightarrow> bool \<times> breaker" where
  "allow_request cfg now b =
     (case state b of
        Closed \<Rightarrow> (True, b)
      | Open \<Rightarrow>
          (case last_failure_time b of
             Some t \<Rightarrow> if now - t \<ge> recovery_timeout cfg
               then (True, b\<lparr>state := HalfOpen, half_open_requests := 1, success_count := 0\<rparr>) else (False, b)
           | None \<Rightarrow> (False, b))
      | HalfOpen \<Rightarrow>
          if half_open_requests b < half_open_max_requests cfg
          then (True, b\<lparr>half_open_requests := half_open_requests b + 1\<rparr>) else (False, b))"

definition on_success :: "breaker_config \<Rightarrow> breaker \<Rightarrow> breaker" where
  "on_success cfg b =
     (case state b of
        Closed \<Rightarrow> b\<lparr>failure_count := 0\<rparr>
      | HalfOpen \<Rightarrow>
          (let b = b\<lparr>success_count := success_count b + 1\<rparr>
           in if success_count b \<ge> success_threshold cfg
              then b\<lparr>state := Closed, failure_count := 0, success_count := 0, half_open_requests := 0\<rparr> else b)
      | Open \<Rightarrow> b)"

definition on_failure :: "breaker_config \<Rightarrow> nat \<Rightarrow> breaker \<Rightarrow> breaker" where
  "on_failure cfg now b =
     (case state b of
        Closed \<Rightarrow>
          (let b = b\<lparr>failure_count := failure_count b + 1, last_failure_time := Some now\<rparr>
           in if failure_count b \<ge> failure_threshold cfg then b\<lparr>state := Open\<rparr> else b)
      | HalfOpen \<Rightarrow> b\<lparr>last_failure_time := Some now, state := Open\<rparr>
      | Open \<Rightarrow> b\<lparr>last_failure_time := Some now\<rparr>)"

section \<open>The breaker as a state machine\<close>

inductive breaker_step :: "breaker_config \<Rightarrow> breaker \<Rightarrow> breaker \<Rightarrow> bool" for cfg where
  allow: "breaker_step cfg b (snd (allow_request cfg now b))"
| success: "breaker_step cfg b (on_success cfg b)"
| failure: "breaker_step cfg b (on_failure cfg now b)"

inductive breaker_reachable :: "breaker_config \<Rightarrow> breaker \<Rightarrow> bool" for cfg where
  start: "breaker_reachable cfg new_breaker"
| more: "breaker_reachable cfg b \<Longrightarrow> breaker_step cfg b b' \<Longrightarrow> breaker_reachable cfg b'"

definition breaker_inv :: "breaker_config \<Rightarrow> breaker \<Rightarrow> bool" where
  "breaker_inv cfg b \<longleftrightarrow>
     (case state b of
        Closed \<Rightarrow> failure_count b < max 1 (failure_threshold cfg)
      | Open \<Rightarrow> last_failure_time b \<noteq> None
      | HalfOpen \<Rightarrow> 1 \<le> half_open_requests b \<and> half_open_requests b \<le> max 1 (half_open_max_requests cfg)
          \<and> success_count b < max 1 (success_threshold cfg))"

lemmas breaker_defs = allow_request_def on_success_def on_failure_def breaker_inv_def

lemma breaker_inv_step: "breaker_step cfg b b' \<Longrightarrow> breaker_inv cfg b \<Longrightarrow> breaker_inv cfg b'"
  by (induction rule: breaker_step.induct)
    (auto simp: breaker_defs Let_def split: circuit_state.splits option.splits if_splits)

text \<open>
  C24 [breaker_invariant]. In every state the breaker can reach, a closed breaker has counted fewer failures than
  its threshold, an open one knows when it last failed, and a half-open one has let through at least one and at
  most the configured number of probes and still waits for successes.
\<close>

theorem breaker_invariant:
  assumes "breaker_reachable cfg b"
  shows "(state b = Closed \<longrightarrow> failure_count b < max 1 (failure_threshold cfg))
    \<and> (state b = Open \<longrightarrow> last_failure_time b \<noteq> None)
    \<and> (state b = HalfOpen \<longrightarrow> 1 \<le> half_open_requests b \<and> half_open_requests b \<le> max 1 (half_open_max_requests cfg)
         \<and> success_count b < max 1 (success_threshold cfg))"
proof -
  have "breaker_inv cfg b" using assms
    by induction (auto simp: breaker_inv_step, simp add: breaker_inv_def new_breaker_def)
  then show ?thesis by (simp add: breaker_inv_def split: circuit_state.splits)
qed

definition tripped :: breaker where
  "tripped = fold (\<lambda>t. on_failure default_config t) [1, 2, 3, 4, 5] new_breaker"

lemma failures_reachable: "breaker_reachable cfg b \<Longrightarrow> breaker_reachable cfg (fold (\<lambda>t. on_failure cfg t) ts b)"
  by (induction ts arbitrary: b) (auto intro: more failure)

lemma tripped_reachable: "breaker_reachable default_config tripped"
  unfolding tripped_def by (rule failures_reachable [OF start])

theorem breaker_invariant_witness:
  "breaker_reachable default_config tripped \<and> state tripped = Open \<and> last_failure_time tripped \<noteq> None"
proof -
  have "state tripped = Open" by code_simp
  then show ?thesis using breaker_invariant [OF tripped_reachable] tripped_reachable by blast
qed

section \<open>Recovery\<close>

text \<open>A probe that is let through and succeeds.\<close>

definition probe :: "breaker_config \<Rightarrow> nat \<Rightarrow> breaker \<Rightarrow> breaker" where
  "probe cfg now b = on_success cfg (snd (allow_request cfg now b))"

lemma probes_half_open:
  assumes "state b = HalfOpen" "half_open_requests b = success_count b" "success_count b < success_threshold cfg"
    "success_threshold cfg \<le> half_open_max_requests cfg" "n = success_threshold cfg - success_count b"
  shows "state ((probe cfg now ^^ n) b) = Closed"
  using assms
proof (induction n arbitrary: b)
  case 0
  then show ?case by simp
next
  case (Suc n)
  have p: "probe cfg now b = (if success_threshold cfg \<le> success_count b + 1
      then b\<lparr>state := Closed, failure_count := 0, success_count := 0, half_open_requests := 0\<rparr>
      else b\<lparr>half_open_requests := half_open_requests b + 1, success_count := success_count b + 1\<rparr>)"
    using Suc.prems by (simp add: probe_def allow_request_def on_success_def Let_def)
  show ?case
  proof (cases "n = 0")
    case True
    then have "success_threshold cfg \<le> success_count b + 1" using Suc.prems(5) by linarith
    then have "state (probe cfg now b) = Closed" using p by simp
    then show ?thesis using True by simp
  next
    case False
    then have "\<not> success_threshold cfg \<le> success_count b + 1" using Suc.prems(5) by linarith
    then have "state ((probe cfg now ^^ n) (probe cfg now b)) = Closed" using Suc.prems p by (intro Suc.IH) auto
    then show ?thesis unfolding funpow_Suc_right comp_def .
  qed
qed

text \<open>
  C14 [breaker_recovers]. When the configuration lets through as many probes as it asks successes for, an open
  breaker closes again: from any reachable open state, once the recovery timeout has passed since the last
  failure, that many successful requests close it.
\<close>

theorem breaker_recovers:
  assumes "breaker_reachable cfg b" "state b = Open" "1 \<le> success_threshold cfg"
    and "success_threshold cfg \<le> half_open_max_requests cfg"
    and "\<forall>t. last_failure_time b = Some t \<longrightarrow> t + recovery_timeout cfg \<le> now"
  shows "fst (allow_request cfg now b) \<and> state ((probe cfg now ^^ success_threshold cfg) b) = Closed"
proof -
  have "breaker_inv cfg b" using assms(1)
    by induction (auto simp: breaker_inv_step, simp add: breaker_inv_def new_breaker_def)
  then obtain t where t: "last_failure_time b = Some t" using assms(2) by (auto simp: breaker_inv_def)
  then have now: "recovery_timeout cfg \<le> now - t" using assms(5) by auto
  let ?h = "b\<lparr>state := HalfOpen, half_open_requests := 0, success_count := 0\<rparr>"
  have ok: "allow_request cfg now b = (True, snd (allow_request cfg now ?h))"
    using assms t now by (simp add: allow_request_def)
  then have "probe cfg now b = probe cfg now ?h" by (simp add: probe_def)
  moreover obtain m where "success_threshold cfg = Suc m" using assms(3) by (cases "success_threshold cfg") auto
  ultimately have "(probe cfg now ^^ success_threshold cfg) b = (probe cfg now ^^ success_threshold cfg) ?h"
    by (simp only: funpow_Suc_right comp_def)
  moreover have "state ((probe cfg now ^^ success_threshold cfg) ?h) = Closed"
    using assms by (intro probes_half_open) auto
  ultimately show ?thesis using ok by simp
qed

theorem breaker_recovers_witness:
  "fst (allow_request default_config 35 tripped) \<and> state ((probe default_config 35 ^^ 2) tripped) = Closed"
proof -
  have "state tripped = Open" "last_failure_time tripped = Some 5" by code_simp+
  then show ?thesis using breaker_recovers [OF tripped_reachable, of 35] by (simp add: default_config_def)
qed

text \<open>
  A half-open breaker that has handed out its last probe refuses every request, at
  every later time, and stays as it is: when fewer probes than required successes are configured, or when a probe
  never reports its outcome, only a late report can free it, no matter how much time passes.
\<close>

lemma breaker_stuck_half_open:
  assumes "state b = HalfOpen" "half_open_max_requests cfg \<le> half_open_requests b"
  shows "fold (\<lambda>now (res, b). (res @ [fst (allow_request cfg now b)], snd (allow_request cfg now b))) ts ([], b)
    = (replicate (length ts) False, b)"
proof -
  have "fold (\<lambda>now (res, b). (res @ [fst (allow_request cfg now b)], snd (allow_request cfg now b))) ts (res, b)
      = (res @ replicate (length ts) False, b)" for res
    using assms by (induction ts arbitrary: res) (simp_all add: allow_request_def)
  then show ?thesis by simp
qed

end
