(* ===== verification/Codec_Properties.thy ===== *)
theory Codec_Properties
  imports Rle_Codec Dict_Codec
begin

text \<open>
  Re-encoding a column of 8-byte values block by block and reading it back row by row, for the codecs that need no
  metadata and for the frame of reference with the bit width the analyzer computes; and what the fixed element
  size of the codecs does to columns of other widths.
\<close>

text \<open>
  C18 [rle_dict_lossless]. Any column of 8-byte values re-encoded with run lengths or with dictionaries reads back
  row by row as it was; the re-encoding never fails.
\<close>

theorem rle_dict_lossless:
  assumes "\<forall>v \<in> set vals. length v = 8"
  shows "(\<exists>pages. reencode_compressed rle_compress m 8 vals = Ok pages
      \<and> (\<forall>i < length vals. read_compressed rle_decompress m 8 pages i = Ok (vals ! i)))
    \<and> (\<exists>pages. reencode_compressed dict_compress m 8 vals = Ok pages
      \<and> (\<forall>i < length vals. read_compressed dict_decompress m 8 pages i = Ok (vals ! i)))"
proof -
  have "rle.blocks_valid m vals" "dict.blocks_valid m vals"
    using assms by (simp_all add: rle.blocks_valid_def dict.blocks_valid_def)
  then show ?thesis using rle.reencode_roundtrip dict.reencode_roundtrip by blast
qed

definition dict_meta :: compression_metadata where
  "dict_meta = \<lparr>min_value = NullV, max_value = NullV, compression = DictT, bit_width = 0\<rparr>"

theorem rle_dict_lossless_witness:
  "\<exists>pages. reencode_compressed dict_compress dict_meta 8 (replicate 40 [1, 2, 3, 4, 5, 6, 7, 8]) = Ok pages
     \<and> read_compressed dict_decompress dict_meta 8 pages 39 = Ok [1, 2, 3, 4, 5, 6, 7, 8]"
proof -
  have "\<forall>v \<in> set (replicate 40 [1, 2, 3, 4, 5, 6, 7, 8 :: byte]). length v = 8" by simp
  from conjunct2 [OF rle_dict_lossless [OF this, of dict_meta]] obtain pages where
    pages: "reencode_compressed dict_compress dict_meta 8 (replicate 40 [1, 2, 3, 4, 5, 6, 7, 8]) = Ok pages"
    and "\<forall>i < 40. read_compressed dict_decompress dict_meta 8 pages i = Ok (replicate 40 [1, 2, 3, 4, 5, 6, 7, 8] ! i)"
    by (auto simp only: length_replicate)
  then have "read_compressed dict_decompress dict_meta 8 pages 39 = Ok (replicate 40 [1, 2, 3, 4, 5, 6, 7, 8] ! 39)"
    by (elim allE [of _ 39]) (simp del: nth_replicate)
  then have "read_compressed dict_decompress dict_meta 8 pages 39 = Ok [1, 2, 3, 4, 5, 6, 7, 8]" by simp
  with pages show ?thesis by blast
qed

section \<open>Frame of reference\<close>

definition calculate_bit_width :: "u64 \<Rightarrow> nat" where
  "calculate_bit_width r = (if r = 0 then 0 else bit_length (unat r))"

lemma block_value:
  assumes "take (n * 8) src = concat (map (le_bytes 8) (take n (drop k vs)))" "i < n" "k + n \<le> length vs"
  shows "value_at src i = (vs ! (k + i) :: u64)"
proof -
  have "slice_at (i * 8) 8 src = slice_at (i * 8) 8 (take (n * 8) src)" using assms(2) by (simp add: slice_at_take)
  also have "\<dots> = map (le_bytes 8) (take n (drop k vs)) ! i"
    unfolding assms(1) using assms(2,3) by (intro slice_concat_const) auto
  finally show ?thesis using assms(2,3) by simp
qed

lemma small_width: "calculate_bit_width r \<le> 64"
  using bit_length_le [of "unat r" 64] unsigned_less [of r, where 'a = nat] by (simp add: calculate_bit_width_def)

lemma in_width:
  assumes "(x :: u64) \<le> r"
  shows "take_bit (calculate_bit_width r) x = x"
proof -
  have "unat x < 2 ^ calculate_bit_width r"
    using assms less_exp_bit_length [of "unat r"] by (auto simp: calculate_bit_width_def word_le_nat_alt)
  then have "unat (take_bit (calculate_bit_width r) x) = unat x" by (simp add: unsigned_take_bit_eq take_bit_nat_eq_self)
  then show ?thesis by (simp add: word_unat_eq_iff)
qed

lemma sub_in_range:
  assumes "mn \<le> v" "v \<le> mx" "mx < 2 ^ 63"
  shows "checked_sub_i64 v mn \<noteq> None" "v - mn \<le> mx - (mn :: u64)"
proof -
  have s: "sint x = uint x" if "x \<le> mx" for x :: u64
  proof -
    have "uint x < 2 ^ 63" using that assms(3) by (simp add: word_le_def word_less_def)
    then have "signed_take_bit 63 (uint x) = uint x"
      by (intro signed_take_bit_int_eq_self) (simp_all add: order_trans [OF _ unsigned_greater_eq])
    then show ?thesis by (simp add: sint_uint)
  qed
  have "mn \<le> mx" using assms by simp
  then have "sint v - sint mn = uint v - uint mn" using s [of v] s [of mn] assms(2) by simp
  moreover have "uint mn \<le> uint v" "uint v < 2 ^ 63" using assms by (simp_all add: word_le_def word_less_def)
  moreover have "uint v - uint mn < 2 ^ 63" using \<open>uint v < 2 ^ 63\<close> unsigned_greater_eq [of mn, where 'a = int] by linarith
  ultimately show "checked_sub_i64 v mn \<noteq> None" by (simp add: checked_sub_i64_def Let_def)
  have "unat (v - mn) = unat v - unat mn" "unat (mx - mn) = unat mx - unat mn"
    using assms(1) \<open>mn \<le> mx\<close> by (simp_all add: unat_sub)
  then show "v - mn \<le> mx - mn" using assms(2) by (simp add: word_le_nat_alt)
qed

text \<open>
  C17 [frame_of_reference_lossless]. A column of ids between \<open>mn\<close> and \<open>mx\<close>, all below \<open>2 ^ 63\<close>, re-encoded as offsets
  to \<open>mn\<close> with the bit width that the analyzer computes for the range, reads back row by row as it was.
\<close>

theorem frame_of_reference_lossless:
  assumes "\<forall>v \<in> set vs. mn \<le> v \<and> v \<le> mx" "mx < 2 ^ 63"
    and "min_value m = Node mn" "bit_width m = calculate_bit_width (mx - mn)"
  shows "\<exists>pages. reencode_compressed delta_compress m 8 (map (le_bytes 8) vs) = Ok pages
    \<and> (\<forall>i < length vs. read_compressed delta_decompress m 8 pages i = Ok (le_bytes 8 (vs ! i)))"
proof -
  have fm: "frame_min m = mn" using assms(3) by (simp add: frame_min_def)
  have ok: "checked_sub_i64 v mn \<noteq> None \<and> take_bit (bit_width m) (v - mn) = v - mn" if "v \<in> set vs" for v
    using sub_in_range [of mn v mx] in_width [of "v - mn" "mx - mn"] assms that by simp
  have "delta.blocks_valid m (map (le_bytes 8) vs)"
    unfolding delta.blocks_valid_def
  proof (intro conjI allI impI ballI)
    fix v :: "byte list" assume "v \<in> set (map (le_bytes 8) vs)"
    then show "length v = 8" by auto
  next
    fix b src
    let ?n = "min 32 (length (map (le_bytes 8) vs) - b * 32)"
    assume b: "b * 32 < length (map (le_bytes 8) vs)"
      and src: "take (?n * 8) src = concat (take ?n (drop (b * 32) (map (le_bytes 8) vs)))"
    have "value_at src i \<in> set vs" if "i < ?n" for i
    proof -
      have "value_at src i = vs ! (b * 32 + i)"
        using src that b by (intro block_value [of ?n]) (simp_all add: drop_map take_map)
      moreover have "b * 32 + i < length vs" using that by (simp add: less_diff_conv add.commute)
      ultimately show ?thesis by (simp only: nth_mem)
    qed
    then show "delta_valid m src ?n" unfolding delta_valid_def fm using ok small_width assms(4) by simp
  qed
  from delta.reencode_roundtrip [OF this] show ?thesis by simp
qed

definition for_meta :: compression_metadata where
  "for_meta = \<lparr>min_value = Node 1000, max_value = Node 1003, compression = FixedFrameOfReferenceT, bit_width = 2\<rparr>"

theorem frame_of_reference_lossless_witness:
  "\<exists>pages. reencode_compressed delta_compress for_meta 8 (map (le_bytes 8) [1000, 1003, 1001 :: u64]) = Ok pages
     \<and> read_compressed delta_decompress for_meta 8 pages 1 = Ok (le_bytes 8 (1003 :: u64))"
proof -
  have 4: "bit_width for_meta = calculate_bit_width (1003 - 1000)"
    by (simp add: for_meta_def calculate_bit_width_def bit_length.simps)
  have 1: "\<forall>v \<in> set [1000, 1003, 1001]. 1000 \<le> v \<and> v \<le> (1003 :: u64)" by simp
  have 2: "(1003 :: u64) < 2 ^ 63" by simp
  have 3: "min_value for_meta = Node 1000" by (simp add: for_meta_def)
  obtain pages where
    p: "reencode_compressed delta_compress for_meta 8 (map (le_bytes 8) [1000, 1003, 1001 :: u64]) = Ok pages"
    and r: "\<forall>i < length [1000, 1003, 1001 :: u64]. read_compressed delta_decompress for_meta 8 pages i
       = Ok (le_bytes 8 ([1000, 1003, 1001 :: u64] ! i))"
    using frame_of_reference_lossless [OF 1 2 3 4] by (elim exE conjE)
  have "read_compressed delta_decompress for_meta 8 pages 1 = Ok (le_bytes 8 ([1000, 1003, 1001 :: u64] ! 1))"
    using r by (elim allE [of _ 1]) simp
  with p show ?thesis by auto
qed

text \<open>The codecs read 8-byte values: a block of a column of narrower cells is refused.\<close>

lemma narrow_column_not_encoded:
  assumes "vals \<noteq> []" "\<forall>v \<in> set vals. length v = 4"
  shows "reencode_compressed delta_compress m 4 vals = Err (Internal ''delta compress: src too short'')"
proof -
  let ?b = "take (min 32 (length vals)) vals"
  have "\<forall>v \<in> set ?b. length v = 4" using assms(2) by (auto dest: in_set_takeD)
  then have "fill_block 4 ?b 0 (replicate 128 0) = write_at 0 (concat ?b) (replicate 128 0)" "length (concat ?b) \<le> 128"
    using fill_block_eq [of ?b 4 0 "replicate 128 0"] length_concat_const [of ?b 4] by simp_all
  then have "length (fill_block 4 ?b 0 (replicate 128 0)) = 128" by simp
  then show ?thesis using assms(1)
    by (simp add: reencode_compressed_def reencode_loop.simps [of _ _ _ vals] delta_compress_def Let_def)
qed

end
