(* ===== verification/Zone_Maps.thy ===== *)
theory Zone_Maps
  imports Logical_Types
begin

text \<open>
  The zone maps of a column (\<open>storage/column.rs\<close>): the minimum and maximum that \<open>compute_page_bounds\<close> collects from
  the values of a page, and the decision to skip a page for an equality filter.
\<close>

text \<open>
  The loop over the values of one page. Both guards of the source look at \<open>page_min\<close>: a value is compared with
  the minimum, also to decide about the maximum.
\<close>

definition bounds_step :: "(val \<Rightarrow> string) \<Rightarrow> val \<Rightarrow> val option \<times> val option \<Rightarrow> val option \<times> val option" where
  "bounds_step dbg v b =
     (if v = NullV then b
      else (case fst b of
              None \<Rightarrow> (Some v, Some v)
            | Some m \<Rightarrow> if val_less dbg v m then (Some v, snd b)
                else if val_greater dbg v m then (fst b, Some v) else b))"

definition page_bounds_of :: "(val \<Rightarrow> string) \<Rightarrow> val list \<Rightarrow> page_bounds option" where
  "page_bounds_of dbg vals =
     (case fold (bounds_step dbg) vals (None, None) of
        (Some lo, Some hi) \<Rightarrow> Some \<lparr>pb_min = lo, pb_max = hi\<rparr>
      | _ \<Rightarrow> None)"

definition zone_map_should_skip :: "column_stats \<Rightarrow> logical_type \<Rightarrow> u64 \<Rightarrow> val option \<Rightarrow> bool" where
  "zone_map_should_skip st t page_idx zone_map =
     (case zone_map of
        None \<Rightarrow> False
      | Some q \<Rightarrow>
          if \<not> page_bounds_valid st then False
          else if length (bounds st) \<le> unat page_idx then False
          else (case bounds st ! unat page_idx of
                  None \<Rightarrow> False
                | Some pb \<Rightarrow> \<not> value_can_be_in_page pb q t))"

lemma node_order [simp]:
  "val_less dbg (Node a) (Node b) \<longleftrightarrow> a < b" "val_greater dbg (Node a) (Node b) \<longleftrightarrow> b < a"
  by (auto simp: val_less_def val_greater_def val_cmp.simps compare_by_def)

lemma bounds_step_node:
  "bounds_step dbg (Node v) (None, None) = (Some (Node v), Some (Node v))"
  "bounds_step dbg (Node v) (Some (Node lo), hi)
     = (if v < lo then (Some (Node v), hi) else if lo < v then (Some (Node lo), Some (Node v)) else (Some (Node lo), hi))"
  by (simp_all add: bounds_step_def)

text \<open>
  C40 [zone_map_skips_present_id]. The maximum recorded for a page is the last value above the minimum, not the
  largest one: on a page that holds the ids \<open>a\<close>, \<open>c\<close>, \<open>b\<close> with \<open>a < b < c\<close> the recorded bounds end at \<open>b\<close>, and a scan for
  \<open>c\<close> skips the page that contains it.
\<close>

theorem zone_map_skips_present_id:
  assumes "a < b" "b < c" "page_bounds_valid st" "bounds st = [page_bounds_of dbg [Node a, Node c, Node b]]"
  shows "zone_map_should_skip st Uint64T 0 (Some (Node c))"
proof -
  have "a < c" "\<not> c < a" "\<not> b < a" using assms(1,2) by auto
  then have "page_bounds_of dbg [Node a, Node c, Node b] = Some \<lparr>pb_min = Node a, pb_max = Node b\<rparr>"
    using assms(1) by (simp add: page_bounds_of_def bounds_step_node)
  then show ?thesis using assms(2-4) by (simp add: zone_map_should_skip_def value_can_be_in_page_def as_node_def not_le)
qed

theorem zone_map_skips_present_id_witness:
  "zone_map_should_skip (new_column_stats\<lparr>bounds := [page_bounds_of (\<lambda>_. []) [Node 1, Node 5, Node 3]], page_bounds_valid := True\<rparr>)
     Uint64T 0 (Some (Node 5))"
  by (rule zone_map_skips_present_id [of 1 3 5]) simp_all

text \<open>The minimum is right: it is a lower bound of the ids of the page, and one of them.\<close>

lemma bounds_min_nodes:
  "fold (bounds_step dbg) (map Node vs) (Some (Node lo), hi) = (b, hi') \<Longrightarrow> b = Some (Node (fold min vs lo))"
proof (induction vs arbitrary: lo hi)
  case Nil
  then show ?case by simp
next
  case (Cons v vs)
  then show ?case by (auto simp: bounds_step_node min_def split: if_splits)
qed

end
